(* ===== verification/Prelude.thy ===== *)
theory Prelude
  imports Complex_Main "HOL-Library.Product_Lexorder" "HOL-Library.Multiset"
begin

text \<open>
  Shared vocabulary of the development: Python text, time and result values, the two table
  operations every SQL statement of the program is built from (\<open>UPDATE \<dots> WHERE\<close> and
  \<open>ORDER BY \<dots> LIMIT\<close>), and the generic list lemmas the component theories share.

  A Python \<open>str\<close> is a sequence of code points, surrogates and NUL included, so it is a
  list of naturals; \<open>lit\<close> turns an Isabelle string literal into one. Durations and
  timestamps are rational seconds: the model uses exact arithmetic where Python and
  PostgreSQL use binary64 and microseconds.
\<close>

named_theorems row_simps "facts about one-row updates"
named_theorems inv_intros "introduction rules of the table invariants"

section \<open>Names for the model's base types\<close>

type_synonym ustr = "nat list"
type_synonym time = rat
type_synonym uuid = nat

definition lit :: "string \<Rightarrow> ustr" where
  "lit s = map of_char s"

lemma lit_Nil [simp]: "lit [] = []"
  by (simp add: lit_def)

lemma lit_Cons [simp]: "lit (c # s) = of_char c # lit s"
  by (simp add: lit_def)

lemma length_lit [simp]: "length (lit s) = length s"
  by (simp add: lit_def)

section \<open>Results: an exception or a value\<close>

fun bind_result :: "'e + 'a \<Rightarrow> ('a \<Rightarrow> 'e + 'b) \<Rightarrow> 'e + 'b" where
  "bind_result (Inl e) f = Inl e"
| "bind_result (Inr x) f = f x"

lemma bind_result_Inr_iff:
  "bind_result m f = Inr y \<longleftrightarrow> (\<exists>x. m = Inr x \<and> f x = Inr y)"
  by (cases m) auto

lemma bind_result_cong [fundef_cong]:
  "m = m' \<Longrightarrow> (\<And>x. m' = Inr x \<Longrightarrow> f x = g x) \<Longrightarrow> bind_result m f = bind_result m' g"
  by (cases m') auto

text \<open>A Python \<open>for\<close> loop whose body may raise: the first exception ends it.\<close>

fun each :: "('a \<Rightarrow> 'e + unit) \<Rightarrow> 'a list \<Rightarrow> 'e + unit" where
  "each f [] = Inr ()"
| "each f (x # xs) = bind_result (f x) (\<lambda>_. each f xs)"

lemma each_Inr_iff: "each f xs = Inr () \<longleftrightarrow> (\<forall>x \<in> set xs. f x = Inr ())"
  by (induction xs) (auto simp: bind_result_Inr_iff)

lemma each_cong [fundef_cong]:
  "xs = ys \<Longrightarrow> (\<And>x. x \<in> set ys \<Longrightarrow> f x = g x) \<Longrightarrow> each f xs = each g ys"
proof (induction ys arbitrary: xs)
  case Nil
  then show ?case by simp
next
  case (Cons y ys)
  have "each f ys = each g ys"
    by (rule Cons.IH) (use Cons.prems in auto)
  moreover have "f y = g y" using Cons.prems(2) by simp
  ultimately show ?case using Cons.prems(1) by simp
qed

text \<open>A comprehension whose element expression may raise.\<close>

fun collect :: "('a \<Rightarrow> 'e + 'b) \<Rightarrow> 'a list \<Rightarrow> 'e + 'b list" where
  "collect f [] = Inr []"
| "collect f (x # xs) = bind_result (f x) (\<lambda>y. bind_result (collect f xs) (\<lambda>ys. Inr (y # ys)))"

lemma collect_cong [fundef_cong]:
  "xs = ys \<Longrightarrow> (\<And>x. x \<in> set ys \<Longrightarrow> f x = g x) \<Longrightarrow> collect f xs = collect g ys"
proof (induction ys arbitrary: xs)
  case Nil
  then show ?case by simp
next
  case (Cons y ys)
  have "collect f ys = collect g ys"
    by (rule Cons.IH) (use Cons.prems in auto)
  moreover have "f y = g y" using Cons.prems(2) by simp
  ultimately show ?case using Cons.prems(1) by simp
qed

lemma collect_Inr_iff:
  "collect f xs = Inr ys \<longleftrightarrow> list_all2 (\<lambda>x y. f x = Inr y) xs ys"
proof (induction xs arbitrary: ys)
  case Nil
  then show ?case by auto
next
  case (Cons x xs)
  then show ?case by (cases ys) (auto simp: bind_result_Inr_iff)
qed

section \<open>Table operations\<close>

text \<open>\<open>UPDATE table SET f WHERE P\<close>, and the rows its \<open>RETURNING\<close> clause yields.\<close>

definition update_where :: "('r \<Rightarrow> bool) \<Rightarrow> ('r \<Rightarrow> 'r) \<Rightarrow> 'r list \<Rightarrow> 'r list" where
  "update_where P f rows = map (\<lambda>r. if P r then f r else r) rows"

definition returning :: "('r \<Rightarrow> bool) \<Rightarrow> ('r \<Rightarrow> 'r) \<Rightarrow> 'r list \<Rightarrow> 'r list" where
  "returning P f rows = map f (filter P rows)"

text \<open>\<open>ORDER BY k LIMIT n\<close>.\<close>

definition order_limit :: "('r \<Rightarrow> 'k::linorder) \<Rightarrow> nat \<Rightarrow> 'r list \<Rightarrow> 'r list" where
  "order_limit k n rows = take n (sort_key k rows)"

lemma set_update_where:
  "set (update_where P f rows) = {f r | r. r \<in> set rows \<and> P r} \<union> {r \<in> set rows. \<not> P r}"
  by (auto simp: update_where_def image_iff)

lemma update_where_cong:
  "(\<And>r. r \<in> set rows \<Longrightarrow> P r = Q r) \<Longrightarrow> (\<And>r. r \<in> set rows \<Longrightarrow> Q r \<Longrightarrow> f r = g r)
    \<Longrightarrow> update_where P f rows = update_where Q g rows"
  by (auto simp: update_where_def)

lemma returning_cong:
  "(\<And>r. r \<in> set rows \<Longrightarrow> P r = Q r) \<Longrightarrow> (\<And>r. r \<in> set rows \<Longrightarrow> Q r \<Longrightarrow> f r = g r)
    \<Longrightarrow> returning P f rows = returning Q g rows"
  by (auto simp: returning_def cong: filter_cong)

lemma update_where_none:
  "(\<And>r. r \<in> set rows \<Longrightarrow> \<not> P r) \<Longrightarrow> update_where P f rows = rows"
  by (auto simp: update_where_def intro: map_idI)

lemma returning_none:
  "(\<And>r. r \<in> set rows \<Longrightarrow> \<not> P r) \<Longrightarrow> returning P f rows = []"
  by (simp add: returning_def filter_empty_conv)

lemma map_update_where:
  "(\<And>r. P r \<Longrightarrow> k (f r) = k r) \<Longrightarrow> map k (update_where P f rows) = map k rows"
  by (simp add: update_where_def)

lemma length_update_where [simp]: "length (update_where P f rows) = length rows"
  by (simp add: update_where_def)

lemma set_returning: "set (returning P f rows) = f ` {r \<in> set rows. P r}"
  by (simp add: returning_def)

lemma set_order_limit: "set (order_limit k n rows) \<subseteq> set rows"
  by (metis order_limit_def set_sort set_take_subset)

lemma in_order_limit: "r \<in> set (order_limit k n rows) \<Longrightarrow> r \<in> set rows"
  using set_order_limit by fastforce

lemma length_order_limit: "length (order_limit k n rows) \<le> n"
  by (simp add: order_limit_def)

lemma length_order_limit_min: "length (order_limit k n rows) = min (length rows) n"
  by (simp add: order_limit_def)

lemma order_limit_all: "length rows \<le> n \<Longrightarrow> set (order_limit k n rows) = set rows"
  by (simp add: order_limit_def)

lemma sorted_order_limit: "sorted (map k (order_limit k n rows))"
  by (simp add: order_limit_def take_map [symmetric])

lemma distinct_map_order_limit:
  "distinct (map g rows) \<Longrightarrow> distinct (map g (order_limit k n rows))"
proof -
  assume d: "distinct (map g rows)"
  have "mset (map g (sort_key k rows)) = mset (map g rows)"
    by (simp only: mset_map mset_sort)
  with d have "distinct (map g (sort_key k rows))"
    by (metis mset_eq_imp_distinct_iff)
  then show ?thesis
    by (simp add: order_limit_def take_map [symmetric] distinct_take)
qed

text \<open>What \<open>LIMIT\<close> leaves out never sorts before what it keeps.\<close>

lemma order_limit_least:
  assumes "r \<in> set (order_limit k n rows)" "s \<in> set rows" "s \<notin> set (order_limit k n rows)"
  shows "k r \<le> k s"
proof -
  let ?l = "sort_key k rows"
  have "s \<in> set (drop n ?l)"
    using assms(2,3) unfolding order_limit_def
    by (metis append_take_drop_id set_append set_sort Un_iff)
  moreover have "r \<in> set (take n ?l)" using assms(1) by (simp add: order_limit_def)
  moreover have "sorted (map k (take n ?l @ drop n ?l))" by simp
  ultimately show ?thesis
    by (simp only: map_append sorted_append) auto
qed

text \<open>A primary key: rows with the same key are the same row.\<close>

lemma key_unique:
  "distinct (map k rows) \<Longrightarrow> r \<in> set rows \<Longrightarrow> s \<in> set rows \<Longrightarrow> k r = k s \<Longrightarrow> r = s"
  by (simp add: distinct_map inj_on_def)

text \<open>Selecting rows by the keys of a sublist selects that sublist.\<close>

lemma length_filter_keys:
  assumes "distinct (map k rows)" "distinct (map k sub)" "set sub \<subseteq> set rows"
  shows "length (filter (\<lambda>r. k r \<in> k ` set sub) rows) = length sub"
proof -
  have rows: "distinct rows" "inj_on k (set rows)" using assms(1) by (simp_all add: distinct_map)
  have sub: "distinct sub" using assms(2) by (simp add: distinct_map)
  have "{r \<in> set rows. k r \<in> k ` set sub} = set sub"
    using rows(2) assms(3) by (auto dest: inj_onD)
  then have "card (set (filter (\<lambda>r. k r \<in> k ` set sub) rows)) = card (set sub)" by simp
  then show ?thesis
    using distinct_card [OF sub] distinct_card [OF distinct_filter [OF rows(1)]] by metis
qed

section \<open>Row lookup\<close>

fun find_row :: "('r \<Rightarrow> bool) \<Rightarrow> 'r list \<Rightarrow> 'r option" where
  "find_row P [] = None"
| "find_row P (r # rs) = (if P r then Some r else find_row P rs)"

lemma find_row_SomeD: "find_row P rows = Some r \<Longrightarrow> r \<in> set rows \<and> P r"
  by (induction rows) (auto split: if_splits)

lemma find_row_None_iff: "find_row P rows = None \<longleftrightarrow> (\<forall>r \<in> set rows. \<not> P r)"
  by (induction rows) auto

lemma find_row_key:
  assumes "distinct (map k rows)"
  shows "find_row (\<lambda>r. k r = i) rows = Some r \<longleftrightarrow> r \<in> set rows \<and> k r = i"
  using assms
proof (induction rows)
  case (Cons x xs)
  then show ?case by (auto simp: image_iff)
qed simp

lemma distinct_map_filter_key: "distinct (map k rows) \<Longrightarrow> distinct (map k (filter P rows))"
  by (simp add: distinct_map inj_on_def)

lemma filter_key:
  "distinct (map k rows) \<Longrightarrow> r \<in> set rows \<Longrightarrow> k r = i \<Longrightarrow> filter (\<lambda>x. k x = i) rows = [r]"
proof (induction rows)
  case (Cons x rows)
  then show ?case by (cases "k x = i") (auto simp: filter_empty_conv image_iff)
qed simp

lemma length_filter_split:
  "length (filter P rows) = length (filter (\<lambda>r. P r \<and> Q r) rows) + length (filter (\<lambda>r. P r \<and> \<not> Q r) rows)"
  by (induction rows) auto

section \<open>Keyset pages\<close>

text \<open>Rows past the last key of a page are exactly the rest of the ordered list.\<close>

lemma filter_past_last:
  fixes k :: "'r \<Rightarrow> 'k::linorder"
  assumes "sorted (map k (xs @ ys))" "distinct (map k (xs @ ys))" "xs \<noteq> []"
  shows "filter (\<lambda>r. k (last xs) < k r) (xs @ ys) = ys"
proof -
  have last: "last xs \<in> set xs" using assms(3) by simp
  have "k r \<le> k (last xs)" if "r \<in> set xs" for r
  proof -
    have "sorted (map k (butlast xs @ [last xs]))" using assms(1,3) by (simp add: sorted_append)
    then have "\<forall>x \<in> set (butlast xs). k x \<le> k (last xs)" by (simp add: sorted_append)
    moreover have "r \<in> set (butlast xs @ [last xs])" using that assms(3) by simp
    ultimately show ?thesis by auto
  qed
  then have "filter (\<lambda>r. k (last xs) < k r) xs = []" by (auto simp: filter_empty_conv not_less)
  moreover have "k (last xs) < k r" if "r \<in> set ys" for r
  proof -
    have "k (last xs) \<le> k r" using assms(1) last that by (auto simp: sorted_append)
    moreover have "k ` set xs \<inter> k ` set ys = {}" using assms(2) by simp
    then have "k (last xs) \<noteq> k r" using imageI [OF last, of k] imageI [OF that, of k] by (metis disjoint_iff)
    ultimately show ?thesis by simp
  qed
  then have "filter (\<lambda>r. k (last xs) < k r) ys = ys" by (simp add: filter_id_conv)
  ultimately show ?thesis by simp
qed

lemma distinct_map_sort_key: "distinct (map k xs) \<Longrightarrow> distinct (map k (sort_key l xs))"
  by (metis mset_eq_imp_distinct_iff mset_map mset_sort)

lemma sort_key_map_same:
  assumes "\<And>x. k (f x) = k x"
  shows "sort_key k (map f xs) = map f (sort_key k xs)"
proof -
  have "insort_key k (f x) (map f ys) = map f (insort_key k x ys)" for x ys
    by (induction ys) (simp_all add: assms)
  then show ?thesis by (induction xs) (simp_all add: sort_key_def)
qed

section \<open>Search and scan\<close>

lemma takeWhile_stops: "x \<in> set xs \<Longrightarrow> \<not> P x \<Longrightarrow> length (takeWhile P xs) < length xs"
  by (induction xs) auto

end
