(* ===== verification/Errors.thy ===== *)
theory Errors
  imports Prelude
begin

text \<open>
  The exceptions of \<open>fronta/errors.py\<close> together with the Python, codec and driver
  exceptions the modelled code raises or handles. Message texts are not modelled: which
  class is raised is what callers branch on. \<open>isinstance\<close> tests of the code become
  the predicates below.
\<close>

datatype exn =
    ConfigurationError
  | PayloadTooLarge
  | ProgressTooLarge
  | InputValidationError
  | ResultSerializationError
  | NonRetryableError
  | UnknownTaskType
  | TaskNotFound
  | NotCancellable
  | InvalidInput
  | SandboxError
  | NotRequeueable
  | Unstorable
  | OverCap
  | ValueError
  | TypeError
  | KeyError
  | OverflowError
  | RecursionError
  | TimeoutError
  | RuntimeError
  | IndexError
  | AttributeError
  | OSError
  | ProcessLookupError
  | ValidationError
  | SchemaValidationError
  | UnicodeEncodeError
  | UnicodeDecodeError
  | UniqueViolation
  | OperationalError
  | PsycopgError
  | CancelledError
  | ImportError

fun is_fronta_error :: "exn \<Rightarrow> bool" where
  "is_fronta_error e \<longleftrightarrow> e \<in> {ConfigurationError, PayloadTooLarge, ProgressTooLarge,
     InputValidationError, ResultSerializationError, NonRetryableError, UnknownTaskType,
     TaskNotFound, NotCancellable, InvalidInput, SandboxError, NotRequeueable}"

fun is_value_error :: "exn \<Rightarrow> bool" where
  "is_value_error e \<longleftrightarrow> e \<in> {ValueError, InvalidInput, Unstorable, OverCap,
     UnicodeEncodeError, UnicodeDecodeError, ValidationError}"

end
