(* ===== verification/Json.thy ===== *)
theory Json
  imports Errors
begin

text \<open>
  JSON documents as the program handles them: Python floats with their non-finite values,
  the document tree a \<open>jsonb\<close> column holds, and dictionary access on objects. Objects
  keep their entries in insertion order, as Python dictionaries do.
\<close>

section \<open>Floats and scalars\<close>

datatype pyfloat = Fin rat | PosInf | NegInf | NaN

fun is_finite_float :: "pyfloat \<Rightarrow> bool" where
  "is_finite_float (Fin r) = True"
| "is_finite_float x = False"

section \<open>Documents\<close>

datatype json =
    JNull
  | JBool bool
  | JInt int
  | JFloat pyfloat
  | JStr ustr
  | JArr "json list"
  | JObj "(ustr \<times> json) list"

text \<open>\<open>d.get(k)\<close> and \<open>d[k]\<close> on an object's entries.\<close>

definition obj_get :: "(ustr \<times> json) list \<Rightarrow> ustr \<Rightarrow> json option" where
  "obj_get kvs k = map_of kvs k"

definition obj_item :: "(ustr \<times> json) list \<Rightarrow> ustr \<Rightarrow> exn + json" where
  "obj_item kvs k = (case map_of kvs k of None \<Rightarrow> Inl KeyError | Some v \<Rightarrow> Inr v)"

text \<open>\<open>d[k] = v\<close>: an existing key keeps its position, a new one is appended.\<close>

fun obj_set :: "(ustr \<times> json) list \<Rightarrow> ustr \<Rightarrow> json \<Rightarrow> (ustr \<times> json) list" where
  "obj_set [] k v = [(k, v)]"
| "obj_set ((k', v') # kvs) k v =
     (if k' = k then (k, v) # kvs else (k', v') # obj_set kvs k v)"

lemma map_of_obj_set: "map_of (obj_set kvs k v) = (map_of kvs)(k \<mapsto> v)"
  by (induction kvs k v rule: obj_set.induct) (auto simp: fun_eq_iff)

lemma keys_obj_set:
  "map fst (obj_set kvs k v) = (if k \<in> fst ` set kvs then map fst kvs else map fst kvs @ [k])"
  by (induction kvs k v rule: obj_set.induct) auto

lemma distinct_obj_set:
  "distinct (map fst kvs) \<Longrightarrow> distinct (map fst (obj_set kvs k v))"
  by (auto simp: keys_obj_set)

lemma set_obj_set: "set (obj_set kvs k v) \<subseteq> insert (k, v) (set kvs)"
  by (induction kvs k v rule: obj_set.induct) auto

end
