(* ===== verification/Utf8.thy ===== *)
theory Utf8
  imports Errors
begin

text \<open>
  UTF-8 as \<open>str.encode\<close> and \<open>bytes.decode\<close> apply it: the strict codec, the length every cap
  of the program counts, and the \<open>fronta_replace\<close> error handler of \<open>codec.py\<close>. Bytes are
  naturals below 256.
\<close>

section \<open>Code points\<close>

definition is_surrogate :: "nat \<Rightarrow> bool" where
  "is_surrogate cp \<longleftrightarrow> 0xD800 \<le> cp \<and> cp \<le> 0xDFFF"

text \<open>Every Python string is a sequence of code points up to \<open>U+10FFFF\<close>.\<close>

definition py_text :: "ustr \<Rightarrow> bool" where
  "py_text s \<longleftrightarrow> (\<forall>cp \<in> set s. cp < 0x110000)"

definition has_surrogate :: "ustr \<Rightarrow> bool" where
  "has_surrogate s \<longleftrightarrow> (\<exists>cp \<in> set s. is_surrogate cp)"

definition REPLACEMENT :: nat where "REPLACEMENT = 0xFFFD"

section \<open>Encoding\<close>

definition utf8_bytes :: "nat \<Rightarrow> nat list" where
  "utf8_bytes cp =
     (if cp < 0x80 then [cp]
      else if cp < 0x800 then [0xC0 + cp div 64, 0x80 + cp mod 64]
      else if cp < 0x10000 then [0xE0 + cp div 4096, 0x80 + cp div 64 mod 64, 0x80 + cp mod 64]
      else [0xF0 + cp div 262144, 0x80 + cp div 4096 mod 64, 0x80 + cp div 64 mod 64,
            0x80 + cp mod 64])"

definition utf8_encode :: "ustr \<Rightarrow> exn + nat list" where
  "utf8_encode s = (if has_surrogate s then Inl UnicodeEncodeError
     else Inr (concat (map utf8_bytes s)))"

text \<open>
  \<open>text.encode("utf-8", "fronta_replace")\<close>: the handler returns one encoded \<open>U+FFFD\<close> per
  code point of the offending run.
\<close>

definition utf8_encode_replace :: "ustr \<Rightarrow> nat list" where
  "utf8_encode_replace s =
     concat (map (\<lambda>cp. if is_surrogate cp then utf8_bytes REPLACEMENT else utf8_bytes cp) s)"

definition utf8_size :: "nat \<Rightarrow> nat" where
  "utf8_size cp = (if cp < 0x80 then 1 else if cp < 0x800 then 2 else if cp < 0x10000 then 3 else 4)"

definition utf8_len :: "ustr \<Rightarrow> nat" where
  "utf8_len s = length (concat (map utf8_bytes s))"

lemma length_utf8_bytes: "length (utf8_bytes cp) = utf8_size cp"
  by (simp add: utf8_bytes_def utf8_size_def)

lemma utf8_len_simps [simp]:
  "utf8_len [] = 0" "utf8_len (cp # s) = utf8_size cp + utf8_len s"
  "utf8_len (s @ t) = utf8_len s + utf8_len t"
  by (simp_all add: utf8_len_def length_utf8_bytes)

lemma utf8_size_bounds: "1 \<le> utf8_size cp" "utf8_size cp \<le> 4"
  by (simp_all add: utf8_size_def)

lemma utf8_len_bounds: "length s \<le> utf8_len s" "utf8_len s \<le> 4 * length s"
proof (induction s)
  case (Cons cp s)
  {
    case 1
    show ?case using Cons.IH(1) utf8_size_bounds(1)[of cp] by simp
  next
    case 2
    show ?case using Cons.IH(2) utf8_size_bounds(2)[of cp] by simp
  }
qed simp_all

section \<open>Strict decoding\<close>

definition cont :: "nat \<Rightarrow> bool" where
  "cont b \<longleftrightarrow> 0x80 \<le> b \<and> b < 0xC0"

fun utf8_decode :: "nat list \<Rightarrow> ustr option" where
  "utf8_decode [] = Some []"
| "utf8_decode (a # bs) =
     (if a < 0x80 then map_option (Cons a) (utf8_decode bs)
      else if 0xC2 \<le> a \<and> a < 0xE0 then
        (case bs of b # bs' \<Rightarrow>
           if cont b then map_option (Cons ((a - 0xC0) * 64 + (b - 0x80))) (utf8_decode bs') else None
         | _ \<Rightarrow> None)
      else if 0xE0 \<le> a \<and> a < 0xF0 then
        (case bs of b # c # bs' \<Rightarrow>
           if cont b \<and> cont c \<and> (a = 0xE0 \<longrightarrow> 0xA0 \<le> b) \<and> (a = 0xED \<longrightarrow> b < 0xA0)
           then map_option (Cons ((a - 0xE0) * 4096 + (b - 0x80) * 64 + (c - 0x80))) (utf8_decode bs')
           else None
         | _ \<Rightarrow> None)
      else if 0xF0 \<le> a \<and> a < 0xF5 then
        (case bs of b # c # e # bs' \<Rightarrow>
           if cont b \<and> cont c \<and> cont e \<and> (a = 0xF0 \<longrightarrow> 0x90 \<le> b) \<and> (a = 0xF4 \<longrightarrow> b < 0x90)
           then map_option (Cons ((a - 0xF0) * 262144 + (b - 0x80) * 4096 + (c - 0x80) * 64 + (e - 0x80)))
                  (utf8_decode bs')
           else None
         | _ \<Rightarrow> None)
      else None)"

declare utf8_decode.simps(2) [simp del]

lemma recompose2: "(cp::nat) div 64 * 64 + cp mod 64 = cp"
  by simp

lemma recompose3: "(cp::nat) div 4096 * 4096 + cp div 64 mod 64 * 64 + cp mod 64 = cp"
proof -
  have "cp div 4096 = cp div 64 div 64" by (simp add: div_mult2_eq [symmetric])
  moreover have "cp div 64 div 64 * 64 + cp div 64 mod 64 = cp div 64" by simp
  moreover have "cp div 64 * 64 + cp mod 64 = cp" by simp
  ultimately show ?thesis by linarith
qed

lemma recompose4:
  "(cp::nat) div 262144 * 262144 + cp div 4096 mod 64 * 4096 + cp div 64 mod 64 * 64 + cp mod 64 = cp"
proof -
  have "cp div 262144 = cp div 4096 div 64" by (simp add: div_mult2_eq [symmetric])
  moreover have "cp div 4096 div 64 * 64 + cp div 4096 mod 64 = cp div 4096" by simp
  moreover note recompose3[of cp]
  ultimately show ?thesis by linarith
qed

text \<open>The digits of a code point, bounded; what is left is linear arithmetic.\<close>

lemma digits3:
  obtains a b c where "cp = a * 4096 + b * 64 + c" "b < 64" "c < (64::nat)"
    "cp div 4096 = a" "cp div 64 mod 64 = b" "cp mod 64 = c"
  using recompose3[of cp] by (metis mod_less_divisor zero_less_numeral)

lemma digits4:
  obtains a b c e where "cp = a * 262144 + b * 4096 + c * 64 + e" "b < 64" "c < 64" "e < (64::nat)"
    "cp div 262144 = a" "cp div 4096 mod 64 = b" "cp div 64 mod 64 = c" "cp mod 64 = e"
  using recompose4[of cp] by (metis mod_less_divisor zero_less_numeral)

text \<open>Strict decoding undoes strict encoding, one code point at a time.\<close>

lemma decode_utf8_bytes:
  assumes "cp < 0x110000" "\<not> is_surrogate cp"
  shows "utf8_decode (utf8_bytes cp @ rest) = map_option (Cons cp) (utf8_decode rest)"
proof -
  consider "cp < 0x80" | "0x80 \<le> cp" "cp < 0x800" | "0x800 \<le> cp" "cp < 0x10000"
    | "0x10000 \<le> cp" by linarith
  then show ?thesis
  proof cases
    case 1
    then show ?thesis by (simp add: utf8_bytes_def utf8_decode.simps(2))
  next
    case 2
    then have "2 \<le> cp div 64" "cp div 64 < 32" by auto
    with 2 show ?thesis
      by (simp add: utf8_bytes_def utf8_decode.simps(2) cont_def recompose2)
  next
    case 3
    obtain a b c where d: "cp = a * 4096 + b * 64 + c" "b < 64" "c < 64"
      "cp div 4096 = a" "cp div 64 mod 64 = b" "cp mod 64 = c" by (rule digits3)
    have "a < 16" "a = 0 \<Longrightarrow> 32 \<le> b" using 3 d(1-3) by linarith+
    moreover have "a = 13 \<Longrightarrow> b < 32"
      using assms(2) d(1-3) unfolding is_surrogate_def by linarith
    ultimately show ?thesis
      using 3 d by (simp add: utf8_bytes_def utf8_decode.simps(2) cont_def)
  next
    case 4
    obtain a b c e where d: "cp = a * 262144 + b * 4096 + c * 64 + e" "b < 64" "c < 64" "e < 64"
      "cp div 262144 = a" "cp div 4096 mod 64 = b" "cp div 64 mod 64 = c" "cp mod 64 = e"
      by (rule digits4)
    have "a < 5" "a = 0 \<Longrightarrow> 16 \<le> b" "a = 4 \<Longrightarrow> b < 16"
      using 4 assms(1) d(1-4) by linarith+
    then show ?thesis
      using 4 d by (simp add: utf8_bytes_def utf8_decode.simps(2) cont_def)
  qed
qed

lemma decode_encoded:
  assumes "py_text s" "\<not> has_surrogate s"
  shows "utf8_decode (concat (map utf8_bytes s)) = Some s"
  using assms
proof (induction s)
  case (Cons cp s)
  then show ?case
    using decode_utf8_bytes[of cp "concat (map utf8_bytes s)"]
    by (simp add: py_text_def has_surrogate_def)
qed simp

lemma utf8_roundtrip_aux: "py_text s \<Longrightarrow> utf8_encode s = Inr bs \<Longrightarrow> utf8_decode bs = Some s"
  by (auto simp: utf8_encode_def decode_encoded split: if_splits)

lemma decode_encode_replace:
  assumes "py_text s"
  shows "utf8_decode (utf8_encode_replace s)
    = Some (map (\<lambda>cp. if is_surrogate cp then REPLACEMENT else cp) s)"
proof -
  let ?t = "map (\<lambda>cp. if is_surrogate cp then REPLACEMENT else cp) s"
  have "utf8_encode_replace s = concat (map utf8_bytes ?t)"
    by (auto simp: utf8_encode_replace_def intro!: arg_cong[where f = concat])
  moreover have "py_text ?t" "\<not> has_surrogate ?t"
    using assms by (auto simp: py_text_def has_surrogate_def REPLACEMENT_def is_surrogate_def)
  ultimately show ?thesis using decode_encoded [of ?t] by simp
qed

end
