(* ===== verification/Codec.thy ===== *)
theory Codec
  imports Json Utf8
begin

text \<open>
  \<open>fronta/codec.py\<close>: JSON encoding with byte caps and the shaping of error metadata.

  A value to encode is a Python object graph: containers live in a heap and are reached by
  reference, so sharing and cycles are what they are in the program, and \<open>id(value)\<close> is the
  reference. \<open>check_value\<close> is \<open>_check\<close>; \<open>dump_tree\<close> is the walk of \<open>json.dumps\<close>,
  whose recursion budget \<open>MAX_DEPTH\<close> is shown to be enough once the check has passed, and
  \<open>render\<close> its output. The shortest decimal text of a float is the interpreter's and is the
  parameter \<open>fr\<close>; \<open>str()\<close> of a non-text value is the parameter \<open>ps\<close>.
\<close>

section \<open>Python values\<close>

datatype pyval =
    PyNone
  | PyBool bool
  | PyInt int
  | PyFloat pyfloat
  | PyStr ustr
  | PyRef nat
  | PyOther

datatype pycell =
    PyDict "(pyval \<times> pyval) list"
  | PyList "pyval list"
  | PyTuple "pyval list"

type_synonym heap = "nat \<Rightarrow> pycell option"

definition MAX_DEPTH :: nat where "MAX_DEPTH = 200"

section \<open>Storable text\<close>

definition storable :: "ustr \<Rightarrow> bool" where
  "storable s \<longleftrightarrow> 0 \<notin> set s \<and> \<not> has_surrogate s"

definition check_text :: "ustr \<Rightarrow> exn + unit" where
  "check_text s = (if 0 \<in> set s then Inl Unstorable
     else case utf8_encode s of Inl _ \<Rightarrow> Inl Unstorable | Inr _ \<Rightarrow> Inr ())"

lemma check_text_iff: "check_text s = Inr () \<longleftrightarrow> storable s"
  by (auto simp: check_text_def storable_def utf8_encode_def)

lemma check_text_Inl: "check_text s = Inl e \<longleftrightarrow> \<not> storable s \<and> e = Unstorable"
  by (auto simp: check_text_def storable_def utf8_encode_def)

lemma storable_simps [simp]:
  "storable []" "storable (c # s) \<longleftrightarrow> c \<noteq> 0 \<and> \<not> is_surrogate c \<and> storable s"
  "storable (s @ t) \<longleftrightarrow> storable s \<and> storable t"
  by (auto simp: storable_def has_surrogate_def)

lemma storable_subset: "set s \<subseteq> set t \<Longrightarrow> storable t \<Longrightarrow> storable s"
  by (auto simp: storable_def has_surrogate_def)

lemma storable_take: "storable t \<Longrightarrow> storable (take n t)"
  by (rule storable_subset [OF set_take_subset])

lemma storable_drop: "storable t \<Longrightarrow> storable (drop n t)"
  by (rule storable_subset [OF set_drop_subset])

section \<open>The storability check\<close>

function check_value :: "heap \<Rightarrow> pyval \<Rightarrow> nat \<Rightarrow> nat set \<Rightarrow> exn + unit" where
  "check_value h v depth path =
     (case v of
        PyStr s \<Rightarrow> check_text s
      | PyRef a \<Rightarrow>
          (case h a of
             None \<Rightarrow> Inr ()
           | Some cell \<Rightarrow>
               if depth \<ge> MAX_DEPTH then Inl Unstorable
               else if a \<in> path then Inl Unstorable
               else (case cell of
                   PyDict kvs \<Rightarrow>
                     each (\<lambda>(k, item). case k of
                         PyStr s \<Rightarrow> bind_result (check_text s)
                           (\<lambda>_. check_value h item (depth + 1) (insert a path))
                       | _ \<Rightarrow> Inl TypeError) kvs
                 | PyList xs \<Rightarrow> each (\<lambda>x. check_value h x (depth + 1) (insert a path)) xs
                 | PyTuple xs \<Rightarrow> each (\<lambda>x. check_value h x (depth + 1) (insert a path)) xs))
      | _ \<Rightarrow> Inr ())"
  by pat_completeness auto
termination
  by (relation "measure (\<lambda>(h, v, depth, path). MAX_DEPTH - depth)") auto

declare check_value.simps [simp del]

section \<open>The walk of json.dumps\<close>

fun dump_tree :: "nat \<Rightarrow> heap \<Rightarrow> pyval \<Rightarrow> exn + json" where
  "dump_tree n h PyNone = Inr JNull"
| "dump_tree n h (PyBool b) = Inr (JBool b)"
| "dump_tree n h (PyInt i) = Inr (JInt i)"
| "dump_tree n h (PyFloat x) = Inr (JFloat x)"
| "dump_tree n h (PyStr s) = Inr (JStr s)"
| "dump_tree n h PyOther = Inl TypeError"
| "dump_tree 0 h (PyRef a) = (if h a = None then Inl TypeError else Inl RecursionError)"
| "dump_tree (Suc n) h (PyRef a) =
     (case h a of
        None \<Rightarrow> Inl TypeError
      | Some (PyDict kvs) \<Rightarrow>
          map_sum id JObj (collect (\<lambda>(k, item). case k of
              PyStr s \<Rightarrow> map_sum id (Pair s) (dump_tree n h item)
            | _ \<Rightarrow> Inl TypeError) kvs)
      | Some (PyList xs) \<Rightarrow> map_sum id JArr (collect (dump_tree n h) xs)
      | Some (PyTuple xs) \<Rightarrow> map_sum id JArr (collect (dump_tree n h) xs))"

section \<open>Rendering\<close>

fun dec_nat :: "nat \<Rightarrow> ustr" where
  "dec_nat n = (if n < 10 then [48 + n] else dec_nat (n div 10) @ [48 + n mod 10])"

declare dec_nat.simps [simp del]

definition dec_int :: "int \<Rightarrow> ustr" where
  "dec_int i = (if i < 0 then 45 # dec_nat (nat (- i)) else dec_nat (nat i))"

definition hex_digit :: "nat \<Rightarrow> nat" where
  "hex_digit n = (if n < 10 then 48 + n else 87 + n)"

text \<open>The encoder's escapes with \<open>ensure_ascii=False\<close>: quote, backslash and C0 controls.\<close>

definition escape_cp :: "nat \<Rightarrow> ustr" where
  "escape_cp cp =
     (if cp = 34 then [92, 34] else if cp = 92 then [92, 92]
      else if cp = 8 then [92, 98] else if cp = 12 then [92, 102] else if cp = 10 then [92, 110]
      else if cp = 13 then [92, 114] else if cp = 9 then [92, 116]
      else if cp < 32 then [92, 117, 48, 48, hex_digit (cp div 16), hex_digit (cp mod 16)]
      else [cp])"

definition quote :: "ustr \<Rightarrow> ustr" where
  "quote s = 34 # concat (map escape_cp s) @ [34]"

fun commas :: "ustr list \<Rightarrow> ustr" where
  "commas [] = []"
| "commas [x] = x"
| "commas (x # xs) = x @ 44 # commas xs"

fun render :: "(rat \<Rightarrow> ustr) \<Rightarrow> json \<Rightarrow> exn + ustr" where
  "render fr JNull = Inr (lit ''null'')"
| "render fr (JBool b) = Inr (if b then lit ''true'' else lit ''false'')"
| "render fr (JInt i) = Inr (dec_int i)"
| "render fr (JFloat (Fin r)) = Inr (fr r)"
| "render fr (JFloat x) = Inl ValueError"
| "render fr (JStr s) = Inr (quote s)"
| "render fr (JArr xs) = map_sum id (\<lambda>ts. 91 # commas ts @ [93]) (collect (render fr) xs)"
| "render fr (JObj kvs) =
     map_sum id (\<lambda>ts. 123 # commas ts @ [125])
       (collect (\<lambda>kv. map_sum id (\<lambda>t. quote (fst kv) @ 58 # t) (render fr (snd kv))) kvs)"

definition encode :: "(rat \<Rightarrow> ustr) \<Rightarrow> heap \<Rightarrow> pyval \<Rightarrow> exn + ustr" where
  "encode fr h v =
     bind_result (check_value h v 0 {}) (\<lambda>_.
       case bind_result (dump_tree MAX_DEPTH h v) (render fr) of
         Inl e \<Rightarrow> Inl (if is_value_error e then Unstorable else e)
       | Inr s \<Rightarrow> Inr s)"

definition encode_capped :: "(rat \<Rightarrow> ustr) \<Rightarrow> heap \<Rightarrow> pyval \<Rightarrow> int \<Rightarrow> exn + ustr" where
  "encode_capped fr h v cap =
     bind_result (encode fr h v) (\<lambda>text.
       if int (utf8_len text) > cap then Inl OverCap else Inr text)"

definition sanitize :: "ustr \<Rightarrow> ustr" where
  "sanitize text =
     (let text = map (\<lambda>cp. if cp = 0 then REPLACEMENT else cp) text
      in case utf8_encode text of
           Inr _ \<Rightarrow> text
         | Inl _ \<Rightarrow> (case utf8_decode (utf8_encode_replace text) of Some t \<Rightarrow> t | None \<Rightarrow> text))"

section \<open>What the check promises about the dumped tree\<close>

fun tree_storable :: "json \<Rightarrow> bool" where
  "tree_storable (JStr s) = storable s"
| "tree_storable (JArr xs) = (\<forall>x \<in> set xs. tree_storable x)"
| "tree_storable (JObj kvs) = (\<forall>kv \<in> set kvs. storable (fst kv) \<and> tree_storable (snd kv))"
| "tree_storable v = True"

fun tree_depth :: "json \<Rightarrow> nat" where
  "tree_depth (JArr xs) = Suc (foldr max (map tree_depth xs) 0)"
| "tree_depth (JObj kvs) = Suc (foldr max (map (\<lambda>kv. tree_depth (snd kv)) kvs) 0)"
| "tree_depth v = 0"

definition dumped_ok :: "nat \<Rightarrow> exn + json \<Rightarrow> bool" where
  "dumped_ok n m \<longleftrightarrow> (case m of Inr t \<Rightarrow> tree_storable t \<and> tree_depth t \<le> n | Inl e \<Rightarrow> e = TypeError)"

lemma foldr_max_le: "foldr max (map f xs) (0::nat) \<le> n \<longleftrightarrow> (\<forall>x \<in> set xs. f x \<le> n)"
  by (induction xs) auto

lemma collect_dumped_ok:
  assumes "\<And>x. x \<in> set xs \<Longrightarrow> case f x of Inr y \<Rightarrow> P y | Inl e \<Rightarrow> e = TypeError"
  shows "case collect f xs of Inr ys \<Rightarrow> (\<forall>y \<in> set ys. P y) | Inl e \<Rightarrow> e = TypeError"
  using assms
proof (induction xs)
  case (Cons x xs)
  have x: "case f x of Inr y \<Rightarrow> P y | Inl e \<Rightarrow> e = TypeError" by (rule Cons.prems) simp
  have xs: "case collect f xs of Inr ys \<Rightarrow> (\<forall>y \<in> set ys. P y) | Inl e \<Rightarrow> e = TypeError"
    by (rule Cons.IH) (simp add: Cons.prems)
  from x xs show ?case by (cases "f x"; cases "collect f xs") auto
qed simp

lemma dumped_ok_list:
  assumes "\<And>x. x \<in> set xs \<Longrightarrow> dumped_ok n (dump_tree n h x)"
  shows "dumped_ok (Suc n) (map_sum id JArr (collect (dump_tree n h) xs))"
proof -
  have "case collect (dump_tree n h) xs of
      Inr ys \<Rightarrow> (\<forall>y \<in> set ys. tree_storable y \<and> tree_depth y \<le> n) | Inl e \<Rightarrow> e = TypeError"
    by (rule collect_dumped_ok) (use assms in \<open>simp add: dumped_ok_def\<close>)
  then show ?thesis
    by (cases "collect (dump_tree n h) xs") (auto simp: dumped_ok_def foldr_max_le)
qed

lemma dumped_ok_dict:
  assumes "\<And>k v. (k, v) \<in> set kvs \<Longrightarrow> \<exists>s. k = PyStr s \<and> storable s \<and> dumped_ok n (dump_tree n h v)"
  shows "dumped_ok (Suc n) (map_sum id JObj (collect (\<lambda>(k, item). case k of
      PyStr s \<Rightarrow> map_sum id (Pair s) (dump_tree n h item) | _ \<Rightarrow> Inl TypeError) kvs))"
    (is "dumped_ok _ (map_sum id JObj (collect ?f kvs))")
proof -
  have "case collect ?f kvs of
      Inr ys \<Rightarrow> (\<forall>y \<in> set ys. storable (fst y) \<and> tree_storable (snd y) \<and> tree_depth (snd y) \<le> n)
    | Inl e \<Rightarrow> e = TypeError"
  proof (rule collect_dumped_ok)
    fix x assume "x \<in> set kvs"
    moreover obtain k v where x: "x = (k, v)" by (cases x)
    ultimately obtain s where "k = PyStr s" "storable s" "dumped_ok n (dump_tree n h v)"
      using assms[of k v] by auto
    then show "case ?f x of
        Inr y \<Rightarrow> storable (fst y) \<and> tree_storable (snd y) \<and> tree_depth (snd y) \<le> n
      | Inl e \<Rightarrow> e = TypeError"
      by (cases "dump_tree n h v") (auto simp: x dumped_ok_def)
  qed
  then show ?thesis
    by (cases "collect ?f kvs") (auto simp: dumped_ok_def foldr_max_le)
qed

lemma each_list_Inr: "each f xs = Inr () \<Longrightarrow> x \<in> set xs \<Longrightarrow> f x = Inr ()"
  by (simp add: each_Inr_iff)

text \<open>
  A checked value is walked within the recursion budget that its depth leaves, and every text
  in the resulting tree is storable.
\<close>

lemma check_value_dumps:
  "check_value h v depth path = Inr () \<Longrightarrow> depth + n = MAX_DEPTH \<Longrightarrow> dumped_ok n (dump_tree n h v)"
proof (induction h v depth path arbitrary: n rule: check_value.induct)
  case (1 h v depth path)
  show ?case
  proof (cases v)
    case (PyStr s)
    with "1.prems"(1) show ?thesis
      by (simp add: check_value.simps[of h "PyStr s"] check_text_iff dumped_ok_def)
  next
    case v: (PyRef a)
    show ?thesis
    proof (cases "h a")
      case None
      with v show ?thesis by (cases n) (simp_all add: dumped_ok_def)
    next
      case (Some cell)
      with v "1.prems"(1) have ok: "depth < MAX_DEPTH" "a \<notin> path"
        by (auto simp: check_value.simps[of h "PyRef a"] not_le split: if_splits)
      with "1.prems"(2) obtain m where n: "n = Suc m" and m: "depth + 1 + m = MAX_DEPTH"
        by (cases n) auto
      note guard = v Some ok(1)[folded not_le] ok(2)
      show ?thesis
      proof (cases cell)
        case (PyDict kvs)
        have "\<exists>s. k = PyStr s \<and> storable s \<and> dumped_ok m (dump_tree m h item)"
          if "(k, item) \<in> set kvs" for k item
        proof -
          have "each (\<lambda>(k, item). case k of
                PyStr s \<Rightarrow> bind_result (check_text s)
                  (\<lambda>_. check_value h item (depth + 1) (insert a path))
              | _ \<Rightarrow> Inl TypeError) kvs = Inr ()"
            using "1.prems"(1) guard PyDict by (simp add: check_value.simps[of h "PyRef a"])
          from each_list_Inr[OF this that]
          obtain s where s: "k = PyStr s" "check_text s = Inr ()"
            "check_value h item (depth + 1) (insert a path) = Inr ()"
            by (auto simp: bind_result_Inr_iff split: pyval.splits)
          have "dumped_ok m (dump_tree m h item)"
            using "1.IH"(1)[OF v Some _ _ PyDict that] s ok m by (auto simp: not_le)
          with s show ?thesis by (simp add: check_text_iff)
        qed
        with v n Some PyDict show ?thesis by (simp add: dumped_ok_dict)
      next
        case (PyList xs)
        have "dumped_ok m (dump_tree m h x)" if "x \<in> set xs" for x
        proof -
          have "check_value h x (depth + 1) (insert a path) = Inr ()"
            using "1.prems"(1) guard PyList each_list_Inr[OF _ that]
            by (simp add: check_value.simps[of h "PyRef a"])
          then show ?thesis
            using "1.IH"(2)[OF v Some _ _ PyList that] ok m by (auto simp: not_le)
        qed
        with v n Some PyList show ?thesis by (simp add: dumped_ok_list)
      next
        case (PyTuple xs)
        have "dumped_ok m (dump_tree m h x)" if "x \<in> set xs" for x
        proof -
          have "check_value h x (depth + 1) (insert a path) = Inr ()"
            using "1.prems"(1) guard PyTuple each_list_Inr[OF _ that]
            by (simp add: check_value.simps[of h "PyRef a"])
          then show ?thesis
            using "1.IH"(3)[OF v Some _ _ PyTuple that] ok m by (auto simp: not_le)
        qed
        with v n Some PyTuple show ?thesis by (simp add: dumped_ok_list)
      qed
    qed
  qed (simp_all add: dumped_ok_def)
qed

section \<open>Encoded text is storable\<close>

lemma storable_iff: "storable s \<longleftrightarrow> (\<forall>c \<in> set s. c \<noteq> 0 \<and> \<not> is_surrogate c)"
  unfolding storable_def has_surrogate_def by (metis (no_types))

lemma dec_nat_digits: "c \<in> set (dec_nat n) \<Longrightarrow> 48 \<le> c \<and> c \<le> 57"
proof (induction n rule: dec_nat.induct)
  case (1 n)
  show ?case
  proof (cases "n < 10")
    case True
    then show ?thesis using 1(2) by (simp add: dec_nat.simps[of n])
  next
    case False
    then show ?thesis using 1 by (auto simp: dec_nat.simps[of n])
  qed
qed

lemma storable_dec_int: "storable (dec_int i)"
proof -
  have "storable (dec_nat n)" for n
    unfolding storable_iff is_surrogate_def by (auto dest!: dec_nat_digits)
  then show ?thesis by (simp add: dec_int_def is_surrogate_def)
qed

lemma storable_escape_cp: "cp \<noteq> 0 \<Longrightarrow> \<not> is_surrogate cp \<Longrightarrow> storable (escape_cp cp)"
  by (auto simp: escape_cp_def hex_digit_def is_surrogate_def)

lemma storable_concat: "(\<And>x. x \<in> set xs \<Longrightarrow> storable x) \<Longrightarrow> storable (concat xs)"
  by (induction xs) auto

lemma storable_quote: "storable s \<Longrightarrow> storable (quote s)"
proof -
  assume s: "storable s"
  have "storable (escape_cp c)" if "c \<in> set s" for c
    using s that by (intro storable_escape_cp) (auto simp: storable_iff)
  then have "storable (concat (map escape_cp s))" by (auto intro!: storable_concat)
  then show ?thesis by (simp add: quote_def is_surrogate_def)
qed

lemma storable_commas: "(\<And>x. x \<in> set xs \<Longrightarrow> storable x) \<Longrightarrow> storable (commas xs)"
  by (induction xs rule: commas.induct) (auto simp: is_surrogate_def)

lemma list_all2_range:
  "list_all2 P xs ys \<Longrightarrow> y \<in> set ys \<Longrightarrow> \<exists>x \<in> set xs. P x y"
  by (metis in_set_conv_nth list_all2_conv_all_nth)

lemma render_storable:
  "(\<And>r. storable (fr r)) \<Longrightarrow> tree_storable t \<Longrightarrow> render fr t = Inr s \<Longrightarrow> storable s"
proof (induction t arbitrary: s rule: render.induct)
  case (7 fr xs)
  then obtain ts where ts: "list_all2 (\<lambda>x y. render fr x = Inr y) xs ts"
    and s: "s = 91 # commas ts @ [93]"
    by (auto simp: map_sum_def collect_Inr_iff split: sum.splits)
  have "storable y" if "y \<in> set ts" for y
    using list_all2_range[OF ts that] "7.IH" "7.prems" by auto
  then show ?case by (simp add: s is_surrogate_def storable_commas)
next
  case (8 fr kvs)
  then obtain ts where
    ts: "list_all2 (\<lambda>kv y. map_sum id (\<lambda>t. quote (fst kv) @ 58 # t) (render fr (snd kv)) = Inr y) kvs ts"
    and s: "s = 123 # commas ts @ [125]"
    by (auto simp: map_sum_def collect_Inr_iff split: sum.splits)
  have "storable y" if y: "y \<in> set ts" for y
  proof -
    obtain kv where kv: "kv \<in> set kvs"
      and "map_sum id (\<lambda>t. quote (fst kv) @ 58 # t) (render fr (snd kv)) = Inr y"
      using list_all2_range[OF ts y] by blast
    then obtain t where t: "render fr (snd kv) = Inr t" "y = quote (fst kv) @ 58 # t"
      by (cases "render fr (snd kv)") auto
    have "storable t" using "8.IH"[OF kv] "8.prems" kv t by auto
    then show ?thesis using kv t "8.prems"(2) by (simp add: storable_quote is_surrogate_def)
  qed
  then show ?case by (simp add: s is_surrogate_def storable_commas)
qed (auto simp: storable_dec_int storable_quote is_surrogate_def split: if_splits)

lemma render_Inl: "render fr t = Inl e \<Longrightarrow> e = ValueError"
proof -
  have coll: "collect f xs = Inl e \<Longrightarrow> (\<exists>x \<in> set xs. f x = Inl e)"
    for f :: "'x \<Rightarrow> exn + 'y" and xs e
  proof (induction xs)
    case (Cons x xs)
    then show ?case by (cases "f x"; cases "collect f xs") auto
  qed simp
  show "render fr t = Inl e \<Longrightarrow> e = ValueError"
    by (induction t arbitrary: e rule: render.induct)
      (fastforce simp: map_sum_def split: sum.splits dest!: coll)+
qed

lemma encode_InrD:
  assumes "encode fr h v = Inr s"
  obtains t where "check_value h v 0 {} = Inr ()" "dump_tree MAX_DEPTH h v = Inr t"
    "tree_storable t" "tree_depth t \<le> MAX_DEPTH" "render fr t = Inr s"
proof -
  from assms have c: "check_value h v 0 {} = Inr ()"
    by (auto simp: encode_def bind_result_Inr_iff)
  moreover from assms c obtain t where "dump_tree MAX_DEPTH h v = Inr t" "render fr t = Inr s"
    by (auto simp: encode_def bind_result_Inr_iff split: sum.splits)
  moreover have "dumped_ok MAX_DEPTH (dump_tree MAX_DEPTH h v)"
    by (rule check_value_dumps[OF c]) simp
  ultimately show ?thesis using that by (simp add: dumped_ok_def)
qed

lemma encode_storable_aux:
  "encode fr h v = Inr s \<Longrightarrow> (\<And>r. storable (fr r)) \<Longrightarrow> storable s"
  by (elim encode_InrD) (rule render_storable)

lemma each_Inl: "each f xs = Inl e \<Longrightarrow> \<exists>x \<in> set xs. f x = Inl e"
proof (induction xs)
  case (Cons x xs)
  then show ?case by (cases "f x") auto
qed simp

lemma bind_result_Inl:
  "bind_result m f = Inl e \<Longrightarrow> m = Inl e \<or> (\<exists>x. m = Inr x \<and> f x = Inl e)"
  by (cases m) auto

lemma check_value_Inl:
  "check_value h v depth path = Inl e \<Longrightarrow> e = Unstorable \<or> e = TypeError"
proof (induction "MAX_DEPTH - depth" arbitrary: v depth path rule: less_induct)
  case less
  have IH: "e = Unstorable \<or> e = TypeError"
    if "check_value h x (Suc depth) p = Inl e" "\<not> MAX_DEPTH \<le> depth" for x p
    using less.hyps[of "Suc depth" x p] that by auto
  from less.prems show ?case
    by (subst (asm) check_value.simps)
      (auto simp: check_text_Inl
        split: pyval.splits option.splits if_splits pycell.splits
        dest!: each_Inl bind_result_Inl IH)
qed

lemma encode_Inl_aux: "encode fr h v = Inl e \<Longrightarrow> e = Unstorable \<or> e = TypeError"
proof -
  assume e: "encode fr h v = Inl e"
  show ?thesis
  proof (cases "check_value h v 0 {}")
    case (Inl x)
    then show ?thesis using e check_value_Inl[OF Inl] by (simp add: encode_def)
  next
    case (Inr u)
    have "dumped_ok MAX_DEPTH (dump_tree MAX_DEPTH h v)"
      using check_value_dumps[of h v 0 "{}" MAX_DEPTH] Inr by simp
    then show ?thesis
      using e Inr by (cases "dump_tree MAX_DEPTH h v")
        (auto simp: encode_def dumped_ok_def split: sum.splits dest: render_Inl)
  qed
qed

section \<open>Sanitizing\<close>

lemma sanitize_eq:
  assumes "py_text s"
  shows "sanitize s = map (\<lambda>cp. if cp = 0 \<or> is_surrogate cp then REPLACEMENT else cp) s"
proof -
  let ?t = "map (\<lambda>cp. if cp = 0 then REPLACEMENT else cp) s"
  have t: "py_text ?t" using assms by (auto simp: py_text_def REPLACEMENT_def)
  show ?thesis
  proof (cases "has_surrogate ?t")
    case True
    then have "sanitize s = map (\<lambda>cp. if is_surrogate cp then REPLACEMENT else cp) ?t"
      using decode_encode_replace[OF t] by (simp add: sanitize_def utf8_encode_def)
    then show ?thesis by (auto simp: REPLACEMENT_def is_surrogate_def)
  next
    case False
    then have "sanitize s = ?t" by (simp add: sanitize_def utf8_encode_def)
    also have "\<dots> = map (\<lambda>cp. if cp = 0 \<or> is_surrogate cp then REPLACEMENT else cp) s"
      using False by (auto simp: has_surrogate_def)
    finally show ?thesis .
  qed
qed

lemma storable_sanitize: "py_text s \<Longrightarrow> storable (sanitize s)"
  by (auto simp: sanitize_eq storable_iff REPLACEMENT_def is_surrogate_def)

lemma sanitize_storable: "py_text s \<Longrightarrow> storable s \<Longrightarrow> sanitize s = s"
  by (auto simp: sanitize_eq storable_iff intro!: map_idI)

end
