(* ===== verification/Truncate.thy ===== *)
theory Truncate
  imports Codec
begin

text \<open>
  Error metadata of \<open>codec.py\<close>: \<open>error_metadata\<close> and \<open>truncate\<close>. The dictionaries here
  are fresh and flat, so they are encoded as document trees: \<open>encode_tree\<close> is \<open>encode\<close> on a
  tree. The loop of \<open>truncate\<close> halves the longest text field until the encoding fits; the
  total length of the text fields is its measure.
\<close>

section \<open>Encoding a fresh document\<close>

function check_tree :: "json \<Rightarrow> nat \<Rightarrow> exn + unit" where
  "check_tree v depth =
     (case v of
        JStr s \<Rightarrow> check_text s
      | JObj kvs \<Rightarrow> if depth \<ge> MAX_DEPTH then Inl Unstorable
          else each (\<lambda>(k, item). bind_result (check_text k) (\<lambda>_. check_tree item (depth + 1))) kvs
      | JArr xs \<Rightarrow> if depth \<ge> MAX_DEPTH then Inl Unstorable
          else each (\<lambda>x. check_tree x (depth + 1)) xs
      | _ \<Rightarrow> Inr ())"
  by pat_completeness auto
termination
  by (relation "measure (\<lambda>(v, depth). MAX_DEPTH - depth)") auto

declare check_tree.simps [simp del]

definition encode_tree :: "(rat \<Rightarrow> ustr) \<Rightarrow> json \<Rightarrow> exn + ustr" where
  "encode_tree fr v =
     bind_result (check_tree v 0) (\<lambda>_.
       case render fr v of Inl e \<Rightarrow> Inl Unstorable | Inr s \<Rightarrow> Inr s)"

lemma foldr_max_member: "x \<in> set xs \<Longrightarrow> f x \<le> foldr max (map f xs) (0::nat)"
  using foldr_max_le [of f xs "foldr max (map f xs) 0"] by blast

lemma check_tree_Inr:
  "tree_storable v \<Longrightarrow> tree_depth v + depth \<le> MAX_DEPTH \<Longrightarrow> check_tree v depth = Inr ()"
proof (induction v depth rule: check_tree.induct)
  case (1 v depth)
  show ?case
  proof (cases v)
    case (JObj kvs)
    then have room: "\<not> MAX_DEPTH \<le> depth" using "1.prems"(2) by simp
    have "check_text k = Inr () \<and> check_tree item (depth + 1) = Inr ()"
      if kv: "(k, item) \<in> set kvs" for k item
    proof -
      have "storable k" "tree_storable item" using "1.prems"(1) JObj kv by auto
      moreover have "tree_depth item + (depth + 1) \<le> MAX_DEPTH"
        using "1.prems"(2) JObj foldr_max_member[OF kv, of "\<lambda>kv. tree_depth (snd kv)"] by simp
      ultimately show ?thesis
        using "1.IH"(2)[OF JObj room kv] by (simp add: check_text_iff)
    qed
    then have "each (\<lambda>(k, item). bind_result (check_text k) (\<lambda>_. check_tree item (depth + 1))) kvs
        = Inr ()"
      by (auto simp: each_Inr_iff)
    with JObj room show ?thesis by (simp add: check_tree.simps[of "JObj kvs"])
  next
    case (JArr xs)
    then have room: "\<not> MAX_DEPTH \<le> depth" using "1.prems"(2) by simp
    have "check_tree x (depth + 1) = Inr ()" if x: "x \<in> set xs" for x
    proof -
      have "tree_storable x" using "1.prems"(1) JArr x by simp
      moreover have "tree_depth x + (depth + 1) \<le> MAX_DEPTH"
        using "1.prems"(2) JArr foldr_max_member[OF x, of tree_depth] by simp
      ultimately show ?thesis using "1.IH"(1)[OF JArr room x] by simp
    qed
    then have "each (\<lambda>x. check_tree x (depth + 1)) xs = Inr ()" by (simp add: each_Inr_iff)
    with JArr room show ?thesis by (simp add: check_tree.simps[of "JArr xs"])
  next
    case (JStr s)
    with "1.prems"(1) show ?thesis by (simp add: check_tree.simps[of "JStr s"] check_text_iff)
  qed (simp_all add: check_tree.simps)
qed

text \<open>The two encoders agree: what \<open>encode\<close> returns is the encoding of the dumped tree.\<close>

lemma encode_is_encode_tree:
  "encode fr h v = Inr s \<Longrightarrow> \<exists>t. dump_tree MAX_DEPTH h v = Inr t \<and> encode_tree fr t = Inr s"
  by (elim encode_InrD) (auto simp: encode_tree_def check_tree_Inr)

section \<open>Truncation\<close>

definition text_of :: "json \<Rightarrow> ustr" where
  "text_of v = (case v of JStr s \<Rightarrow> s | _ \<Rightarrow> [])"

text \<open>
  \<open>max(\<dots>, key=len, default=(None, ""))\<close> over the non-empty text fields: the position of the
  first longest one. Assigning \<open>data[name]\<close> updates that position, keys being unique.
\<close>

definition longest_field :: "(ustr \<times> json) list \<Rightarrow> nat option" where
  "longest_field kvs =
     (let lens = map (\<lambda>kv. length (text_of (snd kv))) kvs; m = foldr max lens 0
      in if m = 0 then None else Some (length (takeWhile (\<lambda>n. n < m) lens)))"

definition halve :: "bool \<Rightarrow> ustr \<Rightarrow> ustr" where
  "halve tail text =
     (let keep = length text div 2
      in if keep = 0 then [] else if tail then drop (length text - keep) text else take keep text)"

definition text_size :: "(ustr \<times> json) list \<Rightarrow> nat" where
  "text_size kvs = sum_list (map (\<lambda>kv. length (text_of (snd kv))) kvs)"

lemma longest_field_SomeD:
  assumes "longest_field kvs = Some i"
  shows "i < length kvs" "0 < length (text_of (snd (kvs ! i)))"
proof -
  let ?lens = "map (\<lambda>kv. length (text_of (snd kv))) kvs"
  let ?m = "foldr max ?lens 0"
  from assms have m: "?m \<noteq> 0" and i: "i = length (takeWhile (\<lambda>n. n < ?m) ?lens)"
    by (auto simp: longest_field_def Let_def split: if_splits)
  have "?m \<in> set ?lens"
    using m by (induction kvs) (auto simp: max_def split: if_splits)
  then have i': "i < length ?lens"
    unfolding i by (intro takeWhile_stops [of ?m]) simp_all
  then show "i < length kvs" by simp
  have "\<not> ?lens ! i < ?m" using i' unfolding i by (rule nth_length_takeWhile)
  with m i' show "0 < length (text_of (snd (kvs ! i)))" by auto
qed

lemma length_halve: "text \<noteq> [] \<Longrightarrow> length (halve tail text) < length text"
  by (auto simp: halve_def Let_def)

lemma text_size_update:
  assumes "i < length kvs" "text_of (snd (kvs ! i)) \<noteq> []"
  shows "text_size (kvs[i := (k, JStr (halve tail (text_of (snd (kvs ! i)))))]) < text_size kvs"
  using assms
proof (induction kvs arbitrary: i)
  case (Cons kv kvs)
  then show ?case
    by (cases i) (auto simp: text_size_def text_of_def length_halve)
qed simp

function truncate_loop ::
  "(rat \<Rightarrow> ustr) \<Rightarrow> int \<Rightarrow> ustr list \<Rightarrow> ustr \<Rightarrow> (ustr \<times> json) list \<Rightarrow> exn + (ustr \<times> json) list" where
  "truncate_loop fr cap keep_tail ty data =
     bind_result (encode_tree fr (JObj data)) (\<lambda>s.
       if int (utf8_len s) \<le> cap then Inr data
       else (case longest_field data of
          None \<Rightarrow> Inr [(lit ''type'', JStr (take 64 ty)), (lit ''truncated'', JBool True)]
        | Some i \<Rightarrow>
            let name = fst (data ! i); t = text_of (snd (data ! i))
            in truncate_loop fr cap keep_tail ty
                 (data[i := (name, JStr (halve (name \<in> set keep_tail) t))])))"
  by pat_completeness auto
termination
proof (relation "measure (\<lambda>(fr, cap, keep_tail, ty, data). text_size data)", simp, goal_cases)
  case (1 fr cap keep_tail ty data s i name t)
  from longest_field_SomeD[OF 1(3)] have "i < length data" "text_of (snd (data ! i)) \<noteq> []" by auto
  from text_size_update[OF this] show ?case using 1(4,5) by simp
qed

declare truncate_loop.simps [simp del]

text \<open>\<open>str(error.get("type", ""))\<close>.\<close>

definition type_text :: "(json \<Rightarrow> ustr) \<Rightarrow> (ustr \<times> json) list \<Rightarrow> ustr" where
  "type_text ps error = (case obj_get error (lit ''type'') of
     None \<Rightarrow> [] | Some (JStr s) \<Rightarrow> s | Some v \<Rightarrow> ps v)"

definition truncate_error ::
  "(rat \<Rightarrow> ustr) \<Rightarrow> (json \<Rightarrow> ustr) \<Rightarrow> (ustr \<times> json) list \<Rightarrow> int \<Rightarrow> ustr list
     \<Rightarrow> exn + (ustr \<times> json) list" where
  "truncate_error fr ps error cap keep_tail =
     bind_result (encode_tree fr (JObj error)) (\<lambda>s.
       if int (utf8_len s) \<le> cap then Inr error
       else truncate_loop fr cap keep_tail (type_text ps error)
              (obj_set error (lit ''truncated'') (JBool True)))"

section \<open>The metadata of an exception\<close>

text \<open>
  What formatting an exception yields: its class's qualified name, \<open>str(exc)\<close> and the
  formatted traceback, each of the latter two either text or the class name of the exception
  that formatting raised.
\<close>

record raised =
  x_qualname :: ustr
  x_str :: "ustr + ustr"
  x_traceback :: "ustr + ustr"

definition exc_message :: "raised \<Rightarrow> ustr" where
  "exc_message x = (case x_str x of Inr m \<Rightarrow> m
     | Inl failure \<Rightarrow> lit ''<'' @ x_qualname x @ lit '': str() raised '' @ failure @ lit ''>'')"

definition exc_traceback :: "raised \<Rightarrow> ustr" where
  "exc_traceback x = (case x_traceback x of Inr tb \<Rightarrow> tb
     | Inl failure \<Rightarrow> lit ''<traceback unavailable: '' @ failure @ lit ''>'')"

definition error_metadata ::
  "(rat \<Rightarrow> ustr) \<Rightarrow> (json \<Rightarrow> ustr) \<Rightarrow> raised \<Rightarrow> int \<Rightarrow> exn + (ustr \<times> json) list" where
  "error_metadata fr ps x cap =
     truncate_error fr ps
       [(lit ''type'', JStr (x_qualname x)),
        (lit ''message'', JStr (sanitize (exc_message x))),
        (lit ''traceback'', JStr (sanitize (exc_traceback x)))]
       cap [lit ''traceback'']"

section \<open>Truncation always returns metadata that fits\<close>

text \<open>Flat metadata: text, integers and booleans under storable keys.\<close>

fun flat_val :: "json \<Rightarrow> bool" where
  "flat_val (JStr s) = storable s"
| "flat_val (JInt i) = True"
| "flat_val (JBool b) = True"
| "flat_val v = False"

definition flat_ok :: "(ustr \<times> json) list \<Rightarrow> bool" where
  "flat_ok kvs \<longleftrightarrow> (\<forall>kv \<in> set kvs. storable (fst kv) \<and> flat_val (snd kv))"

lemma flat_valD:
  assumes "flat_val v"
  shows "tree_storable v" "tree_depth v = 0" "storable (text_of v)" "\<exists>t. render fr v = Inr t"
  using assms by (cases v; simp add: text_of_def)+

lemma flat_ok_storable: "flat_ok kvs \<Longrightarrow> tree_storable (JObj kvs)"
  by (simp add: flat_ok_def flat_valD)

lemma flat_ok_depth: "flat_ok kvs \<Longrightarrow> tree_depth (JObj kvs) \<le> 1"
  using foldr_max_le [of "\<lambda>kv. tree_depth (snd kv)" kvs 0] by (simp add: flat_ok_def flat_valD)

lemma collect_total:
  "(\<And>x. x \<in> set xs \<Longrightarrow> \<exists>y. f x = Inr y) \<Longrightarrow> \<exists>ys. collect f xs = Inr ys"
proof (induction xs)
  case (Cons x xs)
  then obtain y ys where "f x = Inr y" "collect f xs = Inr ys" by fastforce
  then show ?case by simp
qed simp

lemma flat_ok_encodes:
  assumes "flat_ok kvs"
  shows "\<exists>s. encode_tree fr (JObj kvs) = Inr s"
proof -
  have "check_tree (JObj kvs) 0 = Inr ()"
    using flat_ok_storable[OF assms] flat_ok_depth[OF assms]
    by (intro check_tree_Inr) (simp_all add: MAX_DEPTH_def)
  moreover have "\<exists>s. render fr (JObj kvs) = Inr s"
  proof -
    let ?f = "\<lambda>kv. map_sum id (\<lambda>t. quote (fst kv) @ 58 # t) (render fr (snd kv))"
    have "\<exists>y. ?f kv = Inr y" if "kv \<in> set kvs" for kv
      using assms that flat_valD(4)[of "snd kv" fr] by (auto simp: flat_ok_def)
    then obtain ys where "collect ?f kvs = Inr ys"
      using collect_total[of kvs ?f] by blast
    then show ?thesis by simp
  qed
  ultimately show ?thesis by (auto simp: encode_tree_def)
qed

lemma storable_halve: "storable s \<Longrightarrow> storable (halve tail s)"
  by (simp add: halve_def Let_def storable_take storable_drop)

lemma flat_ok_update:
  assumes "flat_ok data" "i < length data"
  shows "flat_ok (data[i := (fst (data ! i), JStr (halve b (text_of (snd (data ! i)))))])"
proof -
  let ?new = "(fst (data ! i), JStr (halve b (text_of (snd (data ! i)))))"
  have "data ! i \<in> set data" using assms(2) by simp
  then have "storable (fst ?new)" "flat_val (snd ?new)"
    using assms(1) flat_valD(3)[of "snd (data ! i)"] by (simp_all add: flat_ok_def storable_halve)
  moreover have "set (data[i := ?new]) \<subseteq> insert ?new (set data)"
    by (rule set_update_subset_insert)
  ultimately show ?thesis using assms(1) unfolding flat_ok_def by blast
qed

lemma flat_ok_type_only:
  "storable ty \<Longrightarrow> flat_ok [(lit ''type'', JStr (take 64 ty)), (lit ''truncated'', JBool True)]"
  by (simp add: flat_ok_def storable_take is_surrogate_def)

text \<open>The fallback holds 64 code points of the type, each at most six bytes once escaped.\<close>

lemma utf8_len_escape_cp: "utf8_len (escape_cp cp) \<le> 6"
  by (auto simp: escape_cp_def utf8_size_def hex_digit_def)

lemma utf8_len_concat_escape: "utf8_len (concat (map escape_cp s)) \<le> 6 * length s"
proof (induction s)
  case (Cons cp s)
  then show ?case using utf8_len_escape_cp[of cp] by simp
qed simp

lemma type_only_fits:
  assumes "encode_tree fr (JObj [(lit ''type'', JStr (take 64 ty)), (lit ''truncated'', JBool True)])
    = Inr s"
  shows "utf8_len s \<le> 412"
proof -
  let ?body = "concat (map escape_cp (take 64 ty))"
  have "s = 123 # commas [quote (lit ''type'') @ 58 # quote (take 64 ty),
      quote (lit ''truncated'') @ 58 # lit ''true''] @ [125]"
    using assms by (auto simp: encode_tree_def bind_result_Inr_iff)
  then have "utf8_len s = 28 + utf8_len ?body"
    by (simp add: quote_def escape_cp_def utf8_size_def)
  moreover have "utf8_len ?body \<le> 6 * 64"
    using utf8_len_concat_escape[of "take 64 ty"] by simp
  ultimately show ?thesis by simp
qed

lemma truncate_loop_ok:
  assumes "flat_ok data" "storable ty" "412 \<le> cap"
  shows "\<exists>out s. truncate_loop fr cap keep ty data = Inr out \<and> flat_ok out
    \<and> encode_tree fr (JObj out) = Inr s \<and> int (utf8_len s) \<le> cap"
  using assms(1)
proof (induction "text_size data" arbitrary: data rule: less_induct)
  case less
  obtain s where s: "encode_tree fr (JObj data) = Inr s"
    using flat_ok_encodes[OF less.prems] by blast
  show ?case
  proof (cases "int (utf8_len s) \<le> cap")
    case True
    with s less.prems show ?thesis by (subst truncate_loop.simps) simp
  next
    case big: False
    show ?thesis
    proof (cases "longest_field data")
      case None
      obtain s' where s': "encode_tree fr (JObj [(lit ''type'', JStr (take 64 ty)),
          (lit ''truncated'', JBool True)]) = Inr s'"
        using flat_ok_encodes[OF flat_ok_type_only[OF assms(2)]] by blast
      have "truncate_loop fr cap keep ty data
          = Inr [(lit ''type'', JStr (take 64 ty)), (lit ''truncated'', JBool True)]"
        using s big None by (subst truncate_loop.simps) simp
      moreover have "int (utf8_len s') \<le> cap" using type_only_fits[OF s'] assms(3) by linarith
      ultimately show ?thesis using s' flat_ok_type_only[OF assms(2)] by metis
    next
      case (Some i)
      note i = longest_field_SomeD[OF Some]
      let ?data = "data[i := (fst (data ! i), JStr (halve (fst (data ! i) \<in> set keep)
          (text_of (snd (data ! i)))))]"
      have "truncate_loop fr cap keep ty data = truncate_loop fr cap keep ty ?data"
        using s big Some by (subst truncate_loop.simps) (simp add: Let_def)
      moreover have "text_size ?data < text_size data"
        by (rule text_size_update) (use i in auto)
      ultimately show ?thesis
        using less.hyps flat_ok_update[OF less.prems i(1)] by simp
    qed
  qed
qed

lemma flat_ok_obj_set: "flat_ok kvs \<Longrightarrow> storable k \<Longrightarrow> flat_ok (obj_set kvs k (JBool b))"
  using set_obj_set [of kvs k "JBool b"] unfolding flat_ok_def by (auto dest!: subsetD)

lemma truncate_error_ok:
  assumes "flat_ok error" "storable (type_text ps error)" "412 \<le> cap"
  shows "\<exists>out s. truncate_error fr ps error cap keep = Inr out \<and> flat_ok out
    \<and> encode_tree fr (JObj out) = Inr s \<and> int (utf8_len s) \<le> cap"
proof -
  obtain s where s: "encode_tree fr (JObj error) = Inr s"
    using flat_ok_encodes[OF assms(1)] by blast
  have "flat_ok (obj_set error (lit ''truncated'') (JBool True))"
    by (rule flat_ok_obj_set[OF assms(1)]) (simp add: is_surrogate_def)
  from truncate_loop_ok[OF this assms(2,3)] s assms(1) show ?thesis
    by (cases "int (utf8_len s) \<le> cap") (simp_all add: truncate_error_def)
qed

end
