(* ===== verification/Model.thy ===== *)
theory Model
  imports Json "HOL-Library.List_Lexorder"
begin

text \<open>
  \<open>fronta/model.py\<close>: the value objects every layer shares. Enumerations become
  datatypes with their stored text, dataclasses become records, and each
  \<open>__post_init__\<close> becomes a constructor function that returns the record or the
  exception. Numbers are kept by value: the model does not distinguish the Python objects
  \<open>1\<close>, \<open>True\<close> and \<open>1.0\<close> once a field has accepted them.
\<close>

section \<open>Constants\<close>

definition MAX_DURATION_S :: rat where "MAX_DURATION_S = 30 * 86400"
definition MAX_BACKOFF_FACTOR :: rat where "MAX_BACKOFF_FACTOR = 10"
definition MAX_NAME_BYTES :: nat where "MAX_NAME_BYTES = 255"
definition MAX_KEY_BYTES :: nat where "MAX_KEY_BYTES = 1024"
definition KIB :: int where "KIB = 1024"
definition MIB :: int where "MIB = 1024 * KIB"

section \<open>Enumerations\<close>

datatype task_state = Queued | Running | Succeeded | Failed | Cancelled

fun state_value :: "task_state \<Rightarrow> ustr" where
  "state_value Queued = lit ''queued''"
| "state_value Running = lit ''running''"
| "state_value Succeeded = lit ''succeeded''"
| "state_value Failed = lit ''failed''"
| "state_value Cancelled = lit ''cancelled''"

text \<open>\<open>State(text)\<close>: the member with this value, or \<open>ValueError\<close>.\<close>

definition parse_state :: "ustr \<Rightarrow> exn + task_state" where
  "parse_state s =
     (if s = lit ''queued'' then Inr Queued
      else if s = lit ''running'' then Inr Running
      else if s = lit ''succeeded'' then Inr Succeeded
      else if s = lit ''failed'' then Inr Failed
      else if s = lit ''cancelled'' then Inr Cancelled
      else Inl ValueError)"

datatype executor = Asyncio | Process

fun executor_value :: "executor \<Rightarrow> ustr" where
  "executor_value Asyncio = lit ''asyncio''"
| "executor_value Process = lit ''process''"

definition parse_executor :: "ustr \<Rightarrow> exn + executor" where
  "parse_executor s =
     (if s = lit ''asyncio'' then Inr Asyncio
      else if s = lit ''process'' then Inr Process else Inl ValueError)"

datatype completion_kind = Succeed | Fail | FailFinal | Release | Cancel

lemma parse_state_value: "parse_state (state_value st) = Inr st"
  by (cases st) (simp_all add: parse_state_def)

lemma state_value_inject: "state_value s = state_value t \<longleftrightarrow> s = t"
  by (metis parse_state_value sum.inject(2))

lemma parse_state_Inr: "parse_state s = Inr st \<Longrightarrow> s = state_value st"
  by (auto simp: parse_state_def split: if_splits)

definition terminal :: "task_state \<Rightarrow> bool" where
  "terminal st \<longleftrightarrow> st = Succeeded \<or> st = Failed \<or> st = Cancelled"

definition active :: "task_state \<Rightarrow> bool" where
  "active st \<longleftrightarrow> st = Queued \<or> st = Running"

lemma active_iff_not_terminal: "active st \<longleftrightarrow> \<not> terminal st"
  by (cases st) (simp_all add: active_def terminal_def)

lemma terminal_simps [simp]:
  "\<not> terminal Queued" "\<not> terminal Running" "terminal Succeeded" "terminal Failed"
  "terminal Cancelled"
  by (simp_all add: terminal_def)

lemma active_simps [simp]:
  "active Queued" "active Running" "\<not> active Succeeded" "\<not> active Failed" "\<not> active Cancelled"
  by (simp_all add: active_def)

section \<open>Completions and events\<close>

record completion =
  c_id :: int
  c_token :: uuid
  c_kind :: completion_kind
  c_data :: "ustr option"

record task_event =
  ev_seq :: int
  ev_id :: int
  ev_type :: ustr
  ev_state :: task_state
  ev_attempt :: int

section \<open>Argument checks\<close>

text \<open>The Python scalars a caller may pass where a number is expected.\<close>

datatype scalar = SNone | SBool bool | SInt int | SFloat pyfloat | SStr ustr

text \<open>
  \<open>float(i)\<close>, which \<open>math.isfinite\<close> applies to an integer, overflows once the integer
  rounds to \<open>2 ^ 1024\<close>.
\<close>

definition FLOAT_OVERFLOW :: int where "FLOAT_OVERFLOW = 2 ^ 1024 - 2 ^ 970"

fun check_finite :: "scalar \<Rightarrow> rat \<Rightarrow> rat \<Rightarrow> exn + rat" where
  "check_finite (SBool b) low high =
     (let r = of_bool b in if low \<le> r \<and> r \<le> high then Inr r else Inl ValueError)"
| "check_finite (SInt i) low high =
     (if \<bar>i\<bar> \<ge> FLOAT_OVERFLOW then Inl OverflowError
      else if low \<le> of_int i \<and> of_int i \<le> high then Inr (of_int i) else Inl ValueError)"
| "check_finite (SFloat (Fin r)) low high =
     (if low \<le> r \<and> r \<le> high then Inr r else Inl ValueError)"
| "check_finite v low high = Inl ValueError"

lemma check_finite_range: "check_finite v low high = Inr r \<Longrightarrow> low \<le> r \<and> r \<le> high"
  by (induction v low high rule: check_finite.induct) (auto simp: Let_def split: if_splits)

section \<open>Backoff\<close>

record backoff =
  b_base :: rat
  b_factor :: rat
  b_cap :: rat

definition mk_backoff :: "scalar \<Rightarrow> scalar \<Rightarrow> scalar \<Rightarrow> exn + backoff" where
  "mk_backoff base fac cap =
     bind_result (check_finite base 0 MAX_DURATION_S) (\<lambda>b.
     bind_result (check_finite fac 1 MAX_BACKOFF_FACTOR) (\<lambda>f.
     bind_result (check_finite cap 0 MAX_DURATION_S) (\<lambda>c.
       if b > c then Inl ValueError else Inr \<lparr>b_base = b, b_factor = f, b_cap = c\<rparr>)))"

definition default_backoff :: backoff where
  "default_backoff = \<lparr>b_base = 1, b_factor = 2, b_cap = 3600\<rparr>"

definition backoff_ok :: "backoff \<Rightarrow> bool" where
  "backoff_ok b \<longleftrightarrow> 0 \<le> b_base b \<and> b_base b \<le> b_cap b \<and> b_cap b \<le> MAX_DURATION_S
     \<and> 1 \<le> b_factor b \<and> b_factor b \<le> MAX_BACKOFF_FACTOR"

lemma default_backoff_ok: "backoff_ok default_backoff"
  by (simp add: backoff_ok_def default_backoff_def MAX_DURATION_S_def MAX_BACKOFF_FACTOR_def)

lemma mk_backoff_ok: "mk_backoff x y z = Inr b \<Longrightarrow> backoff_ok b"
  by (auto simp: mk_backoff_def bind_result_Inr_iff backoff_ok_def
      dest!: check_finite_range split: if_splits)

lemma mk_backoff_accepts:
  "backoff_ok b \<Longrightarrow>
     mk_backoff (SFloat (Fin (b_base b))) (SFloat (Fin (b_factor b))) (SFloat (Fin (b_cap b))) = Inr b"
  by (auto simp: mk_backoff_def backoff_ok_def)

section \<open>JSON numbers read back\<close>

text \<open>
  \<open>float(v)\<close> and \<open>int(v)\<close> on a decoded JSON value. Reading a numeral out of a string is
  the interpreter's and comes in as the parameters \<open>sf\<close> and \<open>si\<close>.
\<close>

fun py_float :: "(ustr \<Rightarrow> exn + pyfloat) \<Rightarrow> json \<Rightarrow> exn + pyfloat" where
  "py_float sf (JBool b) = Inr (Fin (of_bool b))"
| "py_float sf (JInt i) =
     (if \<bar>i\<bar> \<ge> FLOAT_OVERFLOW then Inl OverflowError else Inr (Fin (of_int i)))"
| "py_float sf (JFloat x) = Inr x"
| "py_float sf (JStr s) = sf s"
| "py_float sf v = Inl TypeError"

fun py_int :: "(ustr \<Rightarrow> exn + int) \<Rightarrow> json \<Rightarrow> exn + int" where
  "py_int si (JBool b) = Inr (of_bool b)"
| "py_int si (JInt i) = Inr i"
| "py_int si (JFloat (Fin r)) = Inr (if r < 0 then - \<lfloor>- r\<rfloor> else \<lfloor>r\<rfloor>)"
| "py_int si (JFloat NaN) = Inl ValueError"
| "py_int si (JFloat x) = Inl OverflowError"
| "py_int si (JStr s) = si s"
| "py_int si v = Inl TypeError"

definition backoff_to_json :: "backoff \<Rightarrow> json" where
  "backoff_to_json b = JObj
     [(lit ''base_s'', JFloat (Fin (b_base b))), (lit ''factor'', JFloat (Fin (b_factor b))),
      (lit ''cap_s'', JFloat (Fin (b_cap b)))]"

fun backoff_from_json :: "(ustr \<Rightarrow> exn + pyfloat) \<Rightarrow> json \<Rightarrow> exn + backoff" where
  "backoff_from_json sf (JObj data) =
     bind_result (obj_item data (lit ''base_s'')) (\<lambda>b.
     bind_result (py_float sf b) (\<lambda>base.
     bind_result (obj_item data (lit ''factor'')) (\<lambda>f.
     bind_result (py_float sf f) (\<lambda>fac.
     bind_result (obj_item data (lit ''cap_s'')) (\<lambda>c.
     bind_result (py_float sf c) (\<lambda>cap.
       mk_backoff (SFloat base) (SFloat fac) (SFloat cap)))))))"
| "backoff_from_json sf v = Inl TypeError"

lemma backoff_json_roundtrip:
  "backoff_ok b \<Longrightarrow> backoff_from_json sf (backoff_to_json b) = Inr b"
  by (simp add: backoff_to_json_def obj_item_def mk_backoff_accepts)

section \<open>Policy\<close>

record policy =
  p_max_attempts :: int
  p_attempt_timeout :: rat
  p_backoff :: backoff
  p_max_concurrency :: "int option"
  p_max_concurrency_per_key :: "int option"

text \<open>\<open>isinstance(v, int) and v >= 1\<close>; \<open>bool\<close> is a subclass of \<open>int\<close>.\<close>

fun positive_int :: "scalar \<Rightarrow> int option" where
  "positive_int (SBool b) = (if b then Some 1 else None)"
| "positive_int (SInt i) = (if i \<ge> 1 then Some i else None)"
| "positive_int v = None"

definition check_limit :: "scalar \<Rightarrow> exn + int option" where
  "check_limit v = (if v = SNone then Inr None
     else case positive_int v of None \<Rightarrow> Inl ValueError | Some i \<Rightarrow> Inr (Some i))"

definition mk_policy :: "scalar \<Rightarrow> scalar \<Rightarrow> backoff \<Rightarrow> scalar \<Rightarrow> scalar \<Rightarrow> exn + policy" where
  "mk_policy max_attempts timeout backoff max_conc max_conc_key =
     (case positive_int max_attempts of
        None \<Rightarrow> Inl ValueError
      | Some n \<Rightarrow>
          bind_result (check_finite timeout (1 / 1000) MAX_DURATION_S) (\<lambda>t.
          bind_result (check_limit max_conc) (\<lambda>mc.
          bind_result (check_limit max_conc_key) (\<lambda>mk.
            Inr \<lparr>p_max_attempts = n, p_attempt_timeout = t, p_backoff = backoff,
                 p_max_concurrency = mc, p_max_concurrency_per_key = mk\<rparr>))))"

definition limit_ok :: "int option \<Rightarrow> bool" where
  "limit_ok l \<longleftrightarrow> (case l of None \<Rightarrow> True | Some n \<Rightarrow> 1 \<le> n)"

definition policy_ok :: "policy \<Rightarrow> bool" where
  "policy_ok p \<longleftrightarrow> 1 \<le> p_max_attempts p \<and> 1 / 1000 \<le> p_attempt_timeout p
     \<and> p_attempt_timeout p \<le> MAX_DURATION_S \<and> backoff_ok (p_backoff p)
     \<and> limit_ok (p_max_concurrency p) \<and> limit_ok (p_max_concurrency_per_key p)"

lemma positive_int_ge: "positive_int v = Some n \<Longrightarrow> 1 \<le> n"
  by (cases v) (auto split: if_splits)

lemma check_limit_ok: "check_limit v = Inr l \<Longrightarrow> limit_ok l"
  by (auto simp: check_limit_def limit_ok_def dest: positive_int_ge
      split: if_splits option.splits)

lemma mk_policy_ok: "backoff_ok b \<Longrightarrow> mk_policy n t b c k = Inr p \<Longrightarrow> policy_ok p"
  by (auto simp: mk_policy_def bind_result_Inr_iff policy_ok_def
      dest!: check_finite_range check_limit_ok positive_int_ge split: option.splits)

fun int_or_null :: "int option \<Rightarrow> json" where
  "int_or_null None = JNull"
| "int_or_null (Some i) = JInt i"

definition policy_to_json :: "policy \<Rightarrow> json" where
  "policy_to_json p = JObj
     [(lit ''max_attempts'', JInt (p_max_attempts p)),
      (lit ''attempt_timeout_s'', JFloat (Fin (p_attempt_timeout p))),
      (lit ''backoff'', backoff_to_json (p_backoff p)),
      (lit ''max_concurrency'', int_or_null (p_max_concurrency p)),
      (lit ''max_concurrency_per_key'', int_or_null (p_max_concurrency_per_key p))]"

text \<open>
  \<open>data.get(k)\<close> hands the decoded value to the constructor as it is; containers are not
  \<open>int\<close> instances, which \<open>SStr\<close> stands for here.
\<close>

fun scalar_of :: "json option \<Rightarrow> scalar" where
  "scalar_of None = SNone"
| "scalar_of (Some JNull) = SNone"
| "scalar_of (Some (JBool b)) = SBool b"
| "scalar_of (Some (JInt i)) = SInt i"
| "scalar_of (Some (JFloat x)) = SFloat x"
| "scalar_of (Some (JStr s)) = SStr s"
| "scalar_of (Some v) = SStr []"

fun policy_from_json ::
  "(ustr \<Rightarrow> exn + int) \<Rightarrow> (ustr \<Rightarrow> exn + pyfloat) \<Rightarrow> json \<Rightarrow> exn + policy" where
  "policy_from_json si sf (JObj data) =
     bind_result (obj_item data (lit ''max_attempts'')) (\<lambda>a.
     bind_result (py_int si a) (\<lambda>n.
     bind_result (obj_item data (lit ''attempt_timeout_s'')) (\<lambda>t.
     bind_result (py_float sf t) (\<lambda>timeout.
     bind_result (obj_item data (lit ''backoff'')) (\<lambda>b.
     bind_result (backoff_from_json sf b) (\<lambda>bo.
       mk_policy (SInt n) (SFloat timeout) bo
         (scalar_of (obj_get data (lit ''max_concurrency'')))
         (scalar_of (obj_get data (lit ''max_concurrency_per_key'')))))))))"
| "policy_from_json si sf v = Inl TypeError"

lemma scalar_of_int_or_null: "scalar_of (Some (int_or_null l)) = (case l of None \<Rightarrow> SNone | Some i \<Rightarrow> SInt i)"
  by (cases l) simp_all

lemma check_limit_accepts: "limit_ok l \<Longrightarrow> check_limit (case l of None \<Rightarrow> SNone | Some i \<Rightarrow> SInt i) = Inr l"
  by (auto simp: check_limit_def limit_ok_def split: option.splits)

lemma policy_json_roundtrip_aux:
  "policy_ok p \<Longrightarrow> policy_from_json si sf (policy_to_json p) = Inr p"
  by (simp add: policy_to_json_def obj_item_def obj_get_def backoff_json_roundtrip policy_ok_def
      mk_policy_def scalar_of_int_or_null check_limit_accepts)

section \<open>Rows\<close>

text \<open>
  One row of \<open>fronta.tasks\<close>, with the columns of the table in the order of the dataclass.
  The three backoff columns are the \<open>Backoff\<close> object the row is read into.
\<close>

record task_row =
  t_id :: int
  t_type :: ustr
  t_state :: task_state
  t_priority :: int
  t_key :: "ustr option"
  t_ckey :: "ustr option"
  t_input :: json
  t_result :: "json option"
  t_error :: "json option"
  t_progress :: "json option"
  t_attempt :: int
  t_failures :: int
  t_max_attempts :: int
  t_timeout :: rat
  t_backoff :: backoff
  t_token :: "uuid option"
  t_lease_until :: "time option"
  t_worker :: "ustr option"
  t_cancel_at :: "time option"
  t_created_at :: time
  t_run_at :: time
  t_started_at :: "time option"
  t_finished_at :: "time option"
  t_metadata :: "json option"

text \<open>The list row: no JSON columns, no policy, no token and no lease.\<close>

record task_summary =
  ts_id :: int
  ts_type :: ustr
  ts_state :: task_state
  ts_priority :: int
  ts_key :: "ustr option"
  ts_ckey :: "ustr option"
  ts_attempt :: int
  ts_failures :: int
  ts_max_attempts :: int
  ts_worker :: "ustr option"
  ts_cancel_at :: "time option"
  ts_created_at :: time
  ts_run_at :: time
  ts_started_at :: "time option"
  ts_finished_at :: "time option"

record task_type_row =
  ty_name :: ustr
  ty_executor :: executor
  ty_input_schema :: json
  ty_output_schema :: "json option"
  ty_policy :: json
  ty_max_conc :: "int option"
  ty_max_conc_key :: "int option"
  ty_fingerprint :: ustr
  ty_updated_at :: time
  ty_paused :: bool

record task_type_spec =
  sp_name :: ustr
  sp_executor :: executor
  sp_input_schema :: json
  sp_output_schema :: "json option"
  sp_policy :: policy

text \<open>
  \<open>fingerprint\<close>: the digest of the canonical JSON of the published fields. \<open>dumps\<close> with
  \<open>sort_keys\<close> and the SHA-256 digest are the standard library's; they enter as the
  parameters \<open>canon\<close> and \<open>sha\<close>.
\<close>

definition spec_document :: "task_type_spec \<Rightarrow> json" where
  "spec_document s = JObj
     [(lit ''executor'', JStr (executor_value (sp_executor s))),
      (lit ''input_schema'', sp_input_schema s),
      (lit ''output_schema'', (case sp_output_schema s of None \<Rightarrow> JNull | Some j \<Rightarrow> j)),
      (lit ''policy'', policy_to_json (sp_policy s))]"

definition fingerprint :: "(json \<Rightarrow> ustr) \<Rightarrow> (ustr \<Rightarrow> ustr) \<Rightarrow> task_type_spec \<Rightarrow> ustr" where
  "fingerprint canon sha s = sha (canon (spec_document s))"

record new_task =
  n_type :: ustr
  n_input :: ustr
  n_policy :: policy
  n_priority :: scalar
  n_run_at :: "(time \<times> bool) option"
  n_key :: "ustr option"
  n_ckey :: "ustr option"
  n_metadata :: "ustr option"

record task_filter =
  f_type :: "ustr option"
  f_state :: "task_state option"
  f_key :: "ustr option"
  f_before :: "int option"
  f_limit :: int

section \<open>Sandbox declaration\<close>

definition DEFAULT_RO_BINDS :: "ustr list" where
  "DEFAULT_RO_BINDS = [lit ''/usr'', lit ''/etc/alternatives'', lit ''/etc/ld.so.cache'']"

record sandbox =
  sb_ro_binds :: "ustr list"
  sb_env :: "(ustr \<times> ustr) list"
  sb_cpu_time :: "rat option"
  sb_memory :: "int option"
  sb_max_pids :: "int option"
  sb_tmpfs :: int
  sb_max_output :: int

definition default_sandbox :: sandbox where
  "default_sandbox = \<lparr>sb_ro_binds = DEFAULT_RO_BINDS, sb_env = [], sb_cpu_time = None,
     sb_memory = None, sb_max_pids = None, sb_tmpfs = 256 * MIB, sb_max_output = 256 * KIB\<rparr>"

definition starts_with :: "ustr \<Rightarrow> ustr \<Rightarrow> bool" where
  "starts_with p s \<longleftrightarrow> take (length p) s = p"

text \<open>\<open>PurePosixPath(path).is_absolute()\<close> holds iff the text begins with a slash.\<close>

definition path_is_absolute :: "ustr \<Rightarrow> bool" where
  "path_is_absolute p \<longleftrightarrow> starts_with (lit ''/'') p"

definition not_positive :: "'a::linordered_idom option \<Rightarrow> bool" where
  "not_positive v \<longleftrightarrow> (case v of None \<Rightarrow> False | Some x \<Rightarrow> x \<le> 0)"

definition env_name_bad :: "ustr \<Rightarrow> bool" where
  "env_name_bad k \<longleftrightarrow> starts_with (lit ''FRONTA_'') k \<or> of_char (CHR ''='') \<in> set k \<or> k = []"

text \<open>\<open>Sandbox.__post_init__\<close>, in the order of its three loops.\<close>

definition check_sandbox :: "sandbox \<Rightarrow> exn + unit" where
  "check_sandbox s =
     bind_result (each (\<lambda>p. if \<not> path_is_absolute p then Inl ValueError else Inr ()) (sb_ro_binds s)) (\<lambda>_.
     bind_result (each (\<lambda>bad. if bad then Inl ValueError else Inr ())
       [not_positive (sb_cpu_time s), not_positive (sb_memory s), not_positive (sb_max_pids s),
        not_positive (Some (sb_tmpfs s)), not_positive (Some (sb_max_output s))]) (\<lambda>_.
     each (\<lambda>(k, v). if env_name_bad k then Inl ValueError else Inr ()) (sb_env s)))"

definition sandbox_ok :: "sandbox \<Rightarrow> bool" where
  "sandbox_ok s \<longleftrightarrow> check_sandbox s = Inr ()"

text \<open>
  \<open>Sandbox.identity()\<close>: one startup probe per distinct value. The output cap is not part
  of it; sorting the environment makes the key independent of insertion order.
\<close>

definition sandbox_identity ::
  "sandbox \<Rightarrow> ustr list \<times> (ustr \<times> ustr) list \<times> rat option \<times> int option \<times> int option \<times> int"
  where
  "sandbox_identity s = (sb_ro_binds s, sort (sb_env s), sb_cpu_time s, sb_memory s,
     sb_max_pids s, sb_tmpfs s)"

lemma sandbox_ok_env: "sandbox_ok s \<Longrightarrow> (k, v) \<in> set (sb_env s) \<Longrightarrow> \<not> env_name_bad k"
  by (auto simp: sandbox_ok_def check_sandbox_def bind_result_Inr_iff each_Inr_iff split: if_splits)

lemma sandbox_ok_binds: "sandbox_ok s \<Longrightarrow> p \<in> set (sb_ro_binds s) \<Longrightarrow> path_is_absolute p"
  by (auto simp: sandbox_ok_def check_sandbox_def bind_result_Inr_iff each_Inr_iff split: if_splits)

end
