(* ===== verification/Database.thy ===== *)
theory Database
  imports Model
begin

text \<open>
  The state every process shares: the tables of \<open>schema.sql\<close> as lists of rows, what
  PostgreSQL supplies to one statement (\<open>now()\<close>, \<open>clock_timestamp()\<close>,
  \<open>random()\<close>, \<open>gen_random_uuid()\<close>, the \<open>jsonb\<close> cast, \<open>pg_column_size\<close>), the
  outbox insert that \<open>_with_events\<close> of \<open>store.py\<close> adds to a transition, and the table
  invariant. Each statement of the program is atomic: it is one function on this state.
\<close>

section \<open>Tables\<close>

record backfill_marker =
  bf_since :: "time option"
  bf_pending :: "(task_state \<times> int) list"

record sub_row =
  s_name :: ustr
  s_states :: "task_state list"
  s_types :: "ustr list option"
  s_created_at :: time
  s_backfill :: "backfill_marker option"
  s_generation :: uuid

record event_row =
  e_seq :: int
  e_sub :: ustr
  e_task :: int
  e_type :: ustr
  e_state :: task_state
  e_attempt :: int
  e_created_at :: time

record db =
  tasks :: "task_row list"
  task_types :: "task_type_row list"
  subscriptions :: "sub_row list"
  events :: "event_row list"
  next_id :: int
  next_seq :: int
  schema_version :: "ustr option"

definition empty_db :: db where
  "empty_db = \<lparr>tasks = [], task_types = [], subscriptions = [], events = [],
     next_id = 1, next_seq = 1, schema_version = None\<rparr>"

text \<open>What the server supplies to one statement.\<close>

record pg =
  tx_now :: time
  clock :: time
  rnd :: "int \<Rightarrow> rat"
  fresh_uuid :: "int \<Rightarrow> uuid"
  to_jsonb :: "ustr \<Rightarrow> json"
  column_size :: "json \<Rightarrow> int"

section \<open>The outbox\<close>

text \<open>The subscriptions whose filters match a row (\<open>_PUBLISHED\<close>).\<close>

definition matches :: "sub_row \<Rightarrow> task_row \<Rightarrow> bool" where
  "matches s a \<longleftrightarrow> t_state a \<in> set (s_states s)
     \<and> (case s_types s of None \<Rightarrow> True | Some tys \<Rightarrow> t_type a \<in> set tys)"

definition deliveries :: "sub_row list \<Rightarrow> task_row list \<Rightarrow> (ustr \<times> task_row) list" where
  "deliveries subs applied =
     concat (map (\<lambda>a. map (\<lambda>s. (s_name s, a)) (filter (\<lambda>s. matches s a) subs)) applied)"

fun log_events :: "pg \<Rightarrow> int \<Rightarrow> (ustr \<times> task_row) list \<Rightarrow> event_row list" where
  "log_events env n [] = []"
| "log_events env n ((sub, a) # ds) =
     \<lparr>e_seq = n, e_sub = sub, e_task = t_id a, e_type = t_type a, e_state = t_state a,
      e_attempt = t_attempt a, e_created_at = tx_now env\<rparr> # log_events env (n + 1) ds"

definition publish :: "pg \<Rightarrow> task_row list \<Rightarrow> db \<Rightarrow> db" where
  "publish env applied d =
     (let ds = deliveries (subscriptions d) applied
      in d\<lparr>events := events d @ log_events env (next_seq d) ds,
           next_seq := next_seq d + int (length ds)\<rparr>)"

text \<open>
  \<open>WITH applied AS (UPDATE tasks SET u WHERE g RETURNING \<dots>), published AS (INSERT \<dots>
  WHERE p)\<close>: the transition and its events in one statement.
\<close>

definition with_events ::
  "pg \<Rightarrow> (task_row \<Rightarrow> bool) \<Rightarrow> (task_row \<Rightarrow> task_row) \<Rightarrow> (task_row \<Rightarrow> bool) \<Rightarrow> db
     \<Rightarrow> db \<times> task_row list" where
  "with_events env g u p d =
     (let applied = returning g u (tasks d)
      in (publish env (filter p applied) (d\<lparr>tasks := update_where g u (tasks d)\<rparr>), applied))"

subsection \<open>What an outbox insert leaves alone\<close>

lemma publish_frame [simp]:
  "tasks (publish env a d) = tasks d" "task_types (publish env a d) = task_types d"
  "subscriptions (publish env a d) = subscriptions d" "next_id (publish env a d) = next_id d"
  "schema_version (publish env a d) = schema_version d"
  by (simp_all add: publish_def Let_def)

lemma with_events_frame [simp]:
  "tasks (fst (with_events env g u p d)) = update_where g u (tasks d)"
  "task_types (fst (with_events env g u p d)) = task_types d"
  "subscriptions (fst (with_events env g u p d)) = subscriptions d"
  "next_id (fst (with_events env g u p d)) = next_id d"
  "schema_version (fst (with_events env g u p d)) = schema_version d"
  "snd (with_events env g u p d) = returning g u (tasks d)"
  by (simp_all add: with_events_def Let_def)

lemma length_log_events [simp]: "length (log_events env n ds) = length ds"
  by (induction env n ds rule: log_events.induct) auto

lemma seqs_log_events: "map e_seq (log_events env n ds) = [n..n + int (length ds) - 1]"
proof (induction env n ds rule: log_events.induct)
  case (2 env n sub a ds)
  then show ?case by (subst upto.simps) (simp add: algebra_simps)
qed simp

lemma log_events_content:
  "map (\<lambda>e. (e_sub e, e_task e, e_type e, e_state e, e_attempt e)) (log_events env n ds)
    = map (\<lambda>(s, a). (s, t_id a, t_type a, t_state a, t_attempt a)) ds"
  by (induction env n ds rule: log_events.induct) auto

lemma set_deliveries:
  "set (deliveries subs applied)
    = {(s_name s, a) | s a. s \<in> set subs \<and> a \<in> set applied \<and> matches s a}"
  by (auto simp: deliveries_def)

text \<open>With no matching rows an outbox insert is the identity.\<close>

lemma publish_Nil [simp]: "publish env [] d = d"
  by (simp add: publish_def deliveries_def)

lemma with_events_none:
  assumes "\<And>r. r \<in> set (tasks d) \<Longrightarrow> \<not> g r"
  shows "with_events env g u p d = (d, [])"
  using assms by (simp add: with_events_def update_where_none returning_none)

lemma with_events_cong:
  assumes "\<And>r. r \<in> set (tasks d) \<Longrightarrow> g r = h r"
  shows "with_events env g u p d = with_events env h u p d"
proof -
  have "update_where g u (tasks d) = update_where h u (tasks d)"
    "returning g u (tasks d) = returning h u (tasks d)"
    using assms by (auto intro: update_where_cong returning_cong)
  then show ?thesis by (simp add: with_events_def)
qed

section \<open>The row invariant\<close>

text \<open>
  What the columns of one task row promise about each other: a token and a lease exactly while
  running, a finish time exactly when terminal, no pending cancellation while queued, and a
  failure count that leaves an active task at least one attempt.
\<close>

definition row_inv :: "task_row \<Rightarrow> bool" where
  "row_inv r \<longleftrightarrow>
     1 \<le> t_max_attempts r \<and> 0 \<le> t_failures r \<and> t_failures r \<le> t_max_attempts r
     \<and> t_failures r \<le> t_attempt r
     \<and> (active (t_state r) \<longrightarrow> t_failures r < t_max_attempts r)
     \<and> (t_state r = Running \<longrightarrow> t_failures r < t_attempt r \<and> t_worker r \<noteq> None)
     \<and> (t_token r \<noteq> None \<longleftrightarrow> t_state r = Running)
     \<and> (t_lease_until r \<noteq> None \<longleftrightarrow> t_state r = Running)
     \<and> (t_finished_at r \<noteq> None \<longleftrightarrow> terminal (t_state r))
     \<and> (t_state r = Queued \<longrightarrow> t_cancel_at r = None)
     \<and> backoff_ok (t_backoff r)"

lemma row_invD:
  assumes "row_inv r"
  shows "1 \<le> t_max_attempts r" "0 \<le> t_failures r" "t_failures r \<le> t_max_attempts r"
    "t_failures r \<le> t_attempt r"
    "t_state r = Running \<Longrightarrow> t_token r \<noteq> None"
    "t_state r = Running \<Longrightarrow> t_lease_until r \<noteq> None"
    "t_state r \<noteq> Running \<Longrightarrow> t_token r = None"
    "t_state r \<noteq> Running \<Longrightarrow> t_lease_until r = None"
    "backoff_ok (t_backoff r)"
  using assms by (auto simp: row_inv_def)

section \<open>The table invariant\<close>

text \<open>The partial unique index \<open>tasks_active_key_uidx\<close>.\<close>

definition active_keys_unique :: "task_row list \<Rightarrow> bool" where
  "active_keys_unique rows \<longleftrightarrow>
     (\<forall>r \<in> set rows. \<forall>s \<in> set rows. active (t_state r) \<and> active (t_state s) \<and> t_key r \<noteq> None
        \<and> t_key r = t_key s \<and> t_type r = t_type s \<longrightarrow> t_id r = t_id s)"

definition tasks_inv :: "int \<Rightarrow> task_row list \<Rightarrow> bool" where
  "tasks_inv n rows \<longleftrightarrow> 1 \<le> n \<and> distinct (map t_id rows)
     \<and> (\<forall>r \<in> set rows. 1 \<le> t_id r \<and> t_id r < n \<and> row_inv r) \<and> active_keys_unique rows"

definition outbox_inv :: "int \<Rightarrow> event_row list \<Rightarrow> bool" where
  "outbox_inv n evs \<longleftrightarrow> distinct (map e_seq evs) \<and> (\<forall>e \<in> set evs. e_seq e < n)"

definition db_inv :: "db \<Rightarrow> bool" where
  "db_inv d \<longleftrightarrow> tasks_inv (next_id d) (tasks d) \<and> outbox_inv (next_seq d) (events d)
     \<and> distinct (map ty_name (task_types d)) \<and> distinct (map s_name (subscriptions d))
     \<and> (\<forall>ty \<in> set (task_types d). limit_ok (ty_max_conc ty) \<and> limit_ok (ty_max_conc_key ty))"

lemma db_inv_empty: "db_inv empty_db"
  by (simp add: db_inv_def tasks_inv_def outbox_inv_def active_keys_unique_def empty_db_def)

lemma tasks_invD:
  "tasks_inv n rows \<Longrightarrow> distinct (map t_id rows)"
  "tasks_inv n rows \<Longrightarrow> r \<in> set rows \<Longrightarrow> row_inv r"
  "tasks_inv n rows \<Longrightarrow> r \<in> set rows \<Longrightarrow> t_id r < n"
  "tasks_inv n rows \<Longrightarrow> active_keys_unique rows"
  by (auto simp: tasks_inv_def)

lemma db_invD:
  "db_inv d \<Longrightarrow> tasks_inv (next_id d) (tasks d)"
  "db_inv d \<Longrightarrow> outbox_inv (next_seq d) (events d)"
  "db_inv d \<Longrightarrow> distinct (map ty_name (task_types d))"
  "db_inv d \<Longrightarrow> distinct (map s_name (subscriptions d))"
  by (auto simp: db_inv_def)

lemma db_inv_ids: "db_inv d \<Longrightarrow> distinct (map t_id (tasks d))"
  by (simp add: db_inv_def tasks_inv_def)

lemma db_inv_row: "db_inv d \<Longrightarrow> r \<in> set (tasks d) \<Longrightarrow> row_inv r"
  by (simp add: db_inv_def tasks_inv_def)

lemma outbox_inv_log:
  assumes "outbox_inv n evs"
  shows "outbox_inv (n + int (length ds)) (evs @ log_events env n ds)"
proof -
  let ?new = "log_events env n ds"
  have seqs: "e_seq ` set ?new = {n..n + int (length ds) - 1}"
    by (metis list.set_map seqs_log_events set_upto)
  have "distinct (map e_seq ?new)" by (simp add: seqs_log_events)
  moreover have "e_seq ` set evs \<inter> e_seq ` set ?new = {}"
  proof -
    have "e_seq e < n" if "e \<in> set evs" for e
      using assms that by (simp add: outbox_inv_def)
    then show ?thesis unfolding seqs by force
  qed
  moreover have "\<forall>e \<in> set ?new. e_seq e < n + int (length ds)"
    using seqs by (metis atLeastAtMost_iff image_eqI zle_diff1_eq)
  ultimately show ?thesis using assms by (auto simp: outbox_inv_def)
qed

lemma db_inv_publish [inv_intros]:
  "db_inv d \<Longrightarrow> db_inv (publish env applied d)"
  by (simp add: db_inv_def publish_def Let_def outbox_inv_log)

section \<open>One-row updates that keep the invariant\<close>

text \<open>
  The contract between a transition (its guard and its new row) and the tables: the identifying
  columns stay, and the row invariant is kept. Every \<open>UPDATE fronta.tasks\<close> of the program is
  an instance; the table-level facts below are proved once.
\<close>

locale row_update =
  fixes guard :: "task_row \<Rightarrow> bool" and upd :: "task_row \<Rightarrow> task_row"
  assumes upd_id: "t_id (upd r) = t_id r"
    and upd_type: "t_type (upd r) = t_type r"
    and upd_key: "t_key (upd r) = t_key r"
    and upd_inv: "row_inv r \<Longrightarrow> guard r \<Longrightarrow> row_inv (upd r)"
begin

lemma ids_update: "map t_id (update_where guard upd rows) = map t_id rows"
  by (rule map_update_where) (rule upd_id)

lemma rows_inv_update:
  "\<forall>r \<in> set rows. 1 \<le> t_id r \<and> t_id r < n \<and> row_inv r
    \<Longrightarrow> \<forall>r \<in> set (update_where guard upd rows). 1 \<le> t_id r \<and> t_id r < n \<and> row_inv r"
  by (auto simp: set_update_where upd_id upd_inv)

lemma tasks_inv_update_keys:
  "tasks_inv n rows \<Longrightarrow> active_keys_unique (update_where guard upd rows)
    \<Longrightarrow> tasks_inv n (update_where guard upd rows)"
  unfolding tasks_inv_def ids_update using rows_inv_update [of rows n] by blast

end

text \<open>A transition that never brings a terminal row back keeps the active-key index, too.\<close>

locale row_transition = row_update +
  assumes no_revive: "row_inv r \<Longrightarrow> guard r \<Longrightarrow> active (t_state (upd r)) \<Longrightarrow> active (t_state r)"
begin

lemma active_keys_update:
  assumes "\<forall>r \<in> set rows. row_inv r" "active_keys_unique rows"
  shows "active_keys_unique (update_where guard upd rows)"
proof -
  have origin: "\<exists>s \<in> set rows. t_id s = t_id r \<and> t_key s = t_key r \<and> t_type s = t_type r
      \<and> (active (t_state r) \<longrightarrow> active (t_state s))"
    if "r \<in> set (update_where guard upd rows)" for r
    using that assms(1) no_revive
    by (auto simp: set_update_where upd_id upd_key upd_type)
  show ?thesis
    unfolding active_keys_unique_def
  proof (intro ballI impI)
    fix r s
    assume "r \<in> set (update_where guard upd rows)" "s \<in> set (update_where guard upd rows)"
      and h: "active (t_state r) \<and> active (t_state s) \<and> t_key r \<noteq> None \<and> t_key r = t_key s
        \<and> t_type r = t_type s"
    from origin[OF this(1)] origin[OF this(2)] obtain r' s' where
      "r' \<in> set rows" "s' \<in> set rows" "t_id r' = t_id r" "t_id s' = t_id s"
      "t_key r' = t_key r" "t_key s' = t_key s" "t_type r' = t_type r" "t_type s' = t_type s"
      "active (t_state r')" "active (t_state s')"
      using h by blast
    with h assms(2) show "t_id r = t_id s" unfolding active_keys_unique_def by metis
  qed
qed

lemma tasks_inv_update:
  "tasks_inv n rows \<Longrightarrow> tasks_inv n (update_where guard upd rows)"
  by (rule tasks_inv_update_keys) (auto simp: tasks_inv_def active_keys_update)

lemma db_inv_with_events:
  assumes "db_inv d"
  shows "db_inv (fst (with_events env guard upd p d))"
proof -
  have "db_inv (d\<lparr>tasks := update_where guard upd (tasks d)\<rparr>)"
    using assms by (simp add: db_inv_def tasks_inv_update)
  then show ?thesis by (simp add: with_events_def Let_def db_inv_publish)
qed

lemma db_inv_update: "db_inv d \<Longrightarrow> db_inv (d\<lparr>tasks := update_where guard upd (tasks d)\<rparr>)"
  by (simp add: db_inv_def tasks_inv_update)

end

end
