(* ===== verification/Transitions.thy ===== *)
theory Transitions
  imports Database
begin

text \<open>
  The fenced writes of a running attempt and the control-plane transitions of
  \<open>store.py\<close>, with the SQL they execute (\<open>complete.sql\<close> and the statements at the top of
  \<open>store.py\<close>): completion batches, orphan release, heartbeats, progress, cancellation
  requests, the reaper and manual requeue. Each statement is a guard and a new row; the
  interpretations of \<open>row_transition\<close> show that each keeps the table invariant.
  \<open>busy\<close> names the rows another transaction has locked, which \<open>SKIP LOCKED\<close> passes over.
\<close>

section \<open>Completion batches\<close>

text \<open>\<open>_BACKOFF\<close>: the failure count is read before this failure is added.\<close>

definition backoff_until :: "pg \<Rightarrow> task_row \<Rightarrow> time" where
  "backoff_until env r = tx_now env
     + min (b_cap (t_backoff r)) (b_base (t_backoff r) * b_factor (t_backoff r) ^ nat (min (t_failures r) 64))
       * (1 / 2 + 1 / 2 * rnd env (t_id r))"

definition outcome_for :: "completion list \<Rightarrow> task_row \<Rightarrow> completion option" where
  "outcome_for cs r = find_row (\<lambda>c. c_id c = t_id r \<and> t_token r = Some (c_token c)) cs"

definition complete_guard :: "completion list \<Rightarrow> task_row \<Rightarrow> bool" where
  "complete_guard cs r \<longleftrightarrow> t_state r = Running
     \<and> (case outcome_for cs r of None \<Rightarrow> False
        | Some c \<Rightarrow> c_kind c \<noteq> Cancel \<or> t_cancel_at r \<noteq> None)"

definition complete_row :: "pg \<Rightarrow> completion \<Rightarrow> task_row \<Rightarrow> task_row" where
  "complete_row env c r = r\<lparr>
     t_state := (case c_kind c of
         Succeed \<Rightarrow> Succeeded
       | FailFinal \<Rightarrow> Failed
       | Cancel \<Rightarrow> Cancelled
       | Release \<Rightarrow> (if t_cancel_at r = None then Queued else Cancelled)
       | Fail \<Rightarrow> (if t_cancel_at r \<noteq> None then Cancelled
                  else if t_failures r + 1 < t_max_attempts r then Queued else Failed)),
     t_result := (if c_kind c = Succeed then map_option (to_jsonb env) (c_data c) else t_result r),
     t_error := (if c_kind c = Fail \<or> c_kind c = FailFinal
                 then map_option (to_jsonb env) (c_data c) else t_error r),
     t_failures := t_failures r + (if c_kind c = Fail \<or> c_kind c = FailFinal then 1 else 0),
     t_run_at := (if c_kind c = Release then tx_now env
                  else if c_kind c = Fail \<and> t_cancel_at r = None
                       \<and> t_failures r + 1 < t_max_attempts r
                  then backoff_until env r else t_run_at r),
     t_finished_at := (if c_kind c = Succeed \<or> c_kind c = FailFinal \<or> c_kind c = Cancel
                          \<or> t_cancel_at r \<noteq> None
                          \<or> (c_kind c = Fail \<and> t_failures r + 1 \<ge> t_max_attempts r)
                       then Some (tx_now env) else None),
     t_token := None, t_lease_until := None\<rparr>"

definition complete_upd :: "pg \<Rightarrow> completion list \<Rightarrow> task_row \<Rightarrow> task_row" where
  "complete_upd env cs r = (case outcome_for cs r of None \<Rightarrow> r | Some c \<Rightarrow> complete_row env c r)"

text \<open>The statement shared by worker outcomes and orphan release.\<close>

definition complete_stmt :: "pg \<Rightarrow> completion list \<Rightarrow> db \<Rightarrow> db \<times> task_row list" where
  "complete_stmt env cs d = with_events env (complete_guard cs) (complete_upd env cs) (\<lambda>_. True) d"

definition store_complete ::
  "pg \<Rightarrow> completion list \<Rightarrow> db \<Rightarrow> exn + (db \<times> (int \<times> task_state) list)" where
  "store_complete env cs d =
     (if cs = [] then Inr (d, [])
      else if length cs > 256 \<or> \<not> distinct (map c_id cs) then Inl InvalidInput
      else (let (d', applied) = complete_stmt env cs d
            in Inr (d', map (\<lambda>r. (t_id r, t_state r)) applied)))"

text \<open>\<open>_ORPHANS\<close>: the worker's running rows that it does not track, at most 256 of them.\<close>

definition orphan_outcomes :: "ustr \<Rightarrow> int list \<Rightarrow> task_row list \<Rightarrow> completion list" where
  "orphan_outcomes worker live rows =
     map (\<lambda>r. \<lparr>c_id = t_id r, c_token = the (t_token r), c_kind = Release, c_data = None\<rparr>)
       (filter (\<lambda>r. t_token r \<noteq> None)
         (order_limit t_id 256
           (filter (\<lambda>r. t_worker r = Some worker \<and> t_state r = Running \<and> t_id r \<notin> set live) rows)))"

definition store_release_orphans ::
  "pg \<Rightarrow> ustr \<Rightarrow> int list \<Rightarrow> db \<Rightarrow> db \<times> (int \<times> ustr \<times> task_state) list" where
  "store_release_orphans env worker live d =
     (let (d', applied) = complete_stmt env (orphan_outcomes worker live (tasks d)) d
      in (d', map (\<lambda>r. (t_id r, t_type r, t_state r)) applied))"

section \<open>Heartbeat and progress\<close>

definition heartbeat_guard :: "(int \<times> uuid) list \<Rightarrow> task_row \<Rightarrow> bool" where
  "heartbeat_guard renewals r \<longleftrightarrow> t_state r = Running
     \<and> (\<exists>p \<in> set renewals. fst p = t_id r \<and> t_token r = Some (snd p))"

definition heartbeat_upd :: "pg \<Rightarrow> rat \<Rightarrow> task_row \<Rightarrow> task_row" where
  "heartbeat_upd env lease_s r = r\<lparr>t_lease_until := Some (clock env + lease_s)\<rparr>"

definition store_heartbeat ::
  "pg \<Rightarrow> (int \<times> uuid) list \<Rightarrow> rat \<Rightarrow> db \<Rightarrow> exn + (db \<times> (int \<times> time option) list)" where
  "store_heartbeat env renewals lease_s d =
     (if length renewals > 1000 then Inl InvalidInput
      else if renewals = [] then Inr (d, [])
      else Inr (d\<lparr>tasks := update_where (heartbeat_guard renewals) (heartbeat_upd env lease_s) (tasks d)\<rparr>,
                map (\<lambda>r. (t_id r, t_cancel_at r))
                  (returning (heartbeat_guard renewals) (heartbeat_upd env lease_s) (tasks d))))"

definition progress_guard :: "int \<Rightarrow> uuid \<Rightarrow> task_row \<Rightarrow> bool" where
  "progress_guard tid token r \<longleftrightarrow> t_id r = tid \<and> t_state r = Running \<and> t_token r = Some token"

definition progress_upd :: "pg \<Rightarrow> ustr \<Rightarrow> task_row \<Rightarrow> task_row" where
  "progress_upd env text r = r\<lparr>t_progress := Some (to_jsonb env text)\<rparr>"

definition store_set_progress :: "pg \<Rightarrow> int \<Rightarrow> uuid \<Rightarrow> ustr \<Rightarrow> db \<Rightarrow> db \<times> bool" where
  "store_set_progress env tid token text d =
     (d\<lparr>tasks := update_where (progress_guard tid token) (progress_upd env text) (tasks d)\<rparr>,
      length (returning (progress_guard tid token) (progress_upd env text) (tasks d)) = 1)"

section \<open>Cancellation requests\<close>

definition cancel_guard :: "int \<Rightarrow> task_row \<Rightarrow> bool" where
  "cancel_guard tid r \<longleftrightarrow> t_id r = tid \<and> (t_state r = Queued \<or> t_state r = Running)"

definition cancel_upd :: "pg \<Rightarrow> task_row \<Rightarrow> task_row" where
  "cancel_upd env r = r\<lparr>
     t_cancel_at := (case t_cancel_at r of None \<Rightarrow> Some (tx_now env) | Some t \<Rightarrow> Some t),
     t_state := (if t_state r = Queued then Cancelled else t_state r),
     t_finished_at := (if t_state r = Queued then Some (tx_now env) else t_finished_at r)\<rparr>"

definition store_request_cancel :: "pg \<Rightarrow> int \<Rightarrow> db \<Rightarrow> db \<times> task_state option" where
  "store_request_cancel env tid d =
     (let (d', applied) =
        with_events env (cancel_guard tid) (cancel_upd env) (\<lambda>a. t_state a = Cancelled) d
      in (d', case applied of [] \<Rightarrow> None | r # _ \<Rightarrow> Some (t_state r)))"

section \<open>The reaper\<close>

definition lease_key :: "task_row \<Rightarrow> time" where
  "lease_key r = (case t_lease_until r of None \<Rightarrow> 0 | Some t \<Rightarrow> t)"

definition lease_expired :: "time \<Rightarrow> task_row \<Rightarrow> bool" where
  "lease_expired now r \<longleftrightarrow> t_state r = Running
     \<and> (case t_lease_until r of None \<Rightarrow> False | Some t \<Rightarrow> t < now)"

definition expired_ids :: "pg \<Rightarrow> nat \<Rightarrow> (int \<Rightarrow> bool) \<Rightarrow> task_row list \<Rightarrow> int list" where
  "expired_ids env limit busy rows =
     map t_id (order_limit lease_key limit
       (filter (\<lambda>r. lease_expired (tx_now env) r \<and> \<not> busy (t_id r)) rows))"

definition text_or :: "ustr option \<Rightarrow> ustr \<Rightarrow> ustr" where
  "text_or v alt = (case v of None \<Rightarrow> alt | Some s \<Rightarrow> s)"

definition lease_expired_error :: "task_row \<Rightarrow> json" where
  "lease_expired_error r = JObj
     [(lit ''type'', JStr (lit ''LeaseExpired'')),
      (lit ''message'', JStr (lit ''lease expired: worker '' @ text_or (t_worker r) (lit ''?'')
                              @ lit '' stopped heartbeating'')),
      (lit ''worker'', (case t_worker r of None \<Rightarrow> JNull | Some w \<Rightarrow> JStr w)),
      (lit ''attempt'', JInt (t_attempt r))]"

definition reap_upd :: "pg \<Rightarrow> task_row \<Rightarrow> task_row" where
  "reap_upd env r = r\<lparr>
     t_token := None, t_lease_until := None,
     t_failures := (if t_cancel_at r = None then t_failures r + 1 else t_failures r),
     t_error := (if t_cancel_at r = None then Some (lease_expired_error r) else t_error r),
     t_state := (if t_cancel_at r \<noteq> None then Cancelled
                 else if t_failures r + 1 < t_max_attempts r then Queued else Failed),
     t_run_at := (if t_cancel_at r = None \<and> t_failures r + 1 < t_max_attempts r
                  then backoff_until env r else t_run_at r),
     t_finished_at := (if t_cancel_at r \<noteq> None \<or> t_failures r + 1 \<ge> t_max_attempts r
                       then Some (tx_now env) else None)\<rparr>"

definition reap_guard :: "int list \<Rightarrow> task_row \<Rightarrow> bool" where
  "reap_guard ids r \<longleftrightarrow> t_id r \<in> set ids"

definition store_reap ::
  "pg \<Rightarrow> nat \<Rightarrow> (int \<Rightarrow> bool) \<Rightarrow> db \<Rightarrow> db \<times> (int \<times> ustr \<times> task_state) list" where
  "store_reap env limit busy d =
     (let (d', applied) = with_events env (reap_guard (expired_ids env limit busy (tasks d)))
                            (reap_upd env) (\<lambda>_. True) d
      in (d', map (\<lambda>r. (t_id r, t_type r, t_state r)) applied))"

section \<open>Reads and manual requeue\<close>

definition store_get_task :: "db \<Rightarrow> int \<Rightarrow> task_row option" where
  "store_get_task d tid = find_row (\<lambda>r. t_id r = tid) (tasks d)"

definition requeue_guard :: "int \<Rightarrow> task_row \<Rightarrow> bool" where
  "requeue_guard tid r \<longleftrightarrow> t_id r = tid \<and> (t_state r = Failed \<or> t_state r = Cancelled)"

definition requeue_upd :: "pg \<Rightarrow> task_row \<Rightarrow> task_row" where
  "requeue_upd env r = r\<lparr>t_state := Queued, t_run_at := tx_now env, t_failures := 0,
     t_cancel_at := None, t_finished_at := None, t_token := None, t_lease_until := None\<rparr>"

text \<open>
  The statement raises \<open>UniqueViolation\<close> when the updated table would break the partial
  unique index; the database is then unchanged. Otherwise no row means an unknown or a
  non-requeueable task.
\<close>

definition store_requeue :: "pg \<Rightarrow> int \<Rightarrow> db \<Rightarrow> exn + (db \<times> ustr)" where
  "store_requeue env tid d =
     (if \<not> active_keys_unique (update_where (requeue_guard tid) (requeue_upd env) (tasks d))
      then Inl NotRequeueable
      else (let (d', applied) =
              with_events env (requeue_guard tid) (requeue_upd env) (\<lambda>_. True) d
            in case applied of
                 r # _ \<Rightarrow> Inr (d', t_type r)
               | [] \<Rightarrow> (case store_get_task d tid of
                           None \<Rightarrow> Inl TaskNotFound | Some _ \<Rightarrow> Inl NotRequeueable)))"

section \<open>Every transition keeps the tables' invariant\<close>

lemma outcome_for_SomeD:
  "outcome_for cs r = Some c \<Longrightarrow> c \<in> set cs \<and> c_id c = t_id r \<and> t_token r = Some (c_token c)"
  by (auto simp: outcome_for_def dest: find_row_SomeD)

lemma complete_row_inv:
  assumes "row_inv r" "t_state r = Running" "c_kind c = Cancel \<Longrightarrow> t_cancel_at r \<noteq> None"
  shows "row_inv (complete_row env c r)"
  using assms by (cases "c_kind c") (auto simp: row_inv_def complete_row_def)

interpretation complete_tr: row_transition "complete_guard cs" "complete_upd env cs" for cs env
proof
  fix r
  show "t_id (complete_upd env cs r) = t_id r" "t_type (complete_upd env cs r) = t_type r"
    "t_key (complete_upd env cs r) = t_key r"
    by (simp_all add: complete_upd_def complete_row_def split: option.split)
  assume r: "row_inv r" "complete_guard cs r"
  show "row_inv (complete_upd env cs r)"
    using r by (auto simp: complete_guard_def complete_upd_def intro!: complete_row_inv
        split: option.splits)
  show "active (t_state r)" using r by (simp add: complete_guard_def)
qed

interpretation heartbeat_tr: row_transition "heartbeat_guard rs" "heartbeat_upd env l" for rs env l
  by unfold_locales (auto simp: heartbeat_upd_def heartbeat_guard_def row_inv_def)

interpretation progress_tr: row_transition "progress_guard i tok" "progress_upd env s" for i tok env s
  by unfold_locales (auto simp: progress_upd_def progress_guard_def row_inv_def)

interpretation cancel_tr: row_transition "cancel_guard i" "cancel_upd env" for i env
  by unfold_locales (auto simp: cancel_upd_def cancel_guard_def row_inv_def split: option.splits)

text \<open>
  The reaper's \<open>UPDATE\<close> matches by id alone; it finds the locked rows again because ids are
  unique, so only expired rows change.
\<close>

interpretation reap_tr: row_transition "\<lambda>r. lease_expired now r \<and> reap_guard ids r" "reap_upd env"
  for now ids env
  by unfold_locales (auto simp: reap_upd_def lease_expired_def row_inv_def)

lemma expired_idsD:
  assumes "distinct (map t_id rows)" "r \<in> set rows" "t_id r \<in> set (expired_ids env limit busy rows)"
  shows "lease_expired (tx_now env) r" "\<not> busy (t_id r)"
proof -
  from assms(3) obtain s where s: "s \<in> set rows" "t_id s = t_id r"
    "lease_expired (tx_now env) s" "\<not> busy (t_id s)"
    by (auto simp: expired_ids_def dest!: in_order_limit)
  from key_unique[OF assms(1) assms(2) s(1)] s(2) have "s = r" by simp
  with s show "lease_expired (tx_now env) r" "\<not> busy (t_id r)" by simp_all
qed

lemma reap_stmt_eq:
  "distinct (map t_id (tasks d)) \<Longrightarrow>
    with_events env (reap_guard (expired_ids env limit busy (tasks d))) u p d
    = with_events env (\<lambda>r. lease_expired (tx_now env) r
        \<and> reap_guard (expired_ids env limit busy (tasks d)) r) u p d"
  by (rule with_events_cong) (auto simp: reap_guard_def dest: expired_idsD)

interpretation requeue_up: row_update "requeue_guard i" "requeue_upd env" for i env
  by unfold_locales (auto simp: requeue_upd_def requeue_guard_def row_inv_def)

lemma db_inv_complete [inv_intros]: "db_inv d \<Longrightarrow> db_inv (fst (complete_stmt env cs d))"
  by (simp add: complete_stmt_def complete_tr.db_inv_with_events)

lemma db_inv_store_complete [inv_intros]:
  "store_complete env cs d = Inr (d', out) \<Longrightarrow> db_inv d \<Longrightarrow> db_inv d'"
  using db_inv_complete [of d env cs]
  by (auto simp: store_complete_def Let_def case_prod_beta split: if_splits)

lemma db_inv_release_orphans [inv_intros]:
  "db_inv d \<Longrightarrow> db_inv (fst (store_release_orphans env w live d))"
  by (simp add: store_release_orphans_def Let_def case_prod_beta db_inv_complete)

lemma db_inv_heartbeat [inv_intros]:
  "store_heartbeat env rs l d = Inr (d', out) \<Longrightarrow> db_inv d \<Longrightarrow> db_inv d'"
  by (auto simp: store_heartbeat_def heartbeat_tr.db_inv_update split: if_splits)

lemma db_inv_progress [inv_intros]:
  "db_inv d \<Longrightarrow> db_inv (fst (store_set_progress env i tok s d))"
  by (simp add: store_set_progress_def progress_tr.db_inv_update)

lemma db_inv_request_cancel [inv_intros]:
  "db_inv d \<Longrightarrow> db_inv (fst (store_request_cancel env i d))"
  by (simp add: store_request_cancel_def Let_def case_prod_beta cancel_tr.db_inv_with_events)

lemma db_inv_reap [inv_intros]:
  "db_inv d \<Longrightarrow> db_inv (fst (store_reap env limit busy d))"
  by (simp add: store_reap_def Let_def case_prod_beta reap_stmt_eq db_inv_ids
      reap_tr.db_inv_with_events)

lemma db_inv_requeue [inv_intros]:
  assumes "store_requeue env i d = Inr (d', ty)" "db_inv d"
  shows "db_inv d'"
proof -
  let ?rows = "update_where (requeue_guard i) (requeue_upd env) (tasks d)"
  from assms(1) have "active_keys_unique ?rows"
    and d': "d' = fst (with_events env (requeue_guard i) (requeue_upd env) (\<lambda>_. True) d)"
    by (auto simp: store_requeue_def Let_def case_prod_beta split: if_splits list.splits option.splits)
  with assms(2) have "db_inv (d\<lparr>tasks := ?rows\<rparr>)"
    by (simp add: db_inv_def requeue_up.tasks_inv_update_keys)
  then show ?thesis by (simp add: d' with_events_def Let_def db_inv_publish)
qed

end
