(* ===== verification/Config.thy ===== *)
theory Config
  imports Model
begin

text \<open>
  \<open>fronta/config.py\<close>: the settings every process reads, their field bounds and the relations
  between them, and the list-valued server settings. Reading the environment and converting its
  texts is the settings library's; the model starts from the converted values, all of them
  finite. The server and sandbox texts of the record that nothing here computes with are left
  out.
\<close>

record settings =
  lease_s :: rat
  heartbeat_s :: rat
  reaper_interval_s :: rat
  poll_interval_s :: rat
  grace_s :: rat
  kill_timeout_s :: rat
  concurrency :: int
  pool_size :: int
  connect_timeout_s :: rat
  statement_timeout_s :: rat
  retention_s :: rat
  purge_interval_s :: rat
  purge_batch :: int
  payload_cap :: int
  result_cap :: int
  progress_cap :: int
  error_cap :: int
  list_page_size :: int
  list_page_max :: int
  server_port :: int
  server_allowed_hosts :: "ustr option"
  server_allowed_origins :: "ustr option"

definition default_settings :: settings where
  "default_settings = \<lparr>lease_s = 30, heartbeat_s = 10, reaper_interval_s = 15, poll_interval_s = 1,
     grace_s = 30, kill_timeout_s = 5, concurrency = 10, pool_size = 4, connect_timeout_s = 10,
     statement_timeout_s = 30, retention_s = 7 * 86400, purge_interval_s = 600, purge_batch = 1000,
     payload_cap = MIB, result_cap = MIB, progress_cap = 64 * KIB, error_cap = 64 * KIB,
     list_page_size = 50, list_page_max = 200, server_port = 8000, server_allowed_hosts = None,
     server_allowed_origins = None\<rparr>"

text \<open>The bounds declared on the fields.\<close>

definition field_bounds :: "settings \<Rightarrow> bool" where
  "field_bounds s \<longleftrightarrow>
     lease_s s > 0 \<and> heartbeat_s s > 0 \<and> reaper_interval_s s > 0 \<and> poll_interval_s s > 0
     \<and> grace_s s \<ge> 0 \<and> kill_timeout_s s > 0
     \<and> concurrency s \<ge> 1 \<and> pool_size s \<ge> 1 \<and> connect_timeout_s s \<ge> 1
     \<and> statement_timeout_s s \<ge> 1 / 1000
     \<and> retention_s s \<ge> 0 \<and> purge_interval_s s > 0 \<and> purge_batch s \<ge> 1
     \<and> payload_cap s \<ge> KIB \<and> result_cap s \<ge> KIB \<and> progress_cap s \<ge> 64 \<and> error_cap s \<ge> KIB
     \<and> list_page_size s \<ge> 1 \<and> list_page_max s \<ge> 1
     \<and> 1 \<le> server_port s \<and> server_port s \<le> 65535"

text \<open>\<open>_check_relations\<close>.\<close>

definition check_relations :: "settings \<Rightarrow> exn + settings" where
  "check_relations s =
     (if heartbeat_s s * 2 > lease_s s then Inl ValueError
      else if list_page_size s > list_page_max s then Inl ValueError
      else Inr s)"

definition mk_settings :: "settings \<Rightarrow> exn + settings" where
  "mk_settings s = (if field_bounds s then check_relations s else Inl ValueError)"

definition settings_ok :: "settings \<Rightarrow> bool" where
  "settings_ok s \<longleftrightarrow> mk_settings s = Inr s"

definition renew_timeout_s :: "settings \<Rightarrow> rat" where
  "renew_timeout_s s = min (statement_timeout_s s) (max (1 / 20) ((lease_s s - heartbeat_s s) / 2))"

section \<open>Comma-separated settings\<close>

text \<open>The code points \<open>str.strip\<close> removes.\<close>

definition py_space :: "nat \<Rightarrow> bool" where
  "py_space c \<longleftrightarrow> (9 \<le> c \<and> c \<le> 13) \<or> (28 \<le> c \<and> c \<le> 32) \<or> c = 133 \<or> c = 160 \<or> c = 5760
     \<or> (8192 \<le> c \<and> c \<le> 8202) \<or> c = 8232 \<or> c = 8233 \<or> c = 8239 \<or> c = 8287 \<or> c = 12288"

definition strip :: "ustr \<Rightarrow> ustr" where
  "strip s = rev (dropWhile py_space (rev (dropWhile py_space s)))"

fun split_on :: "nat \<Rightarrow> ustr \<Rightarrow> ustr list" where
  "split_on sep [] = [[]]"
| "split_on sep (c # s) =
     (if c = sep then [] # split_on sep s
      else (case split_on sep s of [] \<Rightarrow> [[c]] | p # ps \<Rightarrow> (c # p) # ps))"

definition split_setting :: "ustr option \<Rightarrow> ustr list" where
  "split_setting value = (case value of None \<Rightarrow> []
     | Some v \<Rightarrow> filter (\<lambda>item. item \<noteq> []) (map strip (split_on 44 v)))"

definition allowed_hosts :: "settings \<Rightarrow> ustr list" where
  "allowed_hosts s = split_setting (server_allowed_hosts s)"

definition allowed_origins :: "settings \<Rightarrow> ustr list" where
  "allowed_origins s = split_setting (server_allowed_origins s)"

section \<open>Facts\<close>

lemma settings_okD:
  assumes "settings_ok s"
  shows "field_bounds s" "2 * heartbeat_s s \<le> lease_s s" "list_page_size s \<le> list_page_max s"
  using assms by (auto simp: settings_ok_def mk_settings_def check_relations_def split: if_splits)

lemma default_settings_ok: "settings_ok default_settings"
  by (simp add: settings_ok_def mk_settings_def check_relations_def field_bounds_def
      default_settings_def KIB_def MIB_def)

text \<open>
  A renewal started when one heartbeat has passed and cut off by its budget leaves room for a
  second one before the lease ends.
\<close>

lemma renew_budget_fits:
  assumes "settings_ok s" "lease_s s - heartbeat_s s \<ge> 1 / 10"
  shows "0 < renew_timeout_s s" "heartbeat_s s + 2 * renew_timeout_s s \<le> lease_s s"
proof -
  let ?slack = "(lease_s s - heartbeat_s s) / 2"
  have "max (1 / 20) ?slack = ?slack" using assms(2) by simp
  then have t: "renew_timeout_s s \<le> ?slack" by (simp add: renew_timeout_s_def)
  have "heartbeat_s s + 2 * renew_timeout_s s \<le> heartbeat_s s + 2 * ?slack"
    using t by (intro add_left_mono mult_left_mono) auto
  also have "\<dots> = lease_s s" by (simp add: field_simps)
  finally show "heartbeat_s s + 2 * renew_timeout_s s \<le> lease_s s" .
  show "0 < renew_timeout_s s"
    using settings_okD(1) [OF assms(1)] by (simp add: renew_timeout_s_def field_bounds_def)
qed

lemma split_on_pieces: "p \<in> set (split_on sep s) \<Longrightarrow> sep \<notin> set p"
proof (induction sep s arbitrary: p rule: split_on.induct)
  case (2 sep c s)
  show ?case
  proof (cases "split_on sep s")
    case Nil
    then show ?thesis using 2 by (auto split: if_splits)
  next
    case (Cons q qs)
    have IH: "sep \<notin> set q'" if "q' \<in> set (split_on sep s)" for q'
      using 2(1,2) that by (cases "c = sep") auto
    show ?thesis using 2(3) Cons IH by (auto split: if_splits)
  qed
qed simp

lemma split_on_append: "sep \<notin> set a \<Longrightarrow> split_on sep (a @ sep # s) = a # split_on sep s"
  by (induction a) auto

lemma split_on_single: "sep \<notin> set a \<Longrightarrow> split_on sep a = [a]"
  by (induction a) auto

lemma set_strip: "set (strip s) \<subseteq> set s"
  unfolding strip_def using set_dropWhileD by (metis set_rev subsetI)

lemma split_setting_items:
  "item \<in> set (split_setting v) \<Longrightarrow> item \<noteq> [] \<and> 44 \<notin> set item"
  using set_strip split_on_pieces by (fastforce simp: split_setting_def split: option.splits)

end
