(* ===== verification/Controller.thy ===== *)
theory Controller
  imports Truncate Transitions Config
begin

text \<open>
  The attempt controller of \<open>worker.py\<close> (\<open>Attempt\<close>): the stop cause, the protocol that stops,
  kills and verifies an execution, and the one outcome it records.

  What the controller cannot decide is a scenario: which causes are signalled during each of its
  waits, at which wait the runner has ended and how, and what each call of \<open>kill\<close> answers. Waits
  are numbered 0 (the first race), 1 (stop and grace), 2 (kill), 3 (cancelled process runner)
  and 4 (verification). The result is the trace of the controller's actions. The verification
  loop, which waits for a sandbox as long as the kernel holds it, runs on fuel.
\<close>

section \<open>Causes and outcomes\<close>

datatype cause = Timeout | CancelRequested | Shutdown | Lost

text \<open>\<open>stop\<close>: the first cause wins.\<close>

definition stop_cause :: "cause \<Rightarrow> cause option \<Rightarrow> cause option" where
  "stop_cause c recorded = (case recorded of None \<Rightarrow> Some c | Some first \<Rightarrow> Some first)"

definition signal_all :: "cause list \<Rightarrow> cause option \<Rightarrow> cause option" where
  "signal_all cs recorded = fold stop_cause cs recorded"

datatype runner_end =
    Returned ustr
  | RaisedFinal raised
  | RaisedProcess "(ustr \<times> json) list"
  | RaisedOther raised
  | SelfCancelled

section \<open>Error documents\<close>

text \<open>\<open>str(metadata.get("type", "Exception"))[:64]\<close>.\<close>

definition meta_type :: "(json \<Rightarrow> ustr) \<Rightarrow> (ustr \<times> json) list \<Rightarrow> ustr" where
  "meta_type ps md = take 64 (case obj_get md (lit ''type'') of
     None \<Rightarrow> lit ''Exception'' | Some (JStr s) \<Rightarrow> s | Some v \<Rightarrow> ps v)"

definition metadata_json :: "(rat \<Rightarrow> ustr) \<Rightarrow> (json \<Rightarrow> ustr) \<Rightarrow> (ustr \<times> json) list \<Rightarrow> exn + ustr" where
  "metadata_json fr ps md = (case encode_tree fr (JObj md) of
     Inr s \<Rightarrow> Inr s
   | Inl e \<Rightarrow> if e = Unstorable \<or> e = TypeError \<or> e = RecursionError
              then encode_tree fr (JObj [(lit ''type'', JStr (meta_type ps md))]) else Inl e)"

definition error_json :: "(rat \<Rightarrow> ustr) \<Rightarrow> (json \<Rightarrow> ustr) \<Rightarrow> int \<Rightarrow> raised \<Rightarrow> exn + ustr" where
  "error_json fr ps cap x = (case error_metadata fr ps x cap of
     Inr md \<Rightarrow> metadata_json fr ps md
   | Inl _ \<Rightarrow> metadata_json fr ps [(lit ''type'', JStr (x_qualname x))])"

definition self_cancelled_doc :: json where
  "self_cancelled_doc = JObj [(lit ''type'', JStr (lit ''CancelledError'')),
     (lit ''message'', JStr (lit ''handler cancelled itself''))]"

definition timeout_doc :: "(rat \<Rightarrow> ustr) \<Rightarrow> rat \<Rightarrow> json" where
  "timeout_doc fr t = JObj [(lit ''type'', JStr (lit ''AttemptTimeout'')),
     (lit ''message'', JStr (lit ''attempt exceeded '' @ fr t @ lit '' s''))]"

type_synonym outcome = "exn + (completion_kind \<times> ustr option) option"

definition with_data :: "completion_kind \<Rightarrow> exn + ustr \<Rightarrow> outcome" where
  "with_data k m = map_sum id (\<lambda>s. Some (k, Some s)) m"

text \<open>\<open>_finish_completed\<close> and \<open>_finish_stopped\<close>: an error, no write, or one outcome.\<close>

definition finish_completed ::
  "(rat \<Rightarrow> ustr) \<Rightarrow> (json \<Rightarrow> ustr) \<Rightarrow> int \<Rightarrow> cause option \<Rightarrow> runner_end \<Rightarrow> outcome" where
  "finish_completed fr ps cap recorded end_of =
     (if recorded = Some Lost then Inr None
      else (case end_of of
        Returned s \<Rightarrow> Inr (Some (Succeed, Some s))
      | RaisedFinal x \<Rightarrow> with_data FailFinal (error_json fr ps cap x)
      | RaisedProcess md \<Rightarrow> with_data Fail (metadata_json fr ps md)
      | SelfCancelled \<Rightarrow> with_data Fail (encode_tree fr self_cancelled_doc)
      | RaisedOther x \<Rightarrow> with_data Fail (error_json fr ps cap x)))"

definition finish_stopped :: "(rat \<Rightarrow> ustr) \<Rightarrow> rat \<Rightarrow> cause option \<Rightarrow> outcome" where
  "finish_stopped fr timeout recorded =
     (case recorded of
        Some Timeout \<Rightarrow> with_data Fail (encode_tree fr (timeout_doc fr timeout))
      | Some CancelRequested \<Rightarrow> Inr (Some (Cancel, None))
      | Some Shutdown \<Rightarrow> Inr (Some (Release, None))
      | _ \<Rightarrow> Inr None)"

section \<open>The settlement protocol\<close>

record scenario =
  sc_process :: bool
  sc_signals :: "nat \<Rightarrow> cause list"
  sc_end :: "nat option"
  sc_result :: runner_end
  sc_kill :: "nat \<Rightarrow> bool"

datatype action = DoStop | DoKill bool | DoCancelRunner | DoWrite completion_kind "ustr option" | DoCrash exn

definition ended :: "scenario \<Rightarrow> nat \<Rightarrow> bool" where
  "ended sc w = (case sc_end sc of None \<Rightarrow> False | Some e \<Rightarrow> e \<le> w)"

text \<open>\<open>while not await self._kill_execution()\<close>: the index behind the first answer that is true.\<close>

fun verify_dead :: "nat \<Rightarrow> (nat \<Rightarrow> bool) \<Rightarrow> nat \<Rightarrow> nat option" where
  "verify_dead 0 answers i = None"
| "verify_dead (Suc fuel) answers i =
     (if answers i then Some (Suc i) else verify_dead fuel answers (Suc i))"

definition outcome_action :: "outcome \<Rightarrow> action list" where
  "outcome_action m = (case m of Inl e \<Rightarrow> [DoCrash e] | Inr None \<Rightarrow> [] | Inr (Some (k, v)) \<Rightarrow> [DoWrite k v])"

definition stop_recorded :: "scenario \<Rightarrow> cause option \<Rightarrow> cause option" where
  "stop_recorded sc recorded = (case signal_all (sc_signals sc 0) recorded of
     None \<Rightarrow> Some Timeout | Some c \<Rightarrow> Some c)"

text \<open>
  The first race is lost when the runner has not ended; the runner that outlives grace is killed
  (call 0 of \<open>kill\<close>; a coroutine's kill always answers true), and a process runner that
  outlives the kill is cancelled.
\<close>

definition stop_trace :: "scenario \<Rightarrow> action list" where
  "stop_trace sc = (if ended sc 0 then [] else [DoStop])
     @ (if ended sc 1 then [] else [DoKill (sc_process sc \<longrightarrow> sc_kill sc 0)])
     @ (if \<not> ended sc 1 \<and> \<not> ended sc 2 \<and> sc_process sc then [DoCancelRunner] else [])"

definition fatal_end :: "scenario \<Rightarrow> bool" where
  "fatal_end sc \<longleftrightarrow> \<not> ended sc 1 \<and> \<not> ended sc 2 \<and> \<not> sc_process sc"

definition kill_index :: "scenario \<Rightarrow> nat" where
  "kill_index sc = (if ended sc 1 then 0 else 1)"

definition verified_at :: "nat \<Rightarrow> scenario \<Rightarrow> nat option" where
  "verified_at fuel sc = (if sc_process sc then verify_dead fuel (sc_kill sc) (kill_index sc)
     else Some (kill_index sc))"

definition settled_outcome ::
  "(rat \<Rightarrow> ustr) \<Rightarrow> (json \<Rightarrow> ustr) \<Rightarrow> int \<Rightarrow> rat \<Rightarrow> cause option \<Rightarrow> scenario \<Rightarrow> outcome" where
  "settled_outcome fr ps cap timeout recorded sc =
     (if ended sc 0
      then finish_completed fr ps cap
             (signal_all (concat (map (sc_signals sc) [0, 1, 2, 3, 4])) recorded) (sc_result sc)
      else finish_stopped fr timeout
             (signal_all (concat (map (sc_signals sc) [1, 2, 3, 4])) (stop_recorded sc recorded)))"

text \<open>
  \<open>_end_runner\<close>: a sandbox is killed once more and its runner awaited; a coroutine that is still running
  is cancelled, unless it is being cancelled already, and is fatal if it runs on (\<open>late\<close>).
\<close>

definition end_runner :: "bool \<Rightarrow> bool \<Rightarrow> bool \<Rightarrow> bool \<Rightarrow> bool \<Rightarrow> bool \<Rightarrow> action list \<times> bool" where
  "end_runner process ended_runner fatal cancelling late answer =
     (if process then ([DoKill answer, DoCancelRunner], fatal)
      else if ended_runner \<or> fatal then ([], fatal)
      else (if cancelling then [] else [DoCancelRunner], late))"

definition cleanup :: "scenario \<Rightarrow> nat \<Rightarrow> action list \<times> bool" where
  "cleanup sc k = end_runner (sc_process sc) (ended sc 2) (fatal_end sc) False False (sc_kill sc k)"

text \<open>
  \<open>_run_execution\<close> with its \<open>finally\<close> clause (\<open>_end_runner\<close>): the trace and whether the worker
  must exit. A sandbox is verified dead before the outcome is written.
\<close>

definition run_execution ::
  "(rat \<Rightarrow> ustr) \<Rightarrow> (json \<Rightarrow> ustr) \<Rightarrow> int \<Rightarrow> rat \<Rightarrow> nat \<Rightarrow> cause option \<Rightarrow> scenario
     \<Rightarrow> (action list \<times> bool) option" where
  "run_execution fr ps cap timeout fuel recorded sc =
     (case verified_at fuel sc of
        None \<Rightarrow> None
      | Some k \<Rightarrow> Some (stop_trace sc @ map (\<lambda>i. DoKill (sc_kill sc i)) [kill_index sc..<k]
            @ outcome_action (settled_outcome fr ps cap timeout recorded sc) @ fst (cleanup sc k),
          snd (cleanup sc k)))"

text \<open>
  A controller that is cancelled at one of its waits, by the drain or by a cancelled worker: the
  actions that were over by then (an outcome: submitted), and the \<open>finally\<close> clause. The scenario's
  runner has ended by then or not, is being cancelled already or not, and runs on or not.
\<close>

record cut =
  cu_after :: nat
  cu_ended :: bool
  cu_fatal :: bool
  cu_cancelling :: bool
  cu_late :: bool
  cu_kill :: bool

definition protocol_trace ::
  "(rat \<Rightarrow> ustr) \<Rightarrow> (json \<Rightarrow> ustr) \<Rightarrow> int \<Rightarrow> rat \<Rightarrow> nat \<Rightarrow> cause option \<Rightarrow> scenario \<Rightarrow> action list" where
  "protocol_trace fr ps cap timeout fuel recorded sc = stop_trace sc @ (case verified_at fuel sc of
     None \<Rightarrow> map (\<lambda>i. DoKill (sc_kill sc i)) [kill_index sc..<kill_index sc + fuel]
   | Some k \<Rightarrow> map (\<lambda>i. DoKill (sc_kill sc i)) [kill_index sc..<k]
       @ outcome_action (settled_outcome fr ps cap timeout recorded sc))"

definition cut_run ::
  "(rat \<Rightarrow> ustr) \<Rightarrow> (json \<Rightarrow> ustr) \<Rightarrow> int \<Rightarrow> rat \<Rightarrow> nat \<Rightarrow> cause option \<Rightarrow> scenario \<Rightarrow> cut \<Rightarrow> action list \<times> bool" where
  "cut_run fr ps cap timeout fuel recorded sc cu =
     apfst ((@) (take (cu_after cu) (protocol_trace fr ps cap timeout fuel recorded sc)))
       (end_runner (sc_process sc) (cu_ended cu) (cu_fatal cu \<and> fatal_end sc) (cu_cancelling cu) (cu_late cu) (cu_kill cu))"

definition controlled ::
  "(rat \<Rightarrow> ustr) \<Rightarrow> (json \<Rightarrow> ustr) \<Rightarrow> int \<Rightarrow> rat \<Rightarrow> nat \<Rightarrow> cause option \<Rightarrow> scenario \<Rightarrow> cut option
     \<Rightarrow> (action list \<times> bool) option" where
  "controlled fr ps cap timeout fuel recorded sc c = (case c of
     None \<Rightarrow> run_execution fr ps cap timeout fuel recorded sc
   | Some cu \<Rightarrow> Some (cut_run fr ps cap timeout fuel recorded sc cu))"

text \<open>
  \<open>run\<close> with \<open>_fresh_lease\<close>: a late dispatch renews the lease first. \<open>renewed\<close> is the recorded
  cause after that renewal and whether the database confirmed it.
\<close>

definition attempt_run ::
  "(rat \<Rightarrow> ustr) \<Rightarrow> (json \<Rightarrow> ustr) \<Rightarrow> settings \<Rightarrow> rat \<Rightarrow> nat \<Rightarrow> rat \<Rightarrow> cause option \<times> bool \<Rightarrow> scenario
     \<Rightarrow> (action list \<times> bool) option" where
  "attempt_run fr ps s timeout fuel delayed renewed sc =
     (if delayed \<le> heartbeat_s s then run_execution fr ps (error_cap s) timeout fuel None sc
      else if fst renewed = Some Lost then Some ([], False)
      else if \<not> snd renewed then Some ([DoWrite Release None], False)
      else run_execution fr ps (error_cap s) timeout fuel (fst renewed) sc)"

text \<open>\<open>TaskContext.progress\<close>: a lost token stops the attempt.\<close>

definition ctx_progress ::
  "(rat \<Rightarrow> ustr) \<Rightarrow> pg \<Rightarrow> settings \<Rightarrow> heap \<Rightarrow> pyval \<Rightarrow> int \<Rightarrow> uuid \<Rightarrow> cause option \<Rightarrow> db
     \<Rightarrow> exn + (db \<times> cause option)" where
  "ctx_progress fr env s h v tid token recorded d =
     (case encode_capped fr h v (progress_cap s) of
        Inl e \<Rightarrow> Inl (if e = OverCap then ProgressTooLarge else e)
      | Inr text \<Rightarrow> (case store_set_progress env tid token text d of
          (d', stored) \<Rightarrow> Inr (d', if stored then recorded else stop_cause Lost recorded)))"

section \<open>Facts\<close>

lemma stop_cause_Some [simp]: "stop_cause c (Some x) = Some x"
  by (simp add: stop_cause_def)

lemma signal_all_Some [simp]: "signal_all cs (Some x) = Some x"
  by (induction cs) (simp_all add: signal_all_def)

lemma signal_all_hd: "signal_all cs None = (case cs of [] \<Rightarrow> None | c # _ \<Rightarrow> Some c)"
  using signal_all_Some by (cases cs) (simp_all add: signal_all_def stop_cause_def)

lemma verify_dead_SomeD:
  "verify_dead fuel answers i = Some k \<Longrightarrow> i < k \<and> answers (k - 1) \<and> (\<forall>j. i \<le> j \<and> j < k - 1 \<longrightarrow> \<not> answers j)"
proof (induction fuel answers i rule: verify_dead.induct)
  case (2 fuel answers i)
  show ?case
  proof (cases "answers i")
    case True
    then show ?thesis using 2 by auto
  next
    case False
    with 2 have k: "Suc i < k" "answers (k - 1)" "\<forall>j. Suc i \<le> j \<and> j < k - 1 \<longrightarrow> \<not> answers j" by auto
    have "\<not> answers j" if "i \<le> j" "j < k - 1" for j
      using that k(3) False by (cases "i = j") auto
    then show ?thesis using k by auto
  qed
qed simp

lemma verify_dead_ends:
  "answers (i + n) \<Longrightarrow> n < fuel \<Longrightarrow> \<exists>k. verify_dead fuel answers i = Some k"
proof (induction fuel arbitrary: i n)
  case (Suc fuel)
  then show ?case
  proof (cases n)
    case (Suc m)
    then show ?thesis using Suc.IH [of "Suc i" m] Suc.prems by auto
  qed auto
qed simp

definition is_write :: "action \<Rightarrow> bool" where
  "is_write a \<longleftrightarrow> (case a of DoWrite k v \<Rightarrow> True | _ \<Rightarrow> False)"

lemma is_write_simps [simp]:
  "is_write (DoWrite k v)" "\<not> is_write DoStop" "\<not> is_write (DoKill b)" "\<not> is_write DoCancelRunner"
  "\<not> is_write (DoCrash e)"
  by (simp_all add: is_write_def)

lemma writes_outcome: "length (filter is_write (outcome_action m)) \<le> 1"
  by (auto simp: outcome_action_def split: sum.split option.split)

lemma cleanup_simps: "snd (cleanup sc k) = fatal_end sc"
  "fst (cleanup sc k) = (if sc_process sc then [DoKill (sc_kill sc k), DoCancelRunner] else [])"
  by (auto simp: cleanup_def end_runner_def fatal_end_def ended_def split: option.splits)

lemma end_runner_writes [simp]: "filter is_write (fst (end_runner p e f c l a)) = []"
  by (simp add: end_runner_def)

text \<open>The shape of every trace: stopping, killing, verification, at most one outcome, cleanup.\<close>

lemma protocol_shape:
  "\<exists>pre m. protocol_trace fr ps cap timeout fuel recorded sc = pre @ m \<and> filter is_write pre = []
    \<and> (m = [] \<or> m = outcome_action (settled_outcome fr ps cap timeout recorded sc) \<and> (sc_process sc \<longrightarrow> (\<exists>p. pre = p @ [DoKill True])))"
proof (cases "verified_at fuel sc")
  case None
  then show ?thesis
    by (intro exI [of _ "protocol_trace fr ps cap timeout fuel recorded sc"] exI [of _ "[]"])
      (auto simp: protocol_trace_def stop_trace_def filter_empty_conv)
next
  case (Some k)
  let ?pre = "stop_trace sc @ map (\<lambda>i. DoKill (sc_kill sc i)) [kill_index sc..<k]"
  have "filter is_write ?pre = []" by (auto simp: stop_trace_def filter_empty_conv)
  moreover have "\<exists>p. ?pre = p @ [DoKill True]" if "sc_process sc"
  proof -
    have v: "kill_index sc < k" "sc_kill sc (k - 1)"
      using Some that verify_dead_SomeD [of fuel "sc_kill sc" "kill_index sc" k] by (auto simp: verified_at_def)
    then have "[kill_index sc..<k] = [kill_index sc..<k - 1] @ [k - 1]"
      by (metis Suc_diff_1 less_Suc_eq_le not_less_zero gr0I upt_Suc_append)
    then show ?thesis using v by simp
  qed
  ultimately show ?thesis using Some
    by (intro exI [of _ ?pre] exI [of _ "outcome_action (settled_outcome fr ps cap timeout recorded sc)"])
      (auto simp: protocol_trace_def)
qed

lemma run_execution_protocol:
  assumes "run_execution fr ps cap timeout fuel recorded sc = Some (tr, fatal)"
  shows "\<exists>k. tr = protocol_trace fr ps cap timeout fuel recorded sc @ fst (cleanup sc k)"
    and "\<exists>pre m. protocol_trace fr ps cap timeout fuel recorded sc = pre @ outcome_action (settled_outcome fr ps cap timeout recorded sc)
      \<and> filter is_write pre = []"
  using assms by (auto simp: run_execution_def protocol_trace_def stop_trace_def filter_empty_conv split: option.splits)

text \<open>Settled or cut, an attempt ends the same way: its protocol up to some point and the cleanup.\<close>

lemma controlled_shape:
  assumes "controlled fr ps cap timeout fuel recorded sc c = Some (tr, fatal)"
  shows "\<exists>n post. tr = take n (protocol_trace fr ps cap timeout fuel recorded sc) @ post \<and> filter is_write post = []
    \<and> (sc_process sc \<longrightarrow> (\<exists>b. post = [DoKill b, DoCancelRunner]))"
proof (cases c)
  case None
  then obtain k where "tr = protocol_trace fr ps cap timeout fuel recorded sc @ fst (cleanup sc k)"
    using assms run_execution_protocol(1) by (fastforce simp: controlled_def)
  then show ?thesis
    by (intro exI [of _ "length (protocol_trace fr ps cap timeout fuel recorded sc)"] exI [of _ "fst (cleanup sc k)"])
      (simp add: cleanup_simps)
next
  case (Some cu)
  let ?e = "end_runner (sc_process sc) (cu_ended cu) (cu_fatal cu \<and> fatal_end sc) (cu_cancelling cu) (cu_late cu) (cu_kill cu)"
  have "tr = take (cu_after cu) (protocol_trace fr ps cap timeout fuel recorded sc) @ fst ?e"
    using assms Some by (simp add: controlled_def cut_run_def apfst_def prod_eq_iff)
  then show ?thesis
    by (intro exI [of _ "cu_after cu"] exI [of _ "fst ?e"]) (simp add: end_runner_def)
qed

lemma outcome_action_take: "take n (outcome_action m) = [] \<or> take n (outcome_action m) = outcome_action m"
  by (cases n) (auto simp: outcome_action_def split: sum.split option.split)

lemma in_outcome_action: "DoWrite k v \<in> set (outcome_action m) \<longleftrightarrow> m = Inr (Some (k, v))"
  by (auto simp: outcome_action_def split: sum.split option.split)

lemma controlled_parts:
  assumes "controlled fr ps cap timeout fuel recorded sc c = Some (tr, fatal)"
  obtains pre m post where "tr = pre @ m @ post" "filter is_write pre = []" "filter is_write post = []"
    "m = [] \<or> m = outcome_action (settled_outcome fr ps cap timeout recorded sc) \<and> (sc_process sc \<longrightarrow> (\<exists>p. pre = p @ [DoKill True]))"
    "sc_process sc \<Longrightarrow> \<exists>b. post = [DoKill b, DoCancelRunner]"
proof -
  obtain n post where tr: "tr = take n (protocol_trace fr ps cap timeout fuel recorded sc) @ post" "filter is_write post = []"
    "sc_process sc \<longrightarrow> (\<exists>b. post = [DoKill b, DoCancelRunner])" using controlled_shape [OF assms] by blast
  obtain pre m where p: "protocol_trace fr ps cap timeout fuel recorded sc = pre @ m" "filter is_write pre = []"
    "m = [] \<or> m = outcome_action (settled_outcome fr ps cap timeout recorded sc) \<and> (sc_process sc \<longrightarrow> (\<exists>p. pre = p @ [DoKill True]))"
    using protocol_shape [of fr ps cap timeout fuel recorded sc] by blast
  show thesis
  proof (cases "take (n - length pre) m = []")
    case True
    have "filter is_write (take n pre) = []" using p(2) by (auto simp: filter_empty_conv dest: in_set_takeD)
    then show thesis using that [of "take n pre" "[]" post] tr p(1) True by simp
  next
    case False
    then have "length pre < n" by (auto intro: ccontr)
    moreover have "take (n - length pre) m = m"
      using p(3) False outcome_action_take [of "n - length pre" "settled_outcome fr ps cap timeout recorded sc"] by auto
    ultimately show thesis using that [of pre m post] tr p by simp
  qed
qed

lemma single_write:
  assumes "controlled fr ps cap timeout fuel recorded sc c = Some (tr, fatal)"
  shows "length (filter is_write tr) \<le> 1"
  using controlled_parts [OF assms] writes_outcome by (metis (no_types, lifting) filter.simps(1) filter_append
      append_Nil append_Nil2 le0 list.size(3))

text \<open>The write of a sandboxed attempt directly follows a verified kill.\<close>

lemma write_after_verified_kill:
  assumes "controlled fr ps cap timeout fuel recorded sc c = Some (tr, fatal)" "sc_process sc"
    "tr = xs @ DoWrite k v # ys"
  shows "\<exists>p. xs = p @ [DoKill True]"
proof -
  let ?m = "settled_outcome fr ps cap timeout recorded sc"
  obtain pre m post where tr: "tr = pre @ m @ post" "filter is_write pre = []" "filter is_write post = []"
    "m = [] \<or> m = outcome_action ?m \<and> (sc_process sc \<longrightarrow> (\<exists>p. pre = p @ [DoKill True]))"
    by (rule controlled_parts [OF assms(1)]) blast
  have no: "DoWrite k v \<notin> set pre" "DoWrite k v \<notin> set post"
    using tr(2,3) by (auto simp: filter_empty_conv)
  have "DoWrite k v \<in> set tr" using assms(3) by simp
  with tr(1) no have "DoWrite k v \<in> set m" by auto
  with tr(4) have m: "m = outcome_action ?m" "\<exists>p. pre = p @ [DoKill True]" and "DoWrite k v \<in> set (outcome_action ?m)"
    using assms(2) by auto
  then have "?m = Inr (Some (k, v))" by (simp only: in_outcome_action)
  then have "m = [DoWrite k v]" using m(1) by (simp add: outcome_action_def)
  then have eq: "xs @ DoWrite k v # ys = pre @ DoWrite k v # post" using tr(1) assms(3) by simp
  from eq [symmetric] have "xs = pre" unfolding append_Cons_eq_iff [OF no] by simp
  with m(2) show ?thesis by simp
qed

text \<open>On every way out a sandbox is killed and its runner awaited.\<close>

lemma controlled_cleans_up:
  assumes "controlled fr ps cap timeout fuel recorded sc c = Some (tr, fatal)" "sc_process sc"
  shows "\<exists>p b. tr = p @ [DoKill b, DoCancelRunner]"
  using controlled_shape [OF assms(1)] assms(2) by auto

lemma cut_fatal:
  "cut_run fr ps cap timeout fuel recorded sc cu = (tr, fatal) \<Longrightarrow> fatal \<Longrightarrow> \<not> sc_process sc"
  by (auto simp: cut_run_def apfst_def end_runner_def fatal_end_def split: if_splits)

section \<open>The outcome is always recorded\<close>

definition raised_ok :: "raised \<Rightarrow> bool" where
  "raised_ok x \<longleftrightarrow> storable (x_qualname x) \<and> py_text (exc_message x) \<and> py_text (exc_traceback x)"

lemma metadata_json_flat:
  "flat_ok md \<Longrightarrow> \<exists>s. encode_tree fr (JObj md) = Inr s \<and> metadata_json fr ps md = Inr s"
  using flat_ok_encodes [of md fr] by (auto simp: metadata_json_def)

lemma error_json_total:
  assumes "raised_ok x" "412 \<le> cap"
  shows "\<exists>s. error_json fr ps cap x = Inr s \<and> int (utf8_len s) \<le> cap"
proof -
  let ?md = "[(lit ''type'', JStr (x_qualname x)), (lit ''message'', JStr (sanitize (exc_message x))),
        (lit ''traceback'', JStr (sanitize (exc_traceback x)))]"
  have "flat_ok ?md"
    using assms(1) by (simp add: flat_ok_def raised_ok_def storable_sanitize is_surrogate_def)
  moreover have "type_text ps ?md = x_qualname x" by (simp add: type_text_def obj_get_def)
  ultimately obtain out s where out: "error_metadata fr ps x cap = Inr out" "flat_ok out"
    "encode_tree fr (JObj out) = Inr s" "int (utf8_len s) \<le> cap"
    using truncate_error_ok [of ?md ps cap fr "[lit ''traceback'']"] assms
    by (auto simp: error_metadata_def raised_ok_def)
  from metadata_json_flat [OF out(2), of fr ps] out show ?thesis by (auto simp: error_json_def)
qed

lemma timeout_doc_encodes: "storable (fr t) \<Longrightarrow> \<exists>s. encode_tree fr (timeout_doc fr t) = Inr s"
  unfolding timeout_doc_def by (rule flat_ok_encodes) (simp add: flat_ok_def is_surrogate_def)

lemma self_cancelled_encodes: "\<exists>s. encode_tree fr self_cancelled_doc = Inr s"
  unfolding self_cancelled_doc_def by (rule flat_ok_encodes) (simp add: flat_ok_def is_surrogate_def)

fun runner_ok :: "runner_end \<Rightarrow> bool" where
  "runner_ok (RaisedFinal x) = raised_ok x"
| "runner_ok (RaisedOther x) = raised_ok x"
| "runner_ok (RaisedProcess md) = flat_ok md"
| "runner_ok _ = True"

text \<open>The kind of the outcome, by how the attempt ended.\<close>

definition outcome_kind :: "scenario \<Rightarrow> cause option \<Rightarrow> completion_kind option" where
  "outcome_kind sc recorded =
     (if ended sc 0 then
        (if signal_all (concat (map (sc_signals sc) [0, 1, 2, 3, 4])) recorded = Some Lost then None
         else (case sc_result sc of Returned s \<Rightarrow> Some Succeed | RaisedFinal x \<Rightarrow> Some FailFinal | _ \<Rightarrow> Some Fail))
      else (case stop_recorded sc recorded of
          Some Timeout \<Rightarrow> Some Fail | Some CancelRequested \<Rightarrow> Some Cancel | Some Shutdown \<Rightarrow> Some Release
        | _ \<Rightarrow> None))"

lemma settled_outcome_kind:
  assumes "runner_ok (sc_result sc)" "412 \<le> cap" "storable (fr timeout)"
  shows "case outcome_kind sc recorded of
      None \<Rightarrow> settled_outcome fr ps cap timeout recorded sc = Inr None
    | Some k \<Rightarrow> (\<exists>v. settled_outcome fr ps cap timeout recorded sc = Inr (Some (k, v)))"
proof (cases "ended sc 0")
  case True
  show ?thesis
  proof (cases "sc_result sc")
    case (RaisedFinal x)
    then obtain s where "error_json fr ps cap x = Inr s" using error_json_total assms by fastforce
    then show ?thesis using True RaisedFinal
      by (simp add: outcome_kind_def settled_outcome_def finish_completed_def with_data_def)
  next
    case (RaisedOther x)
    then obtain s where "error_json fr ps cap x = Inr s" using error_json_total assms by fastforce
    then show ?thesis using True RaisedOther
      by (simp add: outcome_kind_def settled_outcome_def finish_completed_def with_data_def)
  next
    case (RaisedProcess md)
    then obtain s where "metadata_json fr ps md = Inr s" using metadata_json_flat assms(1) by fastforce
    then show ?thesis using True RaisedProcess
      by (simp add: outcome_kind_def settled_outcome_def finish_completed_def with_data_def)
  next
    case SelfCancelled
    obtain s where "encode_tree fr self_cancelled_doc = Inr s" using self_cancelled_encodes by blast
    then show ?thesis using True SelfCancelled
      by (simp add: outcome_kind_def settled_outcome_def finish_completed_def with_data_def)
  next
    case (Returned s)
    then show ?thesis using True
      by (simp add: outcome_kind_def settled_outcome_def finish_completed_def)
  qed
next
  case False
  have "stop_recorded sc recorded \<noteq> None" by (simp add: stop_recorded_def split: option.split)
  then obtain c where c: "stop_recorded sc recorded = Some c" by blast
  obtain s where s: "encode_tree fr (timeout_doc fr timeout) = Inr s"
    using timeout_doc_encodes assms(3) by blast
  show ?thesis using False c s
    by (cases c) (simp_all add: outcome_kind_def settled_outcome_def finish_stopped_def with_data_def)
qed

lemma outcome_recorded:
  assumes "run_execution fr ps cap timeout fuel recorded sc = Some (tr, fatal)"
    "runner_ok (sc_result sc)" "412 \<le> cap" "storable (fr timeout)"
  shows "case outcome_kind sc recorded of
      None \<Rightarrow> filter is_write tr = []
    | Some k \<Rightarrow> (\<exists>v. filter is_write tr = [DoWrite k v])"
proof -
  obtain k pre where "tr = pre @ outcome_action (settled_outcome fr ps cap timeout recorded sc) @ fst (cleanup sc k)"
    "filter is_write pre = []"
    using run_execution_protocol [OF assms(1)] by fastforce
  then have "filter is_write tr = filter is_write (outcome_action (settled_outcome fr ps cap timeout recorded sc))"
    by (simp add: cleanup_def)
  then show ?thesis
    using settled_outcome_kind [OF assms(2,3), where fr = fr and timeout = timeout and ps = ps and recorded = recorded] assms(4)
    by (cases "outcome_kind sc recorded") (auto simp: outcome_action_def)
qed

lemma run_execution_ends:
  assumes "sc_kill sc n" "n < fuel" "1 \<le> n"
  shows "\<exists>tr fatal. run_execution fr ps cap timeout fuel recorded sc = Some (tr, fatal)"
proof -
  let ?k = "kill_index sc"
  have "?k + (n - ?k) = n" using assms(3) by (simp add: kill_index_def)
  then obtain k' where "verify_dead fuel (sc_kill sc) ?k = Some k'"
    using verify_dead_ends [of "sc_kill sc" ?k "n - ?k" fuel] assms(1,2) by auto
  then have "verified_at fuel sc \<noteq> None" by (simp add: verified_at_def)
  then show ?thesis by (auto simp: run_execution_def)
qed

text \<open>Only a coroutine that outlives its kill makes the worker exit.\<close>

lemma fatal_iff:
  "run_execution fr ps cap timeout fuel recorded sc = Some (tr, fatal)
    \<Longrightarrow> fatal \<longleftrightarrow> \<not> sc_process sc \<and> \<not> ended sc 1 \<and> \<not> ended sc 2"
  by (auto simp: run_execution_def cleanup_simps fatal_end_def split: option.splits)

text \<open>A class name that cannot be stored defeats both the metadata and its fallback.\<close>

lemma unstorable_name_crashes:
  "error_json fr ps 1024 \<lparr>x_qualname = [0], x_str = Inr [], x_traceback = Inr []\<rparr> = Inl Unstorable"
  by (simp add: error_json_def error_metadata_def truncate_error_def encode_tree_def check_tree.simps
      check_text_def MAX_DEPTH_def metadata_json_def meta_type_def obj_get_def sanitize_def utf8_encode_def
      has_surrogate_def is_surrogate_def)

end
