(* ===== verification/Claim.thy ===== *)
theory Claim
  imports Database "HOL-Library.List_Lexorder"
begin

text \<open>
  \<open>store.claim\<close> and the server-side function it calls: \<open>claim_candidate.sql\<close> (the ordered,
  bounded candidate rows) and \<open>claim.sql\<close> (admission under the concurrency limits, the byte
  bound and the deadline, then one update). The function runs against one database state;
  \<open>locks\<close> says which task and type rows other transactions hold, which every \<open>SKIP LOCKED\<close>
  passes over, and \<open>clk k\<close> is the \<open>k\<close>-th reading of \<open>clock_timestamp()\<close>.
\<close>

section \<open>Candidates\<close>

record locks =
  lk_task :: "int \<Rightarrow> bool"
  lk_share :: "ustr \<Rightarrow> bool"
  lk_update :: "ustr \<Rightarrow> bool"

record candidate =
  k_id :: int
  k_type :: ustr
  k_ckey :: "ustr option"
  k_bytes :: int
  k_priority :: int
  k_run_at :: time
  k_limited :: bool

definition running_count :: "task_row list \<Rightarrow> ustr \<Rightarrow> int" where
  "running_count rows ty = int (length (filter (\<lambda>r. t_type r = ty \<and> t_state r = Running) rows))"

definition running_key_count :: "task_row list \<Rightarrow> ustr \<Rightarrow> ustr \<Rightarrow> int" where
  "running_key_count rows ty key = int (length (filter
     (\<lambda>r. t_type r = ty \<and> t_state r = Running \<and> t_ckey r = Some key) rows))"

definition find_type :: "db \<Rightarrow> ustr \<Rightarrow> task_type_row option" where
  "find_type d name = find_row (\<lambda>ty. ty_name ty = name) (task_types d)"

definition limited_type :: "task_type_row \<Rightarrow> bool" where
  "limited_type ty \<longleftrightarrow> ty_max_conc ty \<noteq> None \<or> ty_max_conc_key ty \<noteq> None"

definition eligible_type :: "db \<Rightarrow> ustr list \<Rightarrow> ustr list \<Rightarrow> task_type_row \<Rightarrow> bool" where
  "eligible_type d types skip_types ty \<longleftrightarrow> ty_name ty \<in> set types \<and> \<not> ty_paused ty
     \<and> ty_name ty \<notin> set skip_types
     \<and> (case ty_max_conc ty of None \<Rightarrow> True | Some m \<Rightarrow> m > running_count (tasks d) (ty_name ty))"

definition saturated_key :: "db \<Rightarrow> ustr list \<Rightarrow> (ustr \<times> ustr) list \<Rightarrow> ustr \<Rightarrow> ustr \<Rightarrow> bool" where
  "saturated_key d types skip_keys ty key \<longleftrightarrow> (ty, key) \<in> set skip_keys
     \<or> (ty \<in> set types \<and> (case find_type d ty of None \<Rightarrow> False | Some row \<Rightarrow>
          (case ty_max_conc_key row of None \<Rightarrow> False | Some m \<Rightarrow>
             running_key_count (tasks d) ty key > 0 \<and> running_key_count (tasks d) ty key \<ge> m)))"

definition key_open :: "db \<Rightarrow> ustr list \<Rightarrow> (ustr \<times> ustr) list \<Rightarrow> task_row \<Rightarrow> bool" where
  "key_open d types skip_keys r \<longleftrightarrow> (case t_ckey r of None \<Rightarrow> True
     | Some key \<Rightarrow> \<not> saturated_key d types skip_keys (t_type r) key)"

definition due :: "time \<Rightarrow> (int \<Rightarrow> bool) \<Rightarrow> int list \<Rightarrow> task_row \<Rightarrow> bool" where
  "due now busy skip r \<longleftrightarrow> t_state r = Queued \<and> t_run_at r \<le> now \<and> t_id r \<notin> set skip \<and> \<not> busy (t_id r)"

text \<open>\<open>ORDER BY priority DESC, run_at, id\<close>.\<close>

definition claim_key :: "task_row \<Rightarrow> int \<times> time \<times> int" where
  "claim_key r = (- t_priority r, t_run_at r, t_id r)"

definition cand_key :: "candidate \<Rightarrow> int \<times> time \<times> int" where
  "cand_key c = (- k_priority c, k_run_at c, k_id c)"

definition to_candidate :: "pg \<Rightarrow> task_type_row \<Rightarrow> task_row \<Rightarrow> candidate" where
  "to_candidate env ty r = \<lparr>k_id = t_id r, k_type = t_type r, k_ckey = t_ckey r,
     k_bytes = column_size env (t_input r), k_priority = t_priority r, k_run_at = t_run_at r,
     k_limited = limited_type ty\<rparr>"

definition claim_head :: "pg \<Rightarrow> locks \<Rightarrow> db \<Rightarrow> int list \<Rightarrow> nat \<Rightarrow> task_row list" where
  "claim_head env lk d skip n = order_limit claim_key n (filter (due (tx_now env) (lk_task lk) skip) (tasks d))"

definition ready_candidate ::
  "pg \<Rightarrow> db \<Rightarrow> ustr list \<Rightarrow> ustr list \<Rightarrow> (ustr \<times> ustr) list \<Rightarrow> task_row \<Rightarrow> candidate list" where
  "ready_candidate env d types skip_types skip_keys r =
     (case find_type d (t_type r) of
        None \<Rightarrow> []
      | Some ty \<Rightarrow> if eligible_type d types skip_types ty \<and> key_open d types skip_keys r
                   then [to_candidate env ty r] else [])"

definition type_candidates ::
  "pg \<Rightarrow> locks \<Rightarrow> db \<Rightarrow> ustr list \<Rightarrow> int list \<Rightarrow> (ustr \<times> ustr) list \<Rightarrow> nat \<Rightarrow> task_type_row \<Rightarrow> candidate list"
  where
  "type_candidates env lk d types skip skip_keys n ty =
     map (to_candidate env ty) (order_limit claim_key n
       (filter (\<lambda>r. t_type r = ty_name ty \<and> due (tx_now env) (lk_task lk) skip r
                  \<and> key_open d types skip_keys r) (tasks d)))"

text \<open>
  The bounded global head is used only when every row of it is eligible; otherwise each
  eligible type is searched in order and the results are merged.
\<close>

definition candidates ::
  "pg \<Rightarrow> locks \<Rightarrow> db \<Rightarrow> ustr list \<Rightarrow> int list \<Rightarrow> ustr list \<Rightarrow> (ustr \<times> ustr) list \<Rightarrow> nat \<Rightarrow> candidate list"
  where
  "candidates env lk d types skip skip_types skip_keys n =
     (let head = claim_head env lk d skip n;
          ready = concat (map (ready_candidate env d types skip_types skip_keys) head)
      in order_limit cand_key n
           (if length ready = length head then ready
            else concat (map (type_candidates env lk d types skip skip_keys n)
                   (filter (eligible_type d types skip_types) (task_types d)))))"

section \<open>Admission\<close>

text \<open>
  The parallel arrays \<open>v_types\<close>, \<open>v_limits\<close>, \<open>v_key_limits\<close> and \<open>v_counts\<close> are one list of
  entries; \<open>v_reserved_types\<close> and \<open>v_keys\<close> are one list of pairs. \<open>v_reads\<close> counts the
  readings of the clock.
\<close>

record type_entry =
  y_type :: ustr
  y_limit :: "int option"
  y_key_limit :: "int option"
  y_count :: int

record admission =
  v_types :: "type_entry list"
  v_ids :: "int list"
  v_reserved :: "(ustr \<times> ustr option) list"
  v_skip :: "int list"
  v_skip_types :: "ustr list"
  v_skip_keys :: "(ustr \<times> ustr) list"
  v_bytes :: int
  v_reads :: nat

definition start_admission :: admission where
  "start_admission = \<lparr>v_types = [], v_ids = [], v_reserved = [], v_skip = [], v_skip_types = [],
     v_skip_keys = [], v_bytes = 0, v_reads = 1\<rparr>"

definition MAX_CLAIM_BYTES :: int where "MAX_CLAIM_BYTES = 524288"

text \<open>The relock of a chosen row: it is still there, queued, of this type and due.\<close>

definition relocked :: "pg \<Rightarrow> locks \<Rightarrow> db \<Rightarrow> candidate \<Rightarrow> bool" where
  "relocked env lk d c \<longleftrightarrow> (case find_row (\<lambda>r. t_id r = k_id c) (tasks d) of
     None \<Rightarrow> False
   | Some r \<Rightarrow> \<not> lk_task lk (t_id r) \<and> t_state r = Queued \<and> t_type r = k_type c
       \<and> t_run_at r \<le> tx_now env)"

text \<open>
  The policy row under its lock: a share lock for an unlimited type, an update lock as soon as
  a limit is seen; \<open>None\<close> when another transaction holds the row.
\<close>

definition locked_policy :: "locks \<Rightarrow> db \<Rightarrow> candidate \<Rightarrow> task_type_row option" where
  "locked_policy lk d c =
     (let for_update = (if lk_update lk (k_type c) then None else find_type d (k_type c));
          for_share = (if lk_share lk (k_type c) then None else find_type d (k_type c))
      in if k_limited c then for_update
         else case for_share of
                None \<Rightarrow> None
              | Some ty \<Rightarrow> if limited_type ty then for_update else Some ty)"

definition skip_type :: "candidate \<Rightarrow> admission \<Rightarrow> admission" where
  "skip_type c s = s\<lparr>v_skip_types := v_skip_types s @ [k_type c]\<rparr>"

definition new_entry :: "db \<Rightarrow> task_type_row \<Rightarrow> type_entry" where
  "new_entry d ty = \<lparr>y_type = ty_name ty, y_limit = ty_max_conc ty, y_key_limit = ty_max_conc_key ty,
     y_count = (case ty_max_conc ty of None \<Rightarrow> 0 | Some _ \<Rightarrow> running_count (tasks d) (ty_name ty))\<rparr>"

definition bump_count :: "ustr \<Rightarrow> type_entry list \<Rightarrow> type_entry list" where
  "bump_count ty = update_where (\<lambda>y. y_type y = ty) (\<lambda>y. y\<lparr>y_count := y_count y + 1\<rparr>)"

definition type_full :: "type_entry \<Rightarrow> bool" where
  "type_full y \<longleftrightarrow> (case y_limit y of None \<Rightarrow> False | Some m \<Rightarrow> y_count y \<ge> m)"

definition reserved_count :: "(ustr \<times> ustr option) list \<Rightarrow> ustr \<Rightarrow> ustr \<Rightarrow> int" where
  "reserved_count rs ty key = int (length (filter (\<lambda>p. p = (ty, Some key)) rs))"

definition key_full :: "db \<Rightarrow> type_entry \<Rightarrow> (ustr \<times> ustr option) list \<Rightarrow> candidate \<Rightarrow> bool" where
  "key_full d y rs c \<longleftrightarrow> (case (y_key_limit y, k_ckey c) of
     (Some m, Some key) \<Rightarrow>
        running_key_count (tasks d) (k_type c) key + reserved_count rs (k_type c) key \<ge> m
   | _ \<Rightarrow> False)"

text \<open>Admission of a candidate whose type has an entry; \<open>True\<close> leaves the admission loop.\<close>

definition admit_limited ::
  "(nat \<Rightarrow> time) \<Rightarrow> time \<Rightarrow> nat \<Rightarrow> db \<Rightarrow> candidate \<Rightarrow> type_entry \<Rightarrow> admission \<Rightarrow> admission \<times> bool" where
  "admit_limited clk until cap d c y s =
     (if type_full y then (skip_type c s, False)
      else if key_full d y (v_reserved s) c
      then (s\<lparr>v_skip_keys := v_skip_keys s @ [(k_type c, the (k_ckey c))]\<rparr>, False)
      else if v_ids s \<noteq> [] \<and> v_bytes s + k_bytes c > MAX_CLAIM_BYTES then (s, True)
      else (let s' = s\<lparr>v_bytes := v_bytes s + k_bytes c, v_ids := v_ids s @ [k_id c],
                       v_reserved := v_reserved s @ [(k_type c, k_ckey c)],
                       v_types := bump_count (k_type c) (v_types s),
                       v_reads := v_reads s + 1\<rparr>
            in (s', length (v_ids s') \<ge> cap \<or> clk (v_reads s) \<ge> until)))"

definition admit_one ::
  "pg \<Rightarrow> locks \<Rightarrow> (nat \<Rightarrow> time) \<Rightarrow> time \<Rightarrow> nat \<Rightarrow> db \<Rightarrow> candidate \<Rightarrow> admission \<Rightarrow> admission \<times> bool" where
  "admit_one env lk clk until cap d c s0 =
     (let s = s0\<lparr>v_skip := v_skip s0 @ [k_id c]\<rparr>
      in if \<not> relocked env lk d c \<or> k_type c \<in> set (v_skip_types s) then (s, False)
         else case find_row (\<lambda>y. y_type y = k_type c) (v_types s) of
           Some y \<Rightarrow> admit_limited clk until cap d c y s
         | None \<Rightarrow>
             (case locked_policy lk d c of
                None \<Rightarrow> (skip_type c s, False)
              | Some ty \<Rightarrow>
                  if ty_paused ty then (skip_type c s, False)
                  else admit_limited clk until cap d c (new_entry d ty)
                         (s\<lparr>v_types := v_types s @ [new_entry d ty]\<rparr>)))"

fun admit_all ::
  "pg \<Rightarrow> locks \<Rightarrow> (nat \<Rightarrow> time) \<Rightarrow> time \<Rightarrow> nat \<Rightarrow> db \<Rightarrow> candidate list \<Rightarrow> admission \<Rightarrow> admission \<times> bool" where
  "admit_all env lk clk until cap d [] s = (s, False)"
| "admit_all env lk clk until cap d (c # cs) s =
     (case admit_one env lk clk until cap d c s of
        (s', True) \<Rightarrow> (s', True)
      | (s', False) \<Rightarrow> admit_all env lk clk until cap d cs s')"

lemma admit_one_skip:
  "v_skip (fst (admit_one env lk clk until cap d c s)) = v_skip s @ [k_id c]"
  by (auto simp: admit_one_def admit_limited_def skip_type_def Let_def split: option.splits)

lemma admit_all_skip:
  "admit_all env lk clk until cap d cs s = (s', False) \<Longrightarrow> v_skip s' = v_skip s @ map k_id cs"
proof (induction cs arbitrary: s)
  case (Cons c cs)
  obtain s1 where s1: "admit_one env lk clk until cap d c s = (s1, False)"
    and rest: "admit_all env lk clk until cap d cs s1 = (s', False)"
    using Cons.prems by (auto split: prod.splits bool.splits)
  from Cons.IH[OF rest] admit_one_skip[of env lk clk until cap d c s] s1 show ?case by simp
qed simp

text \<open>A candidate is a due row of the table that was not seen before, of an eligible type.\<close>

definition candidate_of :: "pg \<Rightarrow> locks \<Rightarrow> db \<Rightarrow> ustr list \<Rightarrow> int list \<Rightarrow> candidate \<Rightarrow> task_row \<Rightarrow> bool" where
  "candidate_of env lk d types skip c r \<longleftrightarrow> r \<in> set (tasks d) \<and> due (tx_now env) (lk_task lk) skip r
     \<and> k_id c = t_id r \<and> k_type c = t_type r \<and> k_ckey c = t_ckey r
     \<and> k_bytes c = column_size env (t_input r) \<and> k_priority c = t_priority r \<and> k_run_at c = t_run_at r
     \<and> t_type r \<in> set types"

lemma ready_candidateD:
  "c \<in> set (ready_candidate env d types skip_types skip_keys r) \<Longrightarrow>
    \<exists>ty. find_type d (t_type r) = Some ty \<and> eligible_type d types skip_types ty \<and> c = to_candidate env ty r"
  by (cases "find_type d (t_type r)") (auto simp: ready_candidate_def split: if_splits)

lemma find_type_SomeD: "find_type d name = Some ty \<Longrightarrow> ty \<in> set (task_types d) \<and> ty_name ty = name"
  by (auto simp: find_type_def dest: find_row_SomeD)

lemma candidatesD:
  assumes "c \<in> set (candidates env lk d types skip skip_types skip_keys n)"
  shows "\<exists>r. candidate_of env lk d types skip c r"
proof -
  let ?head = "claim_head env lk d skip n"
  from assms consider
      (head) r where "r \<in> set ?head" "c \<in> set (ready_candidate env d types skip_types skip_keys r)"
    | (seek) ty where "eligible_type d types skip_types ty"
        "c \<in> set (type_candidates env lk d types skip skip_keys n ty)"
    by (auto simp: candidates_def Let_def split: if_splits dest!: in_order_limit)
  then show ?thesis
  proof cases
    case head
    from ready_candidateD[OF head(2)] obtain ty where ty: "find_type d (t_type r) = Some ty"
      "eligible_type d types skip_types ty" "c = to_candidate env ty r" by blast
    have "r \<in> set (tasks d)" "due (tx_now env) (lk_task lk) skip r"
      using head(1) by (auto simp: claim_head_def dest!: in_order_limit)
    moreover have "t_type r \<in> set types"
      using ty find_type_SomeD[OF ty(1)] by (auto simp: eligible_type_def)
    ultimately show ?thesis
      using ty(3) by (auto simp: candidate_of_def to_candidate_def)
  next
    case seek
    then show ?thesis
      by (auto simp: candidate_of_def to_candidate_def type_candidates_def eligible_type_def
          dest!: in_order_limit)
  qed
qed

section \<open>The claim\<close>

text \<open>The rows an admission loop has not looked at yet.\<close>

definition unseen :: "db \<Rightarrow> int list \<Rightarrow> nat" where
  "unseen d skip = length (filter (\<lambda>r. t_id r \<notin> set skip) (tasks d))"

lemma unseen_decreases:
  assumes "r \<in> set (tasks d)" "t_id r \<notin> set skip" "t_id r \<in> set new"
  shows "unseen d (skip @ new) < unseen d skip"
proof -
  have "filter (\<lambda>r. t_id r \<notin> set (skip @ new)) (tasks d)
      = filter (\<lambda>r. t_id r \<notin> set new) (filter (\<lambda>r. t_id r \<notin> set skip) (tasks d))"
    by (simp add: conj_commute)
  moreover have "length (filter (\<lambda>r. t_id r \<notin> set new) (filter (\<lambda>r. t_id r \<notin> set skip) (tasks d)))
      < length (filter (\<lambda>r. t_id r \<notin> set skip) (tasks d))"
    using assms by (intro length_filter_less [where x = r]) auto
  ultimately show ?thesis by (simp only: unseen_def)
qed

text \<open>
  The admission loop. A pass that does not leave it puts every candidate it saw into
  \<open>v_skip\<close>, and candidates are never in it, so the rows still to be seen decrease.
\<close>

function claim_loop ::
  "pg \<Rightarrow> locks \<Rightarrow> (nat \<Rightarrow> time) \<Rightarrow> time \<Rightarrow> nat \<Rightarrow> db \<Rightarrow> ustr list \<Rightarrow> admission \<Rightarrow> admission" where
  "claim_loop env lk clk until cap d types s =
     (let cs = candidates env lk d types (v_skip s) (v_skip_types s) (v_skip_keys s) (cap - length (v_ids s))
      in case admit_all env lk clk until cap d cs s of
           (s', True) \<Rightarrow> s'
         | (s', False) \<Rightarrow>
             (let s'' = s'\<lparr>v_reads := v_reads s' + 1\<rparr>
              in if cs = [] \<or> clk (v_reads s') \<ge> until then s''
                 else claim_loop env lk clk until cap d types s''))"
  by pat_completeness auto

termination
proof (relation "measure (\<lambda>(env, lk, clk, until, cap, d, types, s). unseen d (v_skip s))", goal_cases)
  case (2 env lk clk until cap d types s cs s' b s'')
  then have ne: "cs \<noteq> []" and run: "admit_all env lk clk until cap d cs s = (s', False)" by auto
  then have "hd cs \<in> set cs" by simp
  with 2(1) obtain r where "candidate_of env lk d types (v_skip s) (hd cs) r"
    using candidatesD by blast
  then have "r \<in> set (tasks d)" "t_id r \<notin> set (v_skip s)" "t_id r = k_id (hd cs)"
    by (auto simp: candidate_of_def due_def)
  then have "unseen d (v_skip s @ map k_id cs) < unseen d (v_skip s)"
    using \<open>hd cs \<in> set cs\<close> by (intro unseen_decreases) auto
  with 2 admit_all_skip[OF run] show ?case by simp
qed simp

declare claim_loop.simps [simp del]

text \<open>The update of the chosen rows, in candidate order.\<close>

definition claim_guard :: "int list \<Rightarrow> task_row \<Rightarrow> bool" where
  "claim_guard ids r \<longleftrightarrow> t_id r \<in> set ids \<and> t_state r = Queued"

definition claim_upd :: "pg \<Rightarrow> ustr \<Rightarrow> rat \<Rightarrow> task_row \<Rightarrow> task_row" where
  "claim_upd env worker lease_s r = r\<lparr>
     t_state := Running, t_attempt := t_attempt r + 1, t_token := Some (fresh_uuid env (t_id r)),
     t_lease_until := Some (clock env + lease_s), t_started_at := Some (tx_now env),
     t_worker := Some worker, t_progress := None\<rparr>"

definition in_id_order :: "int list \<Rightarrow> task_row list \<Rightarrow> task_row list" where
  "in_id_order ids rows = concat (map (\<lambda>i. filter (\<lambda>r. t_id r = i) rows) ids)"

definition claim_admission ::
  "pg \<Rightarrow> locks \<Rightarrow> (nat \<Rightarrow> time) \<Rightarrow> ustr list \<Rightarrow> rat \<Rightarrow> int \<Rightarrow> db \<Rightarrow> admission" where
  "claim_admission env lk clk types deadline_s n d =
     claim_loop env lk clk (clk 0 + deadline_s) (nat (min n 256)) d types start_admission"

definition store_claim ::
  "pg \<Rightarrow> locks \<Rightarrow> (nat \<Rightarrow> time) \<Rightarrow> ustr list \<Rightarrow> ustr \<Rightarrow> rat \<Rightarrow> rat \<Rightarrow> int \<Rightarrow> db \<Rightarrow> db \<times> task_row list" where
  "store_claim env lk clk types worker lease_s deadline_s n d =
     (if n < 1 then (d, [])
      else (let ids = v_ids (claim_admission env lk clk types deadline_s n d);
                (d', applied) = with_events env (claim_guard ids) (claim_upd env worker lease_s) (\<lambda>_. True) d
            in (d', in_id_order ids applied)))"

interpretation claim_tr: row_transition "claim_guard ids" "claim_upd env w l" for ids env w l
  by unfold_locales (auto simp: claim_guard_def claim_upd_def row_inv_def)

lemma db_inv_claim [inv_intros]:
  "db_inv d \<Longrightarrow> db_inv (fst (store_claim env lk clk types w l dl n d))"
  by (simp add: store_claim_def Let_def case_prod_beta claim_tr.db_inv_with_events)

end
