(* ===== verification/Admission.thy ===== *)
theory Admission
  imports Claim
begin

text \<open>
  What the admission loop of \<open>claim.sql\<close> guarantees: an invariant of the admission state,
  preserved by every candidate, from which the safety facts of a whole claim follow (limits,
  eligibility, the cap and the byte bound).
\<close>

section \<open>Counting\<close>

text \<open>Running rows whose type and concurrency key satisfy \<open>P\<close>, and the rows reserved so far.\<close>

definition busy_count :: "task_row list \<Rightarrow> (ustr \<times> ustr option \<Rightarrow> bool) \<Rightarrow> int" where
  "busy_count rows P = int (length (filter (\<lambda>r. P (t_type r, t_ckey r) \<and> t_state r = Running) rows))"

definition reserved_by :: "(ustr \<times> ustr option) list \<Rightarrow> (ustr \<times> ustr option \<Rightarrow> bool) \<Rightarrow> int" where
  "reserved_by rs P = int (length (filter P rs))"

lemma running_count_busy: "running_count rows ty = busy_count rows (\<lambda>p. fst p = ty)"
  by (simp add: running_count_def busy_count_def)

lemma running_key_count_busy:
  "running_key_count rows ty key = busy_count rows (\<lambda>p. p = (ty, Some key))"
  by (auto simp: running_key_count_def busy_count_def intro!: arg_cong[where f = length] filter_cong)

lemma reserved_by_simps [simp]:
  "reserved_by [] P = 0"
  "reserved_by (rs @ [p]) P = reserved_by rs P + (if P p then 1 else 0)"
  by (simp_all add: reserved_by_def)

lemma reserved_count_by: "reserved_count rs ty key = reserved_by rs (\<lambda>p. p = (ty, Some key))"
  by (simp add: reserved_count_def reserved_by_def)

lemma reserved_by_nonneg: "0 \<le> reserved_by rs P"
  by (simp add: reserved_by_def)

lemma reserved_by_zero: "(\<And>p. p \<in> set rs \<Longrightarrow> \<not> P p) \<Longrightarrow> reserved_by rs P = 0"
  by (simp add: reserved_by_def filter_empty_conv)

section \<open>The invariant of the admission state\<close>

definition admitted :: "pg \<Rightarrow> locks \<Rightarrow> db \<Rightarrow> ustr list \<Rightarrow> int \<Rightarrow> ustr \<times> ustr option \<Rightarrow> bool" where
  "admitted env lk d types i p \<longleftrightarrow> (\<exists>r \<in> set (tasks d). t_id r = i \<and> p = (t_type r, t_ckey r)
     \<and> due (tx_now env) (lk_task lk) [] r \<and> t_type r \<in> set types
     \<and> (\<exists>ty. find_type d (t_type r) = Some ty \<and> \<not> ty_paused ty))"

definition entry_ok :: "db \<Rightarrow> (ustr \<times> ustr option) list \<Rightarrow> type_entry \<Rightarrow> bool" where
  "entry_ok d rs y \<longleftrightarrow> (\<exists>ty. find_type d (y_type y) = Some ty \<and> \<not> ty_paused ty
     \<and> y_limit y = ty_max_conc ty \<and> y_key_limit y = ty_max_conc_key ty
     \<and> (y_limit y \<noteq> None \<longrightarrow> y_count y = busy_count (tasks d) (\<lambda>p. fst p = y_type y)
                                        + reserved_by rs (\<lambda>p. fst p = y_type y)))"

definition within_limits :: "db \<Rightarrow> (ustr \<times> ustr option) list \<Rightarrow> bool" where
  "within_limits d rs \<longleftrightarrow> (\<forall>p \<in> set rs. \<forall>ty. find_type d (fst p) = Some ty \<longrightarrow>
     (\<forall>m. ty_max_conc ty = Some m \<longrightarrow>
        busy_count (tasks d) (\<lambda>q. fst q = fst p) + reserved_by rs (\<lambda>q. fst q = fst p) \<le> m)
     \<and> (\<forall>m. ty_max_conc_key ty = Some m \<and> snd p \<noteq> None \<longrightarrow>
        busy_count (tasks d) (\<lambda>q. q = p) + reserved_by rs (\<lambda>q. q = p) \<le> m))"

definition byte_total :: "pg \<Rightarrow> db \<Rightarrow> int list \<Rightarrow> int" where
  "byte_total env d ids = sum_list (map (\<lambda>i. case find_row (\<lambda>r. t_id r = i) (tasks d) of
     None \<Rightarrow> 0 | Some r \<Rightarrow> column_size env (t_input r)) ids)"

definition adm_inv :: "pg \<Rightarrow> locks \<Rightarrow> db \<Rightarrow> ustr list \<Rightarrow> admission \<Rightarrow> bool" where
  "adm_inv env lk d types s \<longleftrightarrow>
     distinct (v_ids s) \<and> set (v_ids s) \<subseteq> set (v_skip s)
     \<and> list_all2 (admitted env lk d types) (v_ids s) (v_reserved s)
     \<and> (\<forall>y \<in> set (v_types s). entry_ok d (v_reserved s) y)
     \<and> (\<forall>p \<in> set (v_reserved s). fst p \<in> y_type ` set (v_types s))
     \<and> within_limits d (v_reserved s)
     \<and> v_bytes s = byte_total env d (v_ids s)
     \<and> (length (v_ids s) \<le> 1 \<or> v_bytes s \<le> MAX_CLAIM_BYTES)"

lemma adm_inv_start: "adm_inv env lk d types start_admission"
  by (simp add: adm_inv_def start_admission_def within_limits_def byte_total_def)

text \<open>Bookkeeping that touches neither the selection nor the type entries.\<close>

lemma adm_inv_frame [simp]:
  "adm_inv env lk d types (s\<lparr>v_skip_types := a\<rparr>) = adm_inv env lk d types s"
  "adm_inv env lk d types (s\<lparr>v_skip_keys := b\<rparr>) = adm_inv env lk d types s"
  "adm_inv env lk d types (s\<lparr>v_reads := n\<rparr>) = adm_inv env lk d types s"
  by (simp_all add: adm_inv_def)

lemma adm_inv_skip: "adm_inv env lk d types s \<Longrightarrow> adm_inv env lk d types (s\<lparr>v_skip := v_skip s @ is\<rparr>)"
  by (auto simp: adm_inv_def)

lemma adm_inv_new_entry:
  assumes "adm_inv env lk d types s" "find_row (\<lambda>y. y_type y = name) (v_types s) = None"
    "find_type d name = Some ty" "\<not> ty_paused ty"
  shows "adm_inv env lk d types (s\<lparr>v_types := v_types s @ [new_entry d ty]\<rparr>)"
proof -
  have name: "ty_name ty = name" using find_type_SomeD[OF assms(3)] by simp
  have "name \<notin> y_type ` set (v_types s)"
    using assms(2) by (auto simp: find_row_None_iff)
  then have "reserved_by (v_reserved s) (\<lambda>p. fst p = name) = 0"
    using assms(1) by (intro reserved_by_zero) (auto simp: adm_inv_def)
  then have "entry_ok d (v_reserved s) (new_entry d ty)"
    using assms(3,4) name
    by (auto simp: entry_ok_def new_entry_def running_count_busy split: option.split)
  with assms(1) show ?thesis by (auto simp: adm_inv_def)
qed

lemma type_full_iff: "type_full y \<longleftrightarrow> (\<exists>m. y_limit y = Some m \<and> m \<le> y_count y)"
  by (auto simp: type_full_def split: option.split)

lemma key_full_iff:
  "key_full d y rs c \<longleftrightarrow> (\<exists>m key. y_key_limit y = Some m \<and> k_ckey c = Some key
     \<and> m \<le> busy_count (tasks d) (\<lambda>p. p = (k_type c, Some key)) + reserved_by rs (\<lambda>p. p = (k_type c, Some key)))"
  by (auto simp: key_full_def running_key_count_busy reserved_count_by split: option.split)

lemma within_limitsD:
  assumes "within_limits d rs" "p \<in> set rs" "find_type d (fst p) = Some ty"
  shows "ty_max_conc ty = Some m \<Longrightarrow>
      busy_count (tasks d) (\<lambda>q. fst q = fst p) + reserved_by rs (\<lambda>q. fst q = fst p) \<le> m"
    and "ty_max_conc_key ty = Some m \<Longrightarrow> snd p \<noteq> None \<Longrightarrow>
      busy_count (tasks d) (\<lambda>q. q = p) + reserved_by rs (\<lambda>q. q = p) \<le> m"
  using assms unfolding within_limits_def by blast+

lemma within_limits_take:
  assumes "within_limits d rs" "entry_ok d rs y" "y_type y = k_type c"
    "\<not> type_full y" "\<not> key_full d y rs c"
  shows "within_limits d (rs @ [(k_type c, k_ckey c)])"
proof -
  from assms(2,3) obtain ty where ty: "find_type d (k_type c) = Some ty"
    "y_limit y = ty_max_conc ty" "y_key_limit y = ty_max_conc_key ty"
    "y_limit y \<noteq> None \<Longrightarrow> y_count y = busy_count (tasks d) (\<lambda>p. fst p = k_type c)
                                     + reserved_by rs (\<lambda>p. fst p = k_type c)"
    by (auto simp: entry_ok_def)
  have by_type: "busy_count (tasks d) (\<lambda>p. fst p = k_type c) + reserved_by rs (\<lambda>p. fst p = k_type c) + 1 \<le> m"
    if "ty_max_conc ty = Some m" for m
    using assms(4) ty that by (auto simp: type_full_iff)
  have by_key: "busy_count (tasks d) (\<lambda>p. p = (k_type c, k_ckey c))
      + reserved_by rs (\<lambda>p. p = (k_type c, k_ckey c)) + 1 \<le> m"
    if "ty_max_conc_key ty = Some m" "k_ckey c \<noteq> None" for m
    using assms(5) ty(3) that by (auto simp: key_full_iff)
  show ?thesis
    unfolding within_limits_def
  proof (intro ballI allI impI)
    fix p ty'
    assume p: "p \<in> set (rs @ [(k_type c, k_ckey c)])" and ty': "find_type d (fst p) = Some ty'"
    have same: "ty' = ty" if "fst p = k_type c" using that ty' ty(1) by simp
    have old: "p \<in> set rs" if "p \<noteq> (k_type c, k_ckey c)" using p that by auto
    have t: "busy_count (tasks d) (\<lambda>q. fst q = fst p)
        + reserved_by (rs @ [(k_type c, k_ckey c)]) (\<lambda>q. fst q = fst p) \<le> m"
      if "ty_max_conc ty' = Some m" for m
    proof (cases "fst p = k_type c")
      case True
      then show ?thesis using same by_type [of m] that by simp
    next
      case False
      then have "p \<in> set rs" using old by (cases p) auto
      with within_limitsD(1) [OF assms(1) _ ty' that] False show ?thesis by simp
    qed
    have k: "busy_count (tasks d) (\<lambda>q. q = p)
        + reserved_by (rs @ [(k_type c, k_ckey c)]) (\<lambda>q. q = p) \<le> m"
      if "ty_max_conc_key ty' = Some m" "snd p \<noteq> None" for m
    proof (cases "p = (k_type c, k_ckey c)")
      case True
      then show ?thesis using same by_key [of m] that by simp
    next
      case False
      with within_limitsD(2) [OF assms(1) old ty' that] show ?thesis by auto
    qed
    show "(\<forall>m. ty_max_conc ty' = Some m \<longrightarrow>
        busy_count (tasks d) (\<lambda>q. fst q = fst p)
        + reserved_by (rs @ [(k_type c, k_ckey c)]) (\<lambda>q. fst q = fst p) \<le> m)
      \<and> (\<forall>m. ty_max_conc_key ty' = Some m \<and> snd p \<noteq> None \<longrightarrow>
        busy_count (tasks d) (\<lambda>q. q = p) + reserved_by (rs @ [(k_type c, k_ckey c)]) (\<lambda>q. q = p) \<le> m)"
      using t k by blast
  qed
qed

lemma entry_ok_bump:
  assumes "entry_ok d rs y"
  shows "entry_ok d (rs @ [(name, ck)])
    (if y_type y = name then y\<lparr>y_count := y_count y + 1\<rparr> else y)"
  using assms by (auto simp: entry_ok_def)

lemma adm_inv_take:
  assumes inv: "adm_inv env lk d types s" and ids: "distinct (map t_id (tasks d))"
    and cand: "candidate_of env lk d types skip c r" and new: "k_id c \<notin> set (v_ids s)"
    and seen: "k_id c \<in> set (v_skip s)"
    and y: "y \<in> set (v_types s)" "y_type y = k_type c"
    and room: "\<not> type_full y" "\<not> key_full d y (v_reserved s) c"
      "v_ids s = [] \<or> v_bytes s + k_bytes c \<le> MAX_CLAIM_BYTES"
  shows "adm_inv env lk d types (s\<lparr>v_bytes := v_bytes s + k_bytes c, v_ids := v_ids s @ [k_id c],
     v_reserved := v_reserved s @ [(k_type c, k_ckey c)],
     v_types := bump_count (k_type c) (v_types s), v_reads := n\<rparr>)"
proof -
  have eok: "entry_ok d (v_reserved s) y" using inv y by (simp add: adm_inv_def)
  then obtain ty where "find_type d (k_type c) = Some ty" "\<not> ty_paused ty"
    using y(2) by (auto simp: entry_ok_def)
  then have "admitted env lk d types (k_id c) (k_type c, k_ckey c)"
    using cand by (auto simp: admitted_def candidate_of_def due_def)
  moreover have tyin: "k_type c \<in> y_type ` set (v_types s)" using y by force
  moreover have "within_limits d (v_reserved s @ [(k_type c, k_ckey c)])"
    using inv eok y(2) room by (intro within_limits_take) (auto simp: adm_inv_def)
  moreover have "\<forall>z \<in> set (bump_count (k_type c) (v_types s)).
      entry_ok d (v_reserved s @ [(k_type c, k_ckey c)]) z"
  proof -
    have "\<forall>z \<in> set (v_types s). entry_ok d (v_reserved s) z" using inv by (simp add: adm_inv_def)
    then show ?thesis
      using entry_ok_bump [of d "v_reserved s" _ "k_type c" "k_ckey c"]
      unfolding bump_count_def update_where_def set_map by blast
  qed
  moreover have "y_type ` set (bump_count (k_type c) (v_types s)) = y_type ` set (v_types s)"
    unfolding bump_count_def list.set_map [symmetric] by (subst map_update_where) auto
  moreover have "find_row (\<lambda>q. t_id q = k_id c) (tasks d) = Some r"
    using cand ids by (simp add: find_row_key candidate_of_def)
  then have "byte_total env d (v_ids s @ [k_id c]) = byte_total env d (v_ids s) + k_bytes c"
    using cand by (simp add: byte_total_def candidate_of_def)
  moreover have "length (v_ids s @ [k_id c]) \<le> 1 \<or> v_bytes s + k_bytes c \<le> MAX_CLAIM_BYTES"
    using room(3) by auto
  ultimately show ?thesis
    using inv new seen tyin by (simp add: adm_inv_def list_all2_appendI)
qed

section \<open>Preservation by the admission steps\<close>

text \<open>
  A pass starts with candidates that are pairwise distinct and unseen; every step keeps the
  invariant and, unless it leaves the loop, stays below the cap.
\<close>

lemma admit_limited_inv:
  assumes inv: "adm_inv env lk d types s" and ids: "distinct (map t_id (tasks d))"
    and cand: "candidate_of env lk d types skip c r" "k_id c \<notin> set (v_ids s)" "k_id c \<in> set (v_skip s)"
    and y: "y \<in> set (v_types s)" "y_type y = k_type c" and cap: "length (v_ids s) < cap"
  shows "admit_limited clk until cap d c y s = (s', b) \<Longrightarrow> adm_inv env lk d types s'
    \<and> length (v_ids s') \<le> cap \<and> (\<not> b \<longrightarrow> length (v_ids s') < cap)
    \<and> set (v_ids s') \<subseteq> set (v_ids s) \<union> {k_id c}"
  using adm_inv_take [OF inv ids cand y] inv cap
  by (auto simp: admit_limited_def skip_type_def Let_def split: if_splits)

lemma admit_one_inv:
  assumes inv: "adm_inv env lk d types s" and ids: "distinct (map t_id (tasks d))"
    and cand: "candidate_of env lk d types skip c r" "k_id c \<notin> set (v_ids s)"
    and cap: "length (v_ids s) < cap" and run: "admit_one env lk clk until cap d c s = (s', b)"
  shows "adm_inv env lk d types s' \<and> length (v_ids s') \<le> cap \<and> (\<not> b \<longrightarrow> length (v_ids s') < cap)
    \<and> set (v_ids s') \<subseteq> set (v_ids s) \<union> {k_id c}"
proof -
  let ?s = "s\<lparr>v_skip := v_skip s @ [k_id c]\<rparr>"
  have inv': "adm_inv env lk d types ?s" by (rule adm_inv_skip [OF inv])
  consider (skip) "s' = ?s \<or> s' = skip_type c ?s" "\<not> b"
    | (known) y where "find_row (\<lambda>y. y_type y = k_type c) (v_types s) = Some y"
        "admit_limited clk until cap d c y ?s = (s', b)"
    | (fresh) ty where "find_row (\<lambda>y. y_type y = k_type c) (v_types s) = None"
        "locked_policy lk d c = Some ty" "\<not> ty_paused ty"
        "admit_limited clk until cap d c (new_entry d ty)
           (?s\<lparr>v_types := v_types ?s @ [new_entry d ty]\<rparr>) = (s', b)"
    using run by (auto simp: admit_one_def Let_def split: if_splits option.splits)
  then show ?thesis
  proof cases
    case skip
    then show ?thesis using inv' cap by (auto simp: skip_type_def)
  next
    case known
    with admit_limited_inv [OF inv' ids cand(1) _ _ _ _ _ known(2)] cand(2) cap
    show ?thesis by (auto dest: find_row_SomeD)
  next
    case fresh
    have ty: "find_type d (k_type c) = Some ty"
      using fresh(2) by (auto simp: locked_policy_def Let_def split: if_splits option.splits)
    then have "y_type (new_entry d ty) = k_type c"
      by (auto simp: new_entry_def dest: find_type_SomeD)
    moreover have "adm_inv env lk d types (?s\<lparr>v_types := v_types ?s @ [new_entry d ty]\<rparr>)"
      using fresh(1,3) ty by (intro adm_inv_new_entry [OF inv']) auto
    ultimately show ?thesis
      using admit_limited_inv [OF _ ids cand(1) _ _ _ _ _ fresh(4)] cand(2) cap by auto
  qed
qed

lemma admit_all_inv:
  assumes "adm_inv env lk d types s" "distinct (map t_id (tasks d))"
    "\<forall>c \<in> set cs. \<exists>r. candidate_of env lk d types skip c r" "distinct (map k_id cs)"
    "\<forall>c \<in> set cs. k_id c \<notin> set (v_ids s)" "length (v_ids s) < cap"
    "admit_all env lk clk until cap d cs s = (s', b)"
  shows "adm_inv env lk d types s' \<and> length (v_ids s') \<le> cap \<and> (\<not> b \<longrightarrow> length (v_ids s') < cap)"
  using assms
proof (induction cs arbitrary: s)
  case Nil
  then show ?case by simp
next
  case (Cons c cs)
  obtain s1 b1 where s1: "admit_one env lk clk until cap d c s = (s1, b1)" by fastforce
  from Cons.prems(3) obtain r where "candidate_of env lk d types skip c r" by auto
  from admit_one_inv [OF Cons.prems(1,2) this _ Cons.prems(6) s1] Cons.prems(5)
  have one: "adm_inv env lk d types s1" "length (v_ids s1) \<le> cap" "\<not> b1 \<longrightarrow> length (v_ids s1) < cap"
    "set (v_ids s1) \<subseteq> set (v_ids s) \<union> {k_id c}" by auto
  show ?case
  proof (cases b1)
    case True
    then show ?thesis using Cons.prems(7) s1 one by auto
  next
    case False
    have "\<forall>x \<in> set cs. k_id x \<notin> set (v_ids s1)"
    proof
      fix x assume "x \<in> set cs"
      then have "k_id x \<noteq> k_id c \<and> k_id x \<notin> set (v_ids s)"
        using Cons.prems(4,5) by (metis distinct.simps(2) image_eqI list.set_intros(2) list.simps(9) set_map)
      then show "k_id x \<notin> set (v_ids s1)" using one(4) by blast
    qed
    then show ?thesis
      using Cons.IH [OF one(1) Cons.prems(2)] Cons.prems(3,4,7) s1 one(3) False by auto
  qed
qed

subsection \<open>The candidates of one pass are distinct\<close>

lemma distinct_concat_map:
  assumes "distinct xs" "\<And>x. x \<in> set xs \<Longrightarrow> distinct (f x)"
    "\<And>x y. x \<in> set xs \<Longrightarrow> y \<in> set xs \<Longrightarrow> x \<noteq> y \<Longrightarrow> set (f x) \<inter> set (f y) = {}"
  shows "distinct (concat (map f xs))"
  using assms
proof (induction xs)
  case (Cons x xs)
  have "distinct (concat (map f xs))" using Cons by simp
  moreover have "set (f x) \<inter> (\<Union>y \<in> set xs. set (f y)) = {}"
    using Cons.prems(1) Cons.prems(3) [of x] by (auto simp: disjoint_iff)
  ultimately show ?case using Cons.prems(2) by simp
qed simp

lemma ready_candidate_shape:
  "map k_id (ready_candidate env d types skip_types skip_keys r) = []
   \<or> map k_id (ready_candidate env d types skip_types skip_keys r) = [t_id r]"
  by (auto simp: ready_candidate_def to_candidate_def split: option.split)

lemma ready_candidate_ids:
  "set (map k_id (concat (map (ready_candidate env d types skip_types skip_keys) rows))) \<subseteq> t_id ` set rows"
proof
  fix i assume "i \<in> set (map k_id (concat (map (ready_candidate env d types skip_types skip_keys) rows)))"
  then obtain r where r: "r \<in> set rows"
    "i \<in> set (map k_id (ready_candidate env d types skip_types skip_keys r))" by auto
  with ready_candidate_shape [of env d types skip_types skip_keys r] have "i = t_id r"
    by (elim disjE) simp_all
  with r(1) show "i \<in> t_id ` set rows" by simp
qed

lemma distinct_head_ids:
  assumes "distinct (map t_id rows)"
  shows "distinct (map k_id (concat (map (ready_candidate env d types skip_types skip_keys) rows)))"
  using assms
proof (induction rows)
  case (Cons r rows)
  let ?f = "ready_candidate env d types skip_types skip_keys"
  have tail: "distinct (map k_id (concat (map ?f rows)))" using Cons by simp
  have "t_id r \<notin> set (map k_id (concat (map ?f rows)))"
    using ready_candidate_ids [of env d types skip_types skip_keys rows] Cons.prems by auto
  with tail ready_candidate_shape [of env d types skip_types skip_keys r] show ?case
    by (elim disjE) (simp_all only: list.map concat.simps map_append append_Nil append_Cons distinct.simps
        distinct_append list.set set_append Int_empty_left Int_insert_left if_False simp_thms)
qed simp

lemma type_candidates_ids:
  "map k_id (type_candidates env lk d types skip skip_keys n ty) = map t_id (order_limit claim_key n
     (filter (\<lambda>r. t_type r = ty_name ty \<and> due (tx_now env) (lk_task lk) skip r
        \<and> key_open d types skip_keys r) (tasks d)))"
  by (simp add: type_candidates_def to_candidate_def comp_def)

lemma distinct_candidates:
  assumes "distinct (map t_id (tasks d))" "distinct (map ty_name (task_types d))"
  shows "distinct (map k_id (candidates env lk d types skip skip_types skip_keys n))"
proof -
  let ?tys = "filter (eligible_type d types skip_types) (task_types d)"
  let ?f = "\<lambda>ty. map k_id (type_candidates env lk d types skip skip_keys n ty)"
  have head: "distinct (map t_id (claim_head env lk d skip n))"
    unfolding claim_head_def using assms(1)
    by (intro distinct_map_order_limit distinct_map_filter_key)
  have "distinct (concat (map ?f ?tys))"
  proof (rule distinct_concat_map)
    show "distinct ?tys" using assms(2) by (simp add: distinct_map)
    show "distinct (?f ty)" for ty
      unfolding type_candidates_ids using assms(1)
      by (intro distinct_map_order_limit distinct_map_filter_key)
    fix a b assume ab: "a \<in> set ?tys" "b \<in> set ?tys" "a \<noteq> b"
    then have "ty_name a \<noteq> ty_name b" using assms(2) by (auto dest: key_unique)
    then show "set (?f a) \<inter> set (?f b) = {}"
      unfolding type_candidates_ids using assms(1)
      by (auto dest!: in_order_limit dest: key_unique)
  qed
  then have "distinct (map k_id (concat (map (type_candidates env lk d types skip skip_keys n) ?tys)))"
    by (simp add: map_concat comp_def)
  then show ?thesis
    unfolding candidates_def Let_def using distinct_head_ids [OF head]
    by (auto intro!: distinct_map_order_limit)
qed

lemma claim_loop_inv:
  assumes "db_inv d" "adm_inv env lk d types s" "length (v_ids s) < cap"
  shows "adm_inv env lk d types (claim_loop env lk clk until cap d types s)
    \<and> length (v_ids (claim_loop env lk clk until cap d types s)) \<le> cap"
  using assms
proof (induction env lk clk until cap d types s rule: claim_loop.induct)
  case (1 env lk clk until cap d types s)
  let ?cs = "candidates env lk d types (v_skip s) (v_skip_types s) (v_skip_keys s) (cap - length (v_ids s))"
  obtain s' b where run: "admit_all env lk clk until cap d ?cs s = (s', b)" by fastforce
  have cand: "\<forall>c \<in> set ?cs. \<exists>r. candidate_of env lk d types (v_skip s) c r"
    using candidatesD by blast
  have new: "\<forall>c \<in> set ?cs. k_id c \<notin> set (v_ids s)"
  proof
    fix c assume "c \<in> set ?cs"
    then obtain r where "candidate_of env lk d types (v_skip s) c r" using candidatesD by blast
    then show "k_id c \<notin> set (v_ids s)"
      using "1.prems"(2) by (auto simp: candidate_of_def due_def adm_inv_def)
  qed
  have pass: "adm_inv env lk d types s'" "length (v_ids s') \<le> cap" "\<not> b \<longrightarrow> length (v_ids s') < cap"
    using admit_all_inv [OF "1.prems"(2) _ cand _ new "1.prems"(3) run] "1.prems"(1)
      distinct_candidates [of d] by (simp_all add: db_inv_def tasks_inv_def)
  show ?case
  proof (cases "b \<or> ?cs = [] \<or> clk (v_reads s') \<ge> until")
    case True
    then show ?thesis
      using pass run by (subst (1 2) claim_loop.simps) (auto simp: Let_def split: bool.split)
  next
    case False
    then have nb: "b = False" and run': "(s', False) = admit_all env lk clk until cap d ?cs s"
      using run by auto
    have "adm_inv env lk d types (s'\<lparr>v_reads := v_reads s' + 1\<rparr>)" "length (v_ids (s'\<lparr>v_reads := v_reads s' + 1\<rparr>)) < cap"
      using pass nb by simp_all
    with "1.IH" [OF refl run' refl refl _ "1.prems"(1)] False nb run'
    show ?thesis by (subst (1 2) claim_loop.simps) (auto simp: Let_def split: prod.splits)
  qed
qed

section \<open>What a claim returns\<close>

text \<open>
  The rows taken for a list of admitted ids: one row per id, in that order, and every count of
  running rows grows by the number of reserved rows.
\<close>

lemma admittedD:
  assumes "distinct (map t_id (tasks d))" "admitted env lk d types i p"
  shows "\<exists>r. filter (\<lambda>r. t_id r = i) (tasks d) = [r] \<and> t_id r = i \<and> r \<in> set (tasks d) \<and> p = (t_type r, t_ckey r)
    \<and> t_state r = Queued \<and> t_run_at r \<le> tx_now env \<and> \<not> lk_task lk i \<and> t_type r \<in> set types
    \<and> (\<exists>ty. find_type d (t_type r) = Some ty \<and> \<not> ty_paused ty)"
proof -
  from assms(2) obtain r where r: "r \<in> set (tasks d)" "t_id r = i" "p = (t_type r, t_ckey r)"
    "due (tx_now env) (lk_task lk) [] r" "t_type r \<in> set types"
    "\<exists>ty. find_type d (t_type r) = Some ty \<and> \<not> ty_paused ty"
    by (auto simp: admitted_def)
  moreover have "filter (\<lambda>r. t_id r = i) (tasks d) = [r]" by (rule filter_key [OF assms(1) r(1,2)])
  ultimately show ?thesis by (auto simp: due_def)
qed

lemma length_filter_ids:
  assumes "distinct (map t_id (tasks d))" "list_all2 (admitted env lk d types) ids rs" "distinct ids"
  shows "length (filter (\<lambda>r. P (t_type r, t_ckey r) \<and> claim_guard ids r) (tasks d)) = length (filter P rs)"
  using assms(2,3)
proof (induction rule: list_all2_induct)
  case Nil
  then show ?case by (simp add: claim_guard_def)
next
  case (Cons i ids p rs)
  let ?N = "\<lambda>ids. filter (\<lambda>r. P (t_type r, t_ckey r) \<and> claim_guard ids r) (tasks d)"
  obtain r where r: "filter (\<lambda>r. t_id r = i) (tasks d) = [r]" "p = (t_type r, t_ckey r)"
    "t_state r = Queued" "t_id r = i"
    using admittedD [OF assms(1) Cons.hyps(1)] by blast
  have "filter (\<lambda>r. (P (t_type r, t_ckey r) \<and> claim_guard (i # ids) r) \<and> t_id r = i) (tasks d)
      = filter (\<lambda>r. P (t_type r, t_ckey r) \<and> claim_guard (i # ids) r) (filter (\<lambda>r. t_id r = i) (tasks d))"
    by (simp add: conj_commute)
  also have "\<dots> = (if P p then [r] else [])" using r by (simp add: claim_guard_def)
  finally have head: "filter (\<lambda>r. (P (t_type r, t_ckey r) \<and> claim_guard (i # ids) r) \<and> t_id r = i) (tasks d)
      = (if P p then [r] else [])" .
  have tail: "filter (\<lambda>r. (P (t_type r, t_ckey r) \<and> claim_guard (i # ids) r) \<and> t_id r \<noteq> i) (tasks d) = ?N ids"
    using Cons.prems by (intro filter_cong) (auto simp: claim_guard_def)
  have "distinct ids" using Cons.prems by simp
  with Cons.IH head tail show ?case
    by (subst length_filter_split [where Q = "\<lambda>r. t_id r = i"]) simp
qed

lemma busy_count_claimed:
  assumes "distinct (map t_id (tasks d))" "list_all2 (admitted env lk d types) ids rs" "distinct ids"
  shows "busy_count (update_where (claim_guard ids) (claim_upd e w l) (tasks d)) P
    = busy_count (tasks d) P + reserved_by rs P"
proof -
  let ?R = "\<lambda>r. P (t_type r, t_ckey r) \<and> t_state r = Running"
  let ?f = "\<lambda>r. if claim_guard ids r then claim_upd e w l r else r"
  have "length (filter ?R (map ?f rows)) = length (filter ?R rows)
      + length (filter (\<lambda>r. P (t_type r, t_ckey r) \<and> claim_guard ids r) rows)" for rows
    by (induction rows) (auto simp: claim_guard_def claim_upd_def)
  then show ?thesis
    using length_filter_ids [OF assms] by (simp add: busy_count_def update_where_def reserved_by_def)
qed

lemma in_id_order_claimed:
  assumes "distinct (map t_id (tasks d))" "list_all2 (admitted env lk d types) ids rs" "distinct ids"
  shows "list_all2 (\<lambda>i x. \<exists>r. r \<in> set (tasks d) \<and> t_id r = i \<and> admitted env lk d types i (t_type r, t_ckey r)
      \<and> x = claim_upd e w l r)
    ids (in_id_order ids (returning (claim_guard ids) (claim_upd e w l) (tasks d)))"
proof -
  let ?applied = "returning (claim_guard ids) (claim_upd e w l) (tasks d)"
  have "map t_id ?applied = map t_id (filter (claim_guard ids) (tasks d))"
    by (simp add: returning_def claim_upd_def)
  then have dist: "distinct (map t_id ?applied)"
    using assms(1) by (simp add: distinct_map_filter_key)
  have one: "\<exists>r. r \<in> set (tasks d) \<and> t_id r = i \<and> admitted env lk d types i (t_type r, t_ckey r)
      \<and> filter (\<lambda>x. t_id x = i) ?applied = [claim_upd e w l r]" if i: "i \<in> set ids" for i
  proof -
    have "\<exists>p. admitted env lk d types i p"
      using assms(2) i by (metis in_set_conv_nth list_all2_conv_all_nth)
    then obtain p where "admitted env lk d types i p" ..
    moreover from this obtain r where r: "r \<in> set (tasks d)" "t_id r = i" "t_state r = Queued" "p = (t_type r, t_ckey r)"
      using admittedD [OF assms(1)] by blast
    moreover have "claim_upd e w l r \<in> set ?applied" "t_id (claim_upd e w l r) = i"
      using r i by (auto simp: set_returning claim_guard_def claim_upd_def)
    ultimately show ?thesis using filter_key [OF dist] by blast
  qed
  have "list_all2 (\<lambda>i x. \<exists>r. r \<in> set (tasks d) \<and> t_id r = i \<and> admitted env lk d types i (t_type r, t_ckey r)
      \<and> x = claim_upd e w l r) is (concat (map (\<lambda>i. filter (\<lambda>r. t_id r = i) ?applied) is))"
    if "set is \<subseteq> set ids" for "is"
    using that
  proof (induction "is")
    case (Cons i "is")
    from one [of i] Cons.prems obtain r where
      "r \<in> set (tasks d)" "t_id r = i" "admitted env lk d types i (t_type r, t_ckey r)"
      "filter (\<lambda>x. t_id x = i) ?applied = [claim_upd e w l r]" by auto
    with Cons show ?case by auto
  qed simp
  then show ?thesis by (simp add: in_id_order_def)
qed

lemma claim_admission_inv:
  assumes "db_inv d" "n \<ge> 1"
  shows "adm_inv env lk d types (claim_admission env lk clk types dl n d)"
    and "length (v_ids (claim_admission env lk clk types dl n d)) \<le> nat (min n 256)"
  using claim_loop_inv [OF assms(1) adm_inv_start, of "nat (min n 256)"] assms(2)
  by (auto simp: claim_admission_def start_admission_def)

lemma claim_running:
  assumes "db_inv d" "n \<ge> 1"
  shows "busy_count (tasks (fst (store_claim env lk clk types w l dl n d))) P
    = busy_count (tasks d) P + reserved_by (v_reserved (claim_admission env lk clk types dl n d)) P"
proof -
  let ?s = "claim_admission env lk clk types dl n d"
  have "list_all2 (admitted env lk d types) (v_ids ?s) (v_reserved ?s)" "distinct (v_ids ?s)"
    using claim_admission_inv(1) [OF assms] by (simp_all add: adm_inv_def)
  from busy_count_claimed [OF db_inv_ids [OF assms(1)] this] assms(2) show ?thesis
    by (simp add: store_claim_def Let_def case_prod_beta)
qed

lemma claim_rows:
  assumes "db_inv d" "n \<ge> 1"
  shows "list_all2 (\<lambda>i x. \<exists>r. r \<in> set (tasks d) \<and> t_id r = i
      \<and> admitted env lk d types i (t_type r, t_ckey r) \<and> x = claim_upd env w l r)
    (v_ids (claim_admission env lk clk types dl n d)) (snd (store_claim env lk clk types w l dl n d))"
proof -
  let ?s = "claim_admission env lk clk types dl n d"
  have "list_all2 (admitted env lk d types) (v_ids ?s) (v_reserved ?s)" "distinct (v_ids ?s)"
    using claim_admission_inv(1) [OF assms] by (simp_all add: adm_inv_def)
  from in_id_order_claimed [OF db_inv_ids [OF assms(1)] this] assms(2) show ?thesis
    by (simp add: store_claim_def Let_def case_prod_beta)
qed

lemma claim_rows_distinct:
  assumes "db_inv d" "n \<ge> 1"
  shows "distinct (map t_id (snd (store_claim env lk clk types w l dl n d)))"
proof -
  let ?s = "claim_admission env lk clk types dl n d"
  have len: "length (v_ids ?s) = length (snd (store_claim env lk clk types w l dl n d))"
    by (rule list_all2_lengthD [OF claim_rows [OF assms]])
  have nth: "v_ids ?s ! i = t_id (snd (store_claim env lk clk types w l dl n d) ! i)" if "i < length (v_ids ?s)" for i
    using list_all2_nthD [OF claim_rows [OF assms] that, of w l] by (auto simp: claim_upd_def)
  have "v_ids ?s = map t_id (snd (store_claim env lk clk types w l dl n d))"
    by (rule nth_equalityI) (simp_all add: len nth)
  moreover have "distinct (v_ids ?s)" using claim_admission_inv(1) [OF assms] by (simp add: adm_inv_def)
  ultimately show ?thesis by simp
qed

lemma list_all2_right:
  "list_all2 P xs ys \<Longrightarrow> y \<in> set ys \<Longrightarrow> \<exists>x \<in> set xs. P x y"
  by (induction rule: list_all2_induct) auto

text \<open>Every returned row is the update of a due, unlocked row of a requested, unpaused type.\<close>

lemma claimed_row:
  assumes "db_inv d" "n \<ge> 1" "x \<in> set (snd (store_claim env lk clk types w l dl n d))"
  shows "\<exists>r. r \<in> set (tasks d) \<and> claim_guard (v_ids (claim_admission env lk clk types dl n d)) r
    \<and> x = claim_upd env w l r \<and> t_run_at r \<le> tx_now env \<and> \<not> lk_task lk (t_id r) \<and> t_type r \<in> set types
    \<and> (\<exists>ty. find_type d (t_type r) = Some ty \<and> \<not> ty_paused ty)"
proof -
  let ?ids = "v_ids (claim_admission env lk clk types dl n d)"
  have "\<exists>i \<in> set ?ids. \<exists>r. r \<in> set (tasks d) \<and> t_id r = i \<and> admitted env lk d types i (t_type r, t_ckey r)
      \<and> x = claim_upd env w l r"
    by (rule list_all2_right [OF claim_rows [OF assms(1,2)] assms(3)])
  then obtain r where r: "r \<in> set (tasks d)" "t_id r \<in> set ?ids" "admitted env lk d types (t_id r) (t_type r, t_ckey r)"
    "x = claim_upd env w l r" by blast
  from admittedD [OF db_inv_ids [OF assms(1)] r(3)] obtain q where q: "t_id q = t_id r" "q \<in> set (tasks d)"
    "t_state q = Queued" "t_run_at q \<le> tx_now env" "\<not> lk_task lk (t_id r)" "t_type q \<in> set types"
    "\<exists>ty. find_type d (t_type q) = Some ty \<and> \<not> ty_paused ty" by blast
  have "q = r" by (rule key_unique [OF db_inv_ids [OF assms(1)] q(2) r(1) q(1)])
  with q r show ?thesis by (auto simp: claim_guard_def)
qed

text \<open>The limits hold after the claim unless they were already exceeded before it.\<close>

lemma claim_type_limit:
  assumes "db_inv d" "find_type d name = Some ty" "ty_max_conc ty = Some m"
  shows "running_count (tasks (fst (store_claim env lk clk types w l dl n d))) name
    \<le> max m (running_count (tasks d) name)"
proof (cases "n \<ge> 1")
  case True
  let ?rs = "v_reserved (claim_admission env lk clk types dl n d)"
  have w: "within_limits d ?rs"
    using claim_admission_inv(1) [OF assms(1) True] by (simp add: adm_inv_def)
  have "busy_count (tasks d) (\<lambda>p. fst p = name) + reserved_by ?rs (\<lambda>p. fst p = name)
      \<le> max m (busy_count (tasks d) (\<lambda>p. fst p = name))"
  proof (cases "\<exists>p \<in> set ?rs. fst p = name")
    case True
    then obtain p where p: "p \<in> set ?rs" "fst p = name" by blast
    with within_limitsD(1) [OF w p(1) _ assms(3)] assms(2) show ?thesis by auto
  next
    case False
    then have "reserved_by ?rs (\<lambda>p. fst p = name) = 0" by (auto intro: reserved_by_zero)
    then show ?thesis by simp
  qed
  then show ?thesis using claim_running [OF assms(1) True] by (simp add: running_count_busy)
qed (simp add: store_claim_def)

lemma claim_key_limit:
  assumes "db_inv d" "find_type d name = Some ty" "ty_max_conc_key ty = Some m"
  shows "running_key_count (tasks (fst (store_claim env lk clk types w l dl n d))) name key
    \<le> max m (running_key_count (tasks d) name key)"
proof (cases "n \<ge> 1")
  case True
  let ?rs = "v_reserved (claim_admission env lk clk types dl n d)"
  have w: "within_limits d ?rs"
    using claim_admission_inv(1) [OF assms(1) True] by (simp add: adm_inv_def)
  have "busy_count (tasks d) (\<lambda>p. p = (name, Some key)) + reserved_by ?rs (\<lambda>p. p = (name, Some key))
      \<le> max m (busy_count (tasks d) (\<lambda>p. p = (name, Some key)))"
  proof (cases "(name, Some key) \<in> set ?rs")
    case True
    with within_limitsD(2) [OF w True _ assms(3)] assms(2) show ?thesis by auto
  next
    case False
    then have "reserved_by ?rs (\<lambda>p. p = (name, Some key)) = 0" by (auto intro: reserved_by_zero)
    then show ?thesis by simp
  qed
  then show ?thesis using claim_running [OF assms(1) True] by (simp add: running_key_count_busy)
qed (simp add: store_claim_def)

end
