(* ===== verification/Renewal.thy ===== *)
theory Renewal
  imports Controller Admission
begin

text \<open>
  Lease renewal of \<open>worker.py\<close> (\<open>_renew_attempts\<close>, \<open>_renewals\<close>): which attempts are due, the
  batches sent to the database, and what each answer does to an attempt. Times are readings of
  the worker's monotonic clock; \<open>off\<close> is what the server's clock is ahead of it. The answer of
  one heartbeat is a function of the batch, \<open>None\<close> when it was not confirmed in time.
\<close>

section \<open>Attempts as renewal sees them\<close>

record attempt =
  at_id :: int
  at_token :: uuid
  at_renewed :: time
  at_requested :: bool
  at_settled :: bool
  at_cause :: "cause option"

definition stop_attempt :: "cause \<Rightarrow> attempt \<Rightarrow> attempt" where
  "stop_attempt c a = a\<lparr>at_cause := stop_cause c (at_cause a)\<rparr>"

lemma stop_attempt_frame [simp]:
  "at_id (stop_attempt c a) = at_id a" "at_token (stop_attempt c a) = at_token a"
  "at_renewed (stop_attempt c a) = at_renewed a" "at_settled (stop_attempt c a) = at_settled a"
  by (simp_all add: stop_attempt_def)

definition out_of_lease :: "settings \<Rightarrow> time \<Rightarrow> attempt \<Rightarrow> bool" where
  "out_of_lease s now a \<longleftrightarrow> now - at_renewed a \<ge> lease_s s"

text \<open>The attempts a renewal sends: in the batch, inside the lease, unsettled and not lost.\<close>

definition renewable :: "settings \<Rightarrow> time \<Rightarrow> int list \<Rightarrow> attempt \<Rightarrow> bool" where
  "renewable s started batch a \<longleftrightarrow> at_id a \<in> set batch \<and> \<not> out_of_lease s started a
     \<and> \<not> at_settled a \<and> at_cause a \<noteq> Some Lost"

definition renewal_budget :: "settings \<Rightarrow> time \<Rightarrow> attempt list \<Rightarrow> rat" where
  "renewal_budget s started live = min (renew_timeout_s s)
     (max (1 / 1000) (Min (set (map (\<lambda>a. at_renewed a + lease_s s - started) live))))"

definition apply_beat :: "time \<Rightarrow> (int \<times> time option) list \<Rightarrow> attempt \<Rightarrow> attempt" where
  "apply_beat started beats a = (case map_of beats (at_id a) of
     None \<Rightarrow> stop_attempt Lost a
   | Some flag \<Rightarrow> (let a' = a\<lparr>at_renewed := started\<rparr>
                  in if flag = None then a' else stop_attempt CancelRequested a'))"

lemma apply_beat_id [simp]: "at_id (apply_beat started beats a) = at_id a"
  by (simp add: apply_beat_def Let_def split: option.split)

definition renew_attempts ::
  "settings \<Rightarrow> time \<Rightarrow> ((int \<times> uuid) list \<Rightarrow> (int \<times> time option) list option) \<Rightarrow> int list
     \<Rightarrow> attempt list \<Rightarrow> attempt list \<times> bool" where
  "renew_attempts s started reply batch atts =
     (let live = filter (renewable s started batch) atts;
          marked = map (\<lambda>a. if at_id a \<in> set batch \<and> out_of_lease s started a then stop_attempt Lost a else a) atts
      in if live = [] then (marked, False)
         else (case reply (map (\<lambda>a. (at_id a, at_token a)) live) of
             None \<Rightarrow> (marked, False)
           | Some beats \<Rightarrow>
               (map (\<lambda>a. if renewable s started batch a then apply_beat started beats a
                         else if at_id a \<in> set batch \<and> out_of_lease s started a then stop_attempt Lost a
                         else a) atts, True)))"

section \<open>The renewal loop\<close>

definition due_attempts :: "settings \<Rightarrow> time \<Rightarrow> attempt list \<Rightarrow> attempt list" where
  "due_attempts s started atts = filter (\<lambda>a. \<not> at_settled a \<and> at_cause a \<noteq> Some Lost
     \<and> (at_requested a \<or> started - at_renewed a \<ge> heartbeat_s s / 2)) atts"

function chunked :: "nat \<Rightarrow> 'a list \<Rightarrow> 'a list list" where
  "chunked n xs = (if xs = [] \<or> n = 0 then [] else take n xs # chunked n (drop n xs))"
  by pat_completeness auto
termination by (relation "measure (\<lambda>(n, xs). length xs)") auto

declare chunked.simps [simp del]

definition expire_locally :: "settings \<Rightarrow> time \<Rightarrow> attempt list \<Rightarrow> attempt list" where
  "expire_locally s now atts = map (\<lambda>a. if out_of_lease s now a then stop_attempt Lost a else a) atts"

text \<open>
  One pass over the due attempts. Chunk \<open>k\<close> starts at \<open>clk (2 * k)\<close> and is followed by a sweep at
  \<open>clk (2 * k + 1)\<close>; \<open>reply k\<close> answers it.
\<close>

fun renew_chunks ::
  "settings \<Rightarrow> (nat \<Rightarrow> time) \<Rightarrow> (nat \<Rightarrow> (int \<times> uuid) list \<Rightarrow> (int \<times> time option) list option) \<Rightarrow> nat
     \<Rightarrow> int list list \<Rightarrow> attempt list \<Rightarrow> attempt list" where
  "renew_chunks s clk reply k [] atts = atts"
| "renew_chunks s clk reply k (b # bs) atts =
     renew_chunks s clk reply (Suc k) bs
       (expire_locally s (clk (2 * k + 1)) (fst (renew_attempts s (clk (2 * k)) (reply k) b atts)))"

definition renewal_pass ::
  "settings \<Rightarrow> time \<Rightarrow> (nat \<Rightarrow> time) \<Rightarrow> (nat \<Rightarrow> (int \<times> uuid) list \<Rightarrow> (int \<times> time option) list option)
     \<Rightarrow> attempt list \<Rightarrow> attempt list" where
  "renewal_pass s started clk reply atts =
     (let due = map at_id (due_attempts s started atts)
      in renew_chunks s clk reply 0 (chunked 1000 due)
           (map (\<lambda>a. if at_id a \<in> set due then a\<lparr>at_requested := False\<rparr> else a) atts))"

section \<open>Batches the store accepts\<close>

lemma concat_chunked: "n > 0 \<Longrightarrow> concat (chunked n xs) = xs"
proof (induction n xs rule: chunked.induct)
  case (1 n xs)
  then show ?case by (subst chunked.simps) simp
qed

lemma chunk_length: "c \<in> set (chunked n xs) \<Longrightarrow> c \<noteq> [] \<and> length c \<le> n"
proof (induction n xs rule: chunked.induct)
  case (1 n xs)
  show ?case
  proof (cases "xs = [] \<or> n = 0")
    case True
    then show ?thesis using 1(2) by (subst (asm) chunked.simps) simp
  next
    case False
    then have "c = take n xs \<or> c \<in> set (chunked n (drop n xs))"
      using 1(2) by (subst (asm) chunked.simps) simp
    with 1(1) False show ?thesis by auto
  qed
qed

lemma batch_bound:
  assumes "distinct (map at_id atts)" "c \<in> set (chunked 1000 ids)"
  shows "length (filter (renewable s started c) atts) \<le> 1000"
proof -
  have "length (filter (renewable s started c) atts) = card (set (map at_id (filter (renewable s started c) atts)))"
    using distinct_card [OF distinct_map_filter_key [OF assms(1)], of "renewable s started c"] by simp
  also have "\<dots> \<le> card (set c)" by (rule card_mono) (auto simp: renewable_def)
  also have "\<dots> \<le> length c" by (rule card_length)
  also have "\<dots> \<le> 1000" using chunk_length [OF assms(2)] by simp
  finally show ?thesis .
qed

section \<open>The local lease is inside the stored one\<close>

text \<open>
  An attempt is covered when every row that still carries its token has a lease that ends no
  earlier than the attempt's own deadline, on the server's clock.
\<close>

definition covered :: "settings \<Rightarrow> rat \<Rightarrow> db \<Rightarrow> attempt \<Rightarrow> bool" where
  "covered s off d a \<longleftrightarrow> (\<forall>r \<in> set (tasks d). t_id r = at_id a \<and> t_token r = Some (at_token a) \<longrightarrow>
     (case t_lease_until r of None \<Rightarrow> False | Some l \<Rightarrow> at_renewed a + lease_s s + off \<le> l))"

text \<open>As long as the attempt is inside its own lease, the reaper does not see it as expired.\<close>

lemma covered_not_expired:
  assumes "covered s off d a" "\<not> out_of_lease s now a" "r \<in> set (tasks d)" "t_id r = at_id a"
    "t_token r = Some (at_token a)" "srv \<le> now + off"
  shows "\<not> lease_expired srv r"
  using assms by (auto simp: covered_def out_of_lease_def lease_expired_def split: option.splits)

text \<open>A claim issued at \<open>claimed_at\<close> starts every attempt covered.\<close>

lemma claim_covers:
  assumes "db_inv d" "n \<ge> 1" "claimed_at + off \<le> clock env"
    "r \<in> set (snd (store_claim env lk clk types w (lease_s s) dl n d))"
    "at_id a = t_id r" "at_renewed a = claimed_at"
  shows "covered s off (fst (store_claim env lk clk types w (lease_s s) dl n d)) a"
proof -
  let ?ids = "v_ids (claim_admission env lk clk types dl n d)"
  let ?u = "claim_upd env w (lease_s s)"
  obtain r0 where r0: "r0 \<in> set (tasks d)" "claim_guard ?ids r0" "r = ?u r0"
    using claimed_row [OF assms(1,2,4)] by blast
  have tasks: "tasks (fst (store_claim env lk clk types w (lease_s s) dl n d)) = update_where (claim_guard ?ids) ?u (tasks d)"
    using assms(2) by (simp add: store_claim_def Let_def case_prod_beta)
  show ?thesis
    unfolding covered_def tasks
  proof (intro ballI impI)
    fix x assume x: "x \<in> set (update_where (claim_guard ?ids) ?u (tasks d))" "t_id x = at_id a \<and> t_token x = Some (at_token a)"
    then obtain y where y: "y \<in> set (tasks d)" "x = (if claim_guard ?ids y then ?u y else y)"
      by (auto simp: update_where_def)
    have "t_id y = t_id x" using y(2) by (simp add: claim_tr.upd_id)
    then have "t_id y = t_id r0" using x(2) assms(5) r0(3) by (simp add: claim_tr.upd_id)
    then have "y = r0" using key_unique [OF db_inv_ids [OF assms(1)] y(1) r0(1)] by simp
    then show "case t_lease_until x of None \<Rightarrow> False | Some l \<Rightarrow> at_renewed a + lease_s s + off \<le> l"
      using y(2) r0(2) assms(3,6) by (simp add: claim_upd_def)
  qed
qed

lemma heartbeat_lease:
  assumes "covered s off d a" "at_renewed a + off \<le> clock env"
    "store_heartbeat env rs (lease_s s) d = Inr (d', beats)"
  shows "covered s off d' a"
proof -
  have d': "tasks d' = update_where (heartbeat_guard rs) (heartbeat_upd env (lease_s s)) (tasks d) \<or> d' = d"
    using assms(3) by (auto simp: store_heartbeat_def split: if_splits)
  show ?thesis
    using d'
  proof
    assume d': "tasks d' = update_where (heartbeat_guard rs) (heartbeat_upd env (lease_s s)) (tasks d)"
    show ?thesis
      unfolding covered_def d'
    proof (intro ballI impI)
      fix x assume x: "x \<in> set (update_where (heartbeat_guard rs) (heartbeat_upd env (lease_s s)) (tasks d))"
        "t_id x = at_id a \<and> t_token x = Some (at_token a)"
      then consider (old) "x \<in> set (tasks d)" | (new) r where "r \<in> set (tasks d)" "x = heartbeat_upd env (lease_s s) r"
        by (auto simp: set_update_where)
      then show "case t_lease_until x of None \<Rightarrow> False | Some l \<Rightarrow> at_renewed a + lease_s s + off \<le> l"
      proof cases
        case old
        then show ?thesis using assms(1) x(2) by (simp add: covered_def)
      next
        case new
        then show ?thesis using assms(2) by (simp add: heartbeat_upd_def)
      qed
    qed
  qed (use assms(1) in simp)
qed

text \<open>
  A confirmed heartbeat moves the stored lease past the attempt's new deadline, too: the deadline
  counts from before the statement.
\<close>

lemma confirmed_beat_covers:
  assumes "store_heartbeat env rs (lease_s s) d = Inr (d', beats)" "started + off \<le> clock env"
    "(at_id a, at_token a) \<in> set rs" "distinct (map fst rs)" "\<forall>r \<in> set (tasks d). row_inv r"
    "\<forall>r \<in> set (tasks d). t_id r = at_id a \<and> t_token r = Some (at_token a) \<longrightarrow> t_state r = Running"
  shows "covered s off d' (a\<lparr>at_renewed := started\<rparr>)"
proof -
  have d': "tasks d' = update_where (heartbeat_guard rs) (heartbeat_upd env (lease_s s)) (tasks d)"
    using assms(1,3) by (auto simp: store_heartbeat_def split: if_splits)
  show ?thesis
    unfolding covered_def d'
  proof (intro ballI impI)
    fix x assume x: "x \<in> set (update_where (heartbeat_guard rs) (heartbeat_upd env (lease_s s)) (tasks d))"
      "t_id x = at_id (a\<lparr>at_renewed := started\<rparr>) \<and> t_token x = Some (at_token (a\<lparr>at_renewed := started\<rparr>))"
    then obtain r where r: "r \<in> set (tasks d)" "t_id r = at_id a" "t_token r = Some (at_token a)"
      "x = (if heartbeat_guard rs r then heartbeat_upd env (lease_s s) r else r)"
      by (auto simp: update_where_def heartbeat_upd_def split: if_splits)
    have "heartbeat_guard rs r"
      using r assms(3,6) by (force simp: heartbeat_guard_def)
    then show "case t_lease_until x of None \<Rightarrow> False
      | Some l \<Rightarrow> at_renewed (a\<lparr>at_renewed := started\<rparr>) + lease_s s + off \<le> l"
      using r(4) assms(2) by (simp add: heartbeat_upd_def)
  qed
qed

lemma live_distinct:
  "distinct (map at_id atts) \<Longrightarrow>
    distinct (map fst (map (\<lambda>a. (at_id a, at_token a)) (filter (renewable s started batch) atts)))"
  by (simp add: comp_def distinct_map_filter_key)

lemma covered_stop [simp]: "covered s off d (stop_attempt c a) = covered s off d a"
  by (simp add: covered_def cong: option.case_cong)

text \<open>
  Whatever a renewal does, every attempt stays covered: a confirmed beat restarts both deadlines
  from times in the right order, and an unconfirmed one leaves the local deadline alone.
\<close>

lemma renewal_keeps_covered:
  assumes inv: "db_inv d" and dist: "distinct (map at_id atts)" and clk: "started + off \<le> clock env"
    and cov: "\<forall>a \<in> set atts. covered s off d a \<and> at_renewed a \<le> started"
    and beat: "store_heartbeat env (map (\<lambda>a. (at_id a, at_token a)) (filter (renewable s started batch) atts)) (lease_s s) d
      = Inr (d', beats)"
    and run: "renew_attempts s started (\<lambda>_. if confirmed then Some beats else None) batch atts = (atts', ok)"
  shows "\<forall>a \<in> set atts'. covered s off d' a"
proof -
  let ?rs = "map (\<lambda>a. (at_id a, at_token a)) (filter (renewable s started batch) atts)"
  have old: "covered s off d' a" if "a \<in> set atts" for a
  proof (rule heartbeat_lease [OF _ _ beat])
    show "covered s off d a" "at_renewed a + off \<le> clock env" using cov that clk by fastforce+
  qed
  have new: "covered s off d' (a\<lparr>at_renewed := started\<rparr>)" if "a \<in> set atts" "renewable s started batch a" for a
  proof (rule confirmed_beat_covers [OF beat clk])
    show "(at_id a, at_token a) \<in> set ?rs" using that by auto
    show "distinct (map fst ?rs)" by (rule live_distinct [OF dist])
    show "\<forall>r \<in> set (tasks d). row_inv r" using db_inv_row [OF inv] by blast
    then show "\<forall>r \<in> set (tasks d). t_id r = at_id a \<and> t_token r = Some (at_token a) \<longrightarrow> t_state r = Running"
      by (auto simp: row_inv_def)
  qed
  have "covered s off d' (apply_beat started beats a)" if "a \<in> set atts" "renewable s started batch a" for a
    using old [OF that(1)] new [OF that] by (simp add: apply_beat_def Let_def split: option.split)
  with old run show ?thesis
    by (auto simp: renew_attempts_def Let_def split: if_splits)
qed

end
