(* ===== verification/ClaimOrder.thy ===== *)
theory ClaimOrder
  imports Admission
begin

text \<open>
  The order a claim keeps and that it makes progress: when no other transaction holds a row,
  a claim with a claimable task returns at least one row, and the first row it returns is at or
  before every claimable task in the order of the queue.
\<close>

section \<open>The first candidate\<close>

lemma order_limit_first:
  assumes "x \<in> set xs" "n > 0"
  shows "\<exists>y ys. order_limit k n xs = y # ys \<and> y \<in> set xs \<and> k y \<le> k x"
proof -
  let ?l = "sort_key k xs"
  have x: "x \<in> set ?l" using assms(1) by simp
  then obtain y ys where l: "?l = y # ys" by (cases ?l) auto
  have "sorted (map k (y # ys))" using l by (metis sorted_sort_key)
  with x l have "k y \<le> k x" by auto
  moreover have "y \<in> set xs" using l by (metis list.set_intros(1) set_sort)
  moreover have "order_limit k n xs = y # take (n - 1) ys"
    using l assms(2) by (cases n) (simp_all add: order_limit_def)
  ultimately show ?thesis by blast
qed

definition claimable :: "pg \<Rightarrow> db \<Rightarrow> ustr list \<Rightarrow> task_row \<Rightarrow> bool" where
  "claimable env d types r \<longleftrightarrow> r \<in> set (tasks d) \<and> t_state r = Queued \<and> t_run_at r \<le> tx_now env
     \<and> t_type r \<in> set types
     \<and> (case find_type d (t_type r) of None \<Rightarrow> False | Some ty \<Rightarrow> \<not> ty_paused ty
         \<and> (case ty_max_conc ty of None \<Rightarrow> True | Some m \<Rightarrow> running_count (tasks d) (t_type r) < m)
         \<and> (case (ty_max_conc_key ty, t_ckey r) of
              (Some m, Some key) \<Rightarrow> running_key_count (tasks d) (t_type r) key < m | _ \<Rightarrow> True))"

definition unlocked :: "locks \<Rightarrow> bool" where
  "unlocked lk \<longleftrightarrow> (\<forall>i. \<not> lk_task lk i) \<and> (\<forall>n. \<not> lk_share lk n \<and> \<not> lk_update lk n)"

lemma cand_key_to_candidate [simp]: "cand_key (to_candidate env ty r) = claim_key r"
  by (simp add: cand_key_def claim_key_def to_candidate_def)

text \<open>An eligible type and an open key are exactly what admission will check again.\<close>

lemma open_iff_claimable:
  assumes "db_inv d" "find_type d (t_type r) = Some ty" "r \<in> set (tasks d)" "due (tx_now env) b [] r"
  shows "eligible_type d types [] ty \<and> key_open d types [] r \<longleftrightarrow> claimable env d types r"
proof -
  have ty: "ty \<in> set (task_types d)" "ty_name ty = t_type r"
    using find_type_SomeD [OF assms(2)] by auto
  have "limit_ok (ty_max_conc_key ty)" using assms(1) ty(1) by (simp add: db_inv_def)
  then have pos: "1 \<le> m" if "ty_max_conc_key ty = Some m" for m using that by (simp add: limit_ok_def)
  show ?thesis
    using assms ty(2) pos
    by (cases "t_ckey r"; cases "ty_max_conc_key ty"; cases "ty_max_conc ty")
      (auto simp: claimable_def eligible_type_def key_open_def saturated_key_def due_def)
qed

lemma find_type_in:
  "db_inv d \<Longrightarrow> ty \<in> set (task_types d) \<Longrightarrow> find_type d (ty_name ty) = Some ty"
  by (simp add: find_type_def db_inv_def find_row_key)

lemma ready_all:
  assumes "length (concat (map f rows)) = length rows" "\<And>r. length (f r) \<le> 1" "h \<in> set rows"
  shows "f h \<noteq> []"
proof -
  have le: "length (concat (map f xs)) \<le> length xs" for xs
  proof (induction xs)
    case (Cons x xs)
    then show ?case using assms(2) [of x] by simp
  qed simp
  from assms(3) obtain ys zs where rows: "rows = ys @ h # zs" by (meson split_list)
  with assms(1) le [of ys] le [of zs] show ?thesis by auto
qed

lemma ready_candidate_claimable:
  assumes "db_inv d" "claimable env d types r" "unlocked lk"
  shows "\<exists>ty. find_type d (t_type r) = Some ty \<and> ready_candidate env d types [] [] r = [to_candidate env ty r]
     \<and> eligible_type d types [] ty \<and> key_open d types [] r"
proof -
  from assms(2) obtain ty where ty: "find_type d (t_type r) = Some ty"
    by (auto simp: claimable_def split: option.splits)
  have "r \<in> set (tasks d)" "due (tx_now env) (lk_task lk) [] r"
    using assms(2,3) by (auto simp: claimable_def due_def unlocked_def)
  from open_iff_claimable [OF assms(1) ty this] assms(2) ty show ?thesis
    by (auto simp: ready_candidate_def)
qed

lemma candidates_first:
  assumes inv: "db_inv d" and lk: "unlocked lk" and r: "claimable env d types r" and n: "n > 0"
  shows "\<exists>c cs. candidates env lk d types [] [] [] n = c # cs \<and> cand_key c \<le> claim_key r"
proof -
  let ?head = "claim_head env lk d [] n"
  let ?ready = "concat (map (ready_candidate env d types [] []) ?head)"
  have due_r: "due (tx_now env) (lk_task lk) [] r" and in_r: "r \<in> set (tasks d)"
    using r lk by (auto simp: claimable_def due_def unlocked_def)
  obtain ty where ty: "find_type d (t_type r) = Some ty" "eligible_type d types [] ty" "key_open d types [] r"
    using ready_candidate_claimable [OF inv r lk] by blast
  have first: "\<exists>c cs. order_limit cand_key n xs = c # cs \<and> cand_key c \<le> claim_key r"
    if "x \<in> set xs" "cand_key x \<le> claim_key r" for x xs
    using order_limit_first [OF that(1) n, of cand_key] that(2) by (meson order_trans)
  show ?thesis
  proof (cases "length ?ready = length ?head")
    case True
    have "r \<in> set (filter (due (tx_now env) (lk_task lk) []) (tasks d))" using in_r due_r by simp
    from order_limit_first [OF this n, of claim_key] obtain h hs where
      h: "?head = h # hs" "claim_key h \<le> claim_key r" by (auto simp: claim_head_def)
    have "length (ready_candidate env d types [] [] x) \<le> 1" for x
      by (simp add: ready_candidate_def split: option.split)
    from ready_all [OF True this, of h] h(1) have "ready_candidate env d types [] [] h \<noteq> []" by simp
    then obtain c where c: "c \<in> set (ready_candidate env d types [] [] h)"
      by (meson last_in_set)
    then have "cand_key c = claim_key h" by (auto dest: ready_candidateD)
    moreover have "c \<in> set ?ready" using c h(1) by simp
    ultimately show ?thesis using first h(2) True by (simp add: candidates_def Let_def)
  next
    case False
    let ?tys = "filter (eligible_type d types []) (task_types d)"
    have t: "ty \<in> set ?tys" "ty_name ty = t_type r" using find_type_SomeD [OF ty(1)] ty(2) by auto
    have "r \<in> set (filter (\<lambda>r. t_type r = ty_name ty \<and> due (tx_now env) (lk_task lk) [] r
        \<and> key_open d types [] r) (tasks d))" using in_r due_r ty(3) t(2) by simp
    from order_limit_first [OF this n, of claim_key] obtain h hs where
      h: "type_candidates env lk d types [] [] n ty = to_candidate env ty h # hs" "claim_key h \<le> claim_key r"
      by (auto simp: type_candidates_def)
    have "to_candidate env ty h \<in> set (concat (map (type_candidates env lk d types [] [] n) ?tys))"
      using t(1) h(1) by auto
    from first [OF this] h(2) False show ?thesis by (simp add: candidates_def Let_def)
  qed
qed

lemma candidates_claimable:
  assumes inv: "db_inv d" and lk: "unlocked lk" and c: "c \<in> set (candidates env lk d types [] [] [] n)"
  shows "\<exists>r ty. claimable env d types r \<and> find_type d (t_type r) = Some ty \<and> c = to_candidate env ty r"
proof -
  from c consider
      (head) r where "r \<in> set (claim_head env lk d [] n)" "c \<in> set (ready_candidate env d types [] [] r)"
    | (seek) ty where "ty \<in> set (task_types d)" "eligible_type d types [] ty"
        "c \<in> set (type_candidates env lk d types [] [] n ty)"
    by (auto simp: candidates_def Let_def split: if_splits dest!: in_order_limit)
  then show ?thesis
  proof cases
    case head
    then have r: "r \<in> set (tasks d)" "due (tx_now env) (lk_task lk) [] r"
      by (auto simp: claim_head_def dest!: in_order_limit)
    obtain ty where ty: "find_type d (t_type r) = Some ty" "c = to_candidate env ty r"
      using ready_candidateD [OF head(2)] by blast
    with head(2) have "eligible_type d types [] ty \<and> key_open d types [] r"
      by (simp add: ready_candidate_def split: if_splits)
    with open_iff_claimable [OF inv ty(1) r] ty show ?thesis by blast
  next
    case seek
    then obtain r where r: "r \<in> set (tasks d)" "due (tx_now env) (lk_task lk) [] r"
      "t_type r = ty_name ty" "key_open d types [] r" "c = to_candidate env ty r"
      by (auto simp: type_candidates_def dest!: in_order_limit)
    have ty: "find_type d (t_type r) = Some ty" using find_type_in [OF inv seek(1)] r(3) by simp
    from open_iff_claimable [OF inv ty r(1,2)] seek(2) r ty show ?thesis by blast
  qed
qed

section \<open>Admission of the first candidate\<close>

lemma admit_first:
  assumes "db_inv d" "unlocked lk" "claimable env d types r" "find_type d (t_type r) = Some ty"
  shows "\<exists>s b. admit_one env lk clk until cap d (to_candidate env ty r) start_admission = (s, b)
    \<and> v_ids s = [t_id r]"
proof -
  let ?c = "to_candidate env ty r"
  have r: "r \<in> set (tasks d)" "t_state r = Queued" "t_run_at r \<le> tx_now env" "\<not> ty_paused ty"
    using assms(3,4) by (auto simp: claimable_def)
  have c: "k_id ?c = t_id r" "k_type ?c = t_type r" "k_ckey ?c = t_ckey r"
    by (simp_all add: to_candidate_def)
  have "find_row (\<lambda>x. t_id x = t_id r) (tasks d) = Some r"
    using r(1) db_inv_ids [OF assms(1)] by (simp add: find_row_key)
  then have relock: "relocked env lk d ?c"
    using r assms(2) c by (simp add: relocked_def unlocked_def)
  have pol: "locked_policy lk d ?c = Some ty"
    using assms(2,4) c by (simp add: locked_policy_def unlocked_def Let_def)
  have name: "ty_name ty = t_type r" using find_type_SomeD [OF assms(4)] by simp
  have tf: "\<not> type_full (new_entry d ty)"
    using assms(3,4) name by (auto simp: type_full_def new_entry_def claimable_def split: option.splits)
  have kf: "\<not> key_full d (new_entry d ty) [] ?c"
    using assms(3,4) c
    by (auto simp: key_full_def new_entry_def claimable_def reserved_count_def split: option.splits)
  show ?thesis
    using relock pol tf kf r(4) c
    by (simp add: admit_one_def admit_limited_def start_admission_def Let_def)
qed

lemma admit_one_prefix: "\<exists>xs. v_ids (fst (admit_one env lk clk until cap d c s)) = v_ids s @ xs"
  by (auto simp: admit_one_def admit_limited_def skip_type_def Let_def split: option.splits)

lemma admit_all_prefix: "\<exists>xs. v_ids (fst (admit_all env lk clk until cap d cs s)) = v_ids s @ xs"
proof (induction cs arbitrary: s)
  case (Cons c cs)
  obtain s1 b where s1: "admit_one env lk clk until cap d c s = (s1, b)" by fastforce
  with admit_one_prefix [of env lk clk until cap d c s] obtain xs where "v_ids s1 = v_ids s @ xs" by auto
  with Cons.IH [of s1] s1 show ?case by (cases b) auto
qed simp

lemma claim_loop_prefix: "\<exists>xs. v_ids (claim_loop env lk clk until cap d types s) = v_ids s @ xs"
proof (induction env lk clk until cap d types s rule: claim_loop.induct)
  case (1 env lk clk until cap d types s)
  let ?cs = "candidates env lk d types (v_skip s) (v_skip_types s) (v_skip_keys s) (cap - length (v_ids s))"
  obtain s' b where run: "admit_all env lk clk until cap d ?cs s = (s', b)" by fastforce
  with admit_all_prefix [of env lk clk until cap d ?cs s]
  obtain xs where xs: "v_ids s' = v_ids s @ xs" by auto
  show ?case
  proof (cases "b \<or> ?cs = [] \<or> clk (v_reads s') \<ge> until")
    case True
    then show ?thesis using xs run by (subst claim_loop.simps) (auto simp: Let_def split: bool.split)
  next
    case False
    then have run': "(s', False) = admit_all env lk clk until cap d ?cs s" using run by auto
    from "1.IH" [OF refl run' refl refl] False xs run'
    show ?thesis by (subst claim_loop.simps) (auto simp: Let_def split: prod.splits)
  qed
qed

lemma claim_admission_first:
  assumes inv: "db_inv d" and lk: "unlocked lk" and r: "claimable env d types r" and n: "n \<ge> 1"
  shows "\<exists>h xs. v_ids (claim_admission env lk clk types dl n d) = t_id h # xs
    \<and> claimable env d types h \<and> claim_key h \<le> claim_key r"
proof -
  let ?cap = "nat (min n 256)" and ?until = "clk 0 + dl"
  from n have "?cap > 0" by simp
  from candidates_first [OF inv lk r this] obtain c cs where
    cs: "candidates env lk d types [] [] [] ?cap = c # cs" "cand_key c \<le> claim_key r" by blast
  from candidates_claimable [OF inv lk, of c env types ?cap] cs(1) obtain h ty where
    h: "claimable env d types h" "find_type d (t_type h) = Some ty" "c = to_candidate env ty h" by auto
  obtain s1 b where s1: "admit_one env lk clk ?until ?cap d c start_admission = (s1, b)" "v_ids s1 = [t_id h]"
    using admit_first [OF inv lk h(1,2)] h(3) by blast
  obtain s2 b2 where s2: "admit_all env lk clk ?until ?cap d (c # cs) start_admission = (s2, b2)" by fastforce
  have "\<exists>xs. v_ids s2 = t_id h # xs"
    using s1 s2 admit_all_prefix [of env lk clk ?until ?cap d cs s1] by (cases b) auto
  then have "\<exists>xs. v_ids (claim_loop env lk clk ?until ?cap d types start_admission) = t_id h # xs"
    using cs(1) s2
      claim_loop_prefix [of env lk clk ?until ?cap d types "s2\<lparr>v_reads := v_reads s2 + 1\<rparr>"]
    by (subst claim_loop.simps) (auto simp: Let_def start_admission_def split: bool.split)
  with h cs(2) show ?thesis by (auto simp: claim_admission_def)
qed

lemma claim_takes_head:
  assumes "db_inv d" "unlocked lk" "claimable env d types r" "n \<ge> 1"
  shows "\<exists>x xs. snd (store_claim env lk clk types w l dl n d) = x # xs \<and> claim_key x \<le> claim_key r"
proof -
  from claim_admission_first [OF assms] obtain h ids where
    h: "v_ids (claim_admission env lk clk types dl n d) = t_id h # ids" "claimable env d types h"
    "claim_key h \<le> claim_key r" by blast
  from claim_rows [OF assms(1,4), where env = env and lk = lk and types = types and clk = clk
      and dl = dl and w = w and l = l] h(1) obtain x xs r0 where
    x: "snd (store_claim env lk clk types w l dl n d) = x # xs" "r0 \<in> set (tasks d)" "t_id r0 = t_id h"
    "x = claim_upd env w l r0" by (auto simp: list_all2_Cons1)
  have "r0 = h"
    using x(2,3) h(2) key_unique [OF db_inv_ids [OF assms(1)]] by (simp add: claimable_def)
  then have "claim_key x = claim_key h" using x(4) by (simp add: claim_key_def claim_upd_def)
  with x(1) h(3) show ?thesis by auto
qed

end
