(* ===== verification/Enqueue.thy ===== *)
theory Enqueue
  imports Database Utf8
begin

text \<open>
  \<open>store.enqueue\<close> and its argument checks. The insert is one statement with \<open>ON CONFLICT DO
  NOTHING\<close> on the active-key index, followed on conflict by a lookup in a later snapshot;
  \<open>others k\<close> is what concurrent sessions commit between statement \<open>k\<close> and the next one, and
  \<open>ticks k\<close> the reading of the monotonic clock in round \<open>k\<close>. The retry loop runs on fuel.
\<close>

section \<open>Argument checks\<close>

definition check_arg_text :: "ustr \<Rightarrow> nat \<Rightarrow> exn + unit" where
  "check_arg_text value max_bytes =
     (if 0 \<in> set value then Inl InvalidInput
      else case utf8_encode value of
        Inl _ \<Rightarrow> Inl InvalidInput
      | Inr bs \<Rightarrow> if \<not> (1 \<le> length bs \<and> length bs \<le> max_bytes) then Inl InvalidInput else Inr ())"

definition check_name :: "ustr \<Rightarrow> exn + unit" where
  "check_name name = check_arg_text name MAX_NAME_BYTES"

definition check_key :: "ustr option \<Rightarrow> exn + unit" where
  "check_key value = (case value of None \<Rightarrow> Inr () | Some s \<Rightarrow> check_arg_text s MAX_KEY_BYTES)"

definition MIN_PRIORITY :: int where "MIN_PRIORITY = - (2 ^ 31)"
definition MAX_PRIORITY :: int where "MAX_PRIORITY = 2 ^ 31 - 1"

fun check_priority :: "scalar \<Rightarrow> exn + unit" where
  "check_priority (SBool b) = Inl InvalidInput"
| "check_priority (SInt i) =
     (if MIN_PRIORITY \<le> i \<and> i \<le> MAX_PRIORITY then Inr () else Inl InvalidInput)"
| "check_priority v = Inl InvalidInput"

text \<open>The second component of \<open>run_at\<close> says whether the datetime carries a timezone.\<close>

definition check_new_task :: "new_task \<Rightarrow> exn + unit" where
  "check_new_task nt =
     bind_result (check_name (n_type nt)) (\<lambda>_.
     bind_result (check_key (n_key nt)) (\<lambda>_.
     bind_result (check_key (n_ckey nt)) (\<lambda>_.
     bind_result (check_priority (n_priority nt)) (\<lambda>_.
       case n_run_at nt of
         Some (_, has_tz) \<Rightarrow> if \<not> has_tz then Inl InvalidInput else Inr ()
       | None \<Rightarrow> Inr ()))))"

section \<open>The insert\<close>

fun priority_of :: "scalar \<Rightarrow> int" where
  "priority_of (SInt i) = i"
| "priority_of v = 0"

definition new_row :: "pg \<Rightarrow> new_task \<Rightarrow> int \<Rightarrow> task_row" where
  "new_row env nt tid = \<lparr>
     t_id = tid, t_type = n_type nt, t_state = Queued, t_priority = priority_of (n_priority nt),
     t_key = n_key nt, t_ckey = n_ckey nt, t_input = to_jsonb env (n_input nt),
     t_result = None, t_error = None, t_progress = None, t_attempt = 0, t_failures = 0,
     t_max_attempts = p_max_attempts (n_policy nt), t_timeout = p_attempt_timeout (n_policy nt),
     t_backoff = p_backoff (n_policy nt), t_token = None, t_lease_until = None, t_worker = None,
     t_cancel_at = None, t_created_at = tx_now env,
     t_run_at = (case n_run_at nt of None \<Rightarrow> tx_now env | Some (t, _) \<Rightarrow> t),
     t_started_at = None, t_finished_at = None,
     t_metadata = map_option (to_jsonb env) (n_metadata nt)\<rparr>"

definition active_with_key :: "ustr \<Rightarrow> ustr option \<Rightarrow> task_row \<Rightarrow> bool" where
  "active_with_key ty key r \<longleftrightarrow> t_type r = ty \<and> key \<noteq> None \<and> t_key r = key
     \<and> (t_state r = Queued \<or> t_state r = Running)"

definition find_active_by_key :: "db \<Rightarrow> ustr \<Rightarrow> ustr option \<Rightarrow> int option" where
  "find_active_by_key d ty key = map_option t_id (find_row (active_with_key ty key) (tasks d))"

text \<open>\<open>_ENQUEUE\<close>. A conflicting insert still draws a value from the identity sequence.\<close>

definition enqueue_insert :: "pg \<Rightarrow> new_task \<Rightarrow> db \<Rightarrow> db \<times> int option" where
  "enqueue_insert env nt d =
     (let tid = next_id d; d1 = d\<lparr>next_id := tid + 1\<rparr>
      in if \<exists>r \<in> set (tasks d). active_with_key (n_type nt) (n_key nt) r then (d1, None)
         else (let r = new_row env nt tid
               in (publish env [r] (d1\<lparr>tasks := tasks d @ [r]\<rparr>), Some tid)))"

section \<open>The loop\<close>

text \<open>
  The result carries the notifications sent inside a caller-owned transaction; on an idle
  autocommit connection (\<open>in_tx\<close> false) the caller sends hints after the commit instead.
\<close>

definition enqueue_notices :: "bool \<Rightarrow> ustr \<Rightarrow> (ustr \<times> ustr) list" where
  "enqueue_notices in_tx ty =
     (if in_tx then [(lit ''fronta_wake'', ty), (lit ''fronta_feed'', lit ''queued'')] else [])"

fun enqueue_loop ::
  "nat \<Rightarrow> (nat \<Rightarrow> pg) \<Rightarrow> (nat \<Rightarrow> db \<Rightarrow> db) \<Rightarrow> (nat \<Rightarrow> rat) \<Rightarrow> rat \<Rightarrow> bool \<Rightarrow> new_task \<Rightarrow> nat \<Rightarrow> db
     \<Rightarrow> (exn + db \<times> int \<times> (ustr \<times> ustr) list) option" where
  "enqueue_loop 0 env others ticks deadline in_tx nt k d = None"
| "enqueue_loop (Suc fuel) env others ticks deadline in_tx nt k d =
     (case enqueue_insert (env k) nt d of
        (d1, Some tid) \<Rightarrow> Some (Inr (d1, tid, enqueue_notices in_tx (n_type nt)))
      | (d1, None) \<Rightarrow>
          let d2 = others (2 * k) d1
          in case find_active_by_key d2 (n_type nt) (n_key nt) of
               Some tid \<Rightarrow> Some (Inr (d2, tid, []))
             | None \<Rightarrow>
                 if ticks k > deadline then Some (Inl TimeoutError)
                 else enqueue_loop fuel env others ticks deadline in_tx nt (Suc k)
                        (others (2 * k + 1) d2))"

definition store_enqueue ::
  "nat \<Rightarrow> (nat \<Rightarrow> pg) \<Rightarrow> (nat \<Rightarrow> db \<Rightarrow> db) \<Rightarrow> (nat \<Rightarrow> rat) \<Rightarrow> rat \<Rightarrow> rat \<Rightarrow> bool \<Rightarrow> new_task \<Rightarrow> db
     \<Rightarrow> (exn + db \<times> int \<times> (ustr \<times> ustr) list) option" where
  "store_enqueue fuel env others ticks start deadline_s in_tx nt d =
     (case check_new_task nt of
        Inl e \<Rightarrow> Some (Inl e)
      | Inr _ \<Rightarrow> enqueue_loop fuel env others ticks (start + deadline_s) in_tx nt 0 d)"

section \<open>Facts about the checks\<close>

lemma check_arg_text_iff:
  "check_arg_text s n = Inr () \<longleftrightarrow>
     0 \<notin> set s \<and> \<not> has_surrogate s \<and> 1 \<le> utf8_len s \<and> utf8_len s \<le> n"
  by (auto simp: check_arg_text_def utf8_encode_def utf8_len_def)

lemma check_arg_text_Inl: "check_arg_text s n = Inl e \<Longrightarrow> e = InvalidInput"
  by (auto simp: check_arg_text_def split: if_splits sum.splits)

lemma check_priority_iff:
  "check_priority v = Inr () \<longleftrightarrow> (\<exists>i. v = SInt i \<and> MIN_PRIORITY \<le> i \<and> i \<le> MAX_PRIORITY)"
  by (cases v) auto

lemma check_priority_Inl: "check_priority v = Inl e \<Longrightarrow> e = InvalidInput"
  by (cases v) (auto split: if_splits)

lemma check_new_task_Inl: "check_new_task nt = Inl e \<Longrightarrow> e = InvalidInput"
  by (cases "check_name (n_type nt)"; cases "check_key (n_key nt)"; cases "check_key (n_ckey nt)";
      cases "check_priority (n_priority nt)")
    (auto simp: check_new_task_def check_name_def check_key_def dest!: check_arg_text_Inl
      check_priority_Inl split: option.splits if_splits)

section \<open>The insert keeps the invariant\<close>

lemma row_inv_new_row: "policy_ok (n_policy nt) \<Longrightarrow> row_inv (new_row env nt i)"
  by (simp add: row_inv_def new_row_def policy_ok_def)

lemma new_row_simps [simp]:
  "t_id (new_row env nt i) = i" "t_type (new_row env nt i) = n_type nt"
  "t_key (new_row env nt i) = n_key nt" "t_state (new_row env nt i) = Queued"
  by (simp_all add: new_row_def)

lemma tasks_inv_insert:
  assumes "tasks_inv n rows" "row_inv r" "t_id r = n"
    "\<not> (\<exists>s \<in> set rows. active_with_key (t_type r) (t_key r) s)"
  shows "tasks_inv (n + 1) (rows @ [r])"
proof -
  have fresh: "\<forall>s \<in> set rows. t_id s < n" using assms(1) by (simp add: tasks_inv_def)
  then have "distinct (map t_id (rows @ [r]))"
    using assms(1,3) by (auto simp: tasks_inv_def)
  moreover have "\<forall>s \<in> set (rows @ [r]). 1 \<le> t_id s \<and> t_id s < n + 1 \<and> row_inv s"
    using assms(1-3) by (auto simp: tasks_inv_def)
  moreover have "active_keys_unique (rows @ [r])"
    unfolding active_keys_unique_def
  proof (intro ballI impI, elim conjE)
    fix a b
    assume ab: "a \<in> set (rows @ [r])" "b \<in> set (rows @ [r])"
      "active (t_state a)" "active (t_state b)" "t_key a \<noteq> None" "t_key a = t_key b" "t_type a = t_type b"
    have clash: False if "s \<in> set rows" "active (t_state s)" "t_key r \<noteq> None" "t_key s = t_key r"
      "t_type s = t_type r" for s
      using assms(4) that by (auto simp: active_with_key_def active_def)
    have old: "active_keys_unique rows" using assms(1) by (simp add: tasks_inv_def)
    consider "a \<in> set rows" "b \<in> set rows" | "a = r" "b = r" | "a \<in> set rows" "b = r"
      | "a = r" "b \<in> set rows" using ab(1,2) by auto
    then show "t_id a = t_id b"
    proof cases
      case 1
      then show ?thesis using old ab(3-) unfolding active_keys_unique_def by blast
    next
      case 3
      then show ?thesis using clash[of a] ab(3-) by metis
    next
      case 4
      then show ?thesis using clash[of b] ab(3-) by metis
    qed simp
  qed
  ultimately show ?thesis using assms(1) by (simp add: tasks_inv_def)
qed

lemma tasks_inv_mono: "tasks_inv n rows \<Longrightarrow> tasks_inv (n + 1) rows"
  by (auto simp: tasks_inv_def)

lemma db_inv_enqueue_insert [inv_intros]:
  assumes "db_inv d" "policy_ok (n_policy nt)"
  shows "db_inv (fst (enqueue_insert env nt d))"
proof (cases "\<exists>r \<in> set (tasks d). active_with_key (n_type nt) (n_key nt) r")
  case True
  then show ?thesis
    using assms(1) by (simp add: enqueue_insert_def Let_def db_inv_def tasks_inv_mono)
next
  case False
  have "tasks_inv (next_id d + 1) (tasks d @ [new_row env nt (next_id d)])"
    by (rule tasks_inv_insert) (use assms False in \<open>auto simp: db_inv_def row_inv_new_row\<close>)
  then have "db_inv (d\<lparr>next_id := next_id d + 1, tasks := tasks d @ [new_row env nt (next_id d)]\<rparr>)"
    using assms(1) by (simp add: db_inv_def)
  with False show ?thesis by (simp add: enqueue_insert_def Let_def db_inv_publish)
qed

end
