(* ===== verification/Catalog.thy ===== *)
theory Catalog
  imports Database Enqueue
begin

text \<open>
  The rest of the control plane of \<open>store.py\<close>: the installed schema version, published task
  types and their pause switch, the listing with its keyset pages, and the two retention
  deletes. The order of text under the database's collation is the parameter \<open>collate\<close>;
  a \<open>LIMIT\<close> without \<open>ORDER BY\<close> reads rows in the order of the parameter \<open>scan\<close>.
\<close>

section \<open>Schema version\<close>

definition SCHEMA_VERSION :: int where "SCHEMA_VERSION = 1"

text \<open>\<open>si\<close> is \<open>int(text)\<close>; a missing table, a missing row and an unreadable value count as 0.\<close>

definition installed_version :: "(ustr \<Rightarrow> exn + int) \<Rightarrow> db \<Rightarrow> int" where
  "installed_version si d = (case schema_version d of
     None \<Rightarrow> 0
   | Some s \<Rightarrow> (case si s of Inl _ \<Rightarrow> 0 | Inr v \<Rightarrow> v))"

definition store_check_schema :: "(ustr \<Rightarrow> exn + int) \<Rightarrow> db \<Rightarrow> exn + unit" where
  "store_check_schema si d =
     (if installed_version si d < SCHEMA_VERSION then Inl ConfigurationError else Inr ())"

text \<open>
  \<open>init_schema\<close>: the version only ever grows. \<open>str_int\<close> is the cast back to text, and the
  cast of an unreadable stored value aborts the transaction.
\<close>

definition store_init_schema :: "(ustr \<Rightarrow> exn + int) \<Rightarrow> (int \<Rightarrow> ustr) \<Rightarrow> db \<Rightarrow> exn + db" where
  "store_init_schema si str_int d =
     (case schema_version d of
        None \<Rightarrow> Inr (d\<lparr>schema_version := Some (str_int SCHEMA_VERSION)\<rparr>)
      | Some s \<Rightarrow> (case si s of
          Inl _ \<Rightarrow> Inl PsycopgError
        | Inr v \<Rightarrow> Inr (d\<lparr>schema_version := Some (str_int (max v SCHEMA_VERSION))\<rparr>)))"

text \<open>
  \<open>init_schema(prune=True)\<close>: among the installed functions, the unversioned one and the claim
  functions of older versions are dropped. \<open>digits\<close> reads the number behind the prefix.
\<close>

definition is_digit :: "nat \<Rightarrow> bool" where
  "is_digit c \<longleftrightarrow> 48 \<le> c \<and> c \<le> 57"

definition claim_version :: "ustr \<Rightarrow> int option" where
  "claim_version name =
     (let prefix = lit ''claim_v''; rest = drop (length prefix) name
      in if starts_with prefix name \<and> rest \<noteq> [] \<and> list_all is_digit rest
         then Some (foldl (\<lambda>n c. 10 * n + (int c - 48)) 0 rest) else None)"

definition pruned_function :: "ustr \<Rightarrow> bool" where
  "pruned_function name \<longleftrightarrow> name = lit ''claim_tasks''
     \<or> (case claim_version name of None \<Rightarrow> False | Some v \<Rightarrow> v < SCHEMA_VERSION)"

definition prune_functions :: "ustr list \<Rightarrow> ustr list" where
  "prune_functions installed = filter (\<lambda>f. \<not> pruned_function f) installed"

section \<open>Published task types\<close>

text \<open>\<open>jcast\<close> is \<open>json.dumps\<close> followed by the \<open>jsonb\<close> cast; \<open>fp\<close> is the fingerprint.\<close>

definition published_row ::
  "pg \<Rightarrow> (json \<Rightarrow> json) \<Rightarrow> (task_type_spec \<Rightarrow> ustr) \<Rightarrow> task_type_spec \<Rightarrow> bool \<Rightarrow> task_type_row" where
  "published_row env jcast fp s paused = \<lparr>
     ty_name = sp_name s, ty_executor = sp_executor s,
     ty_input_schema = jcast (sp_input_schema s),
     ty_output_schema = map_option jcast (sp_output_schema s),
     ty_policy = jcast (policy_to_json (sp_policy s)),
     ty_max_conc = p_max_concurrency (sp_policy s),
     ty_max_conc_key = p_max_concurrency_per_key (sp_policy s),
     ty_fingerprint = fp s, ty_updated_at = tx_now env, ty_paused = paused\<rparr>"

definition find_published :: "db \<Rightarrow> ustr \<Rightarrow> task_type_row option" where
  "find_published d name = find_row (\<lambda>ty. ty_name ty = name) (task_types d)"

text \<open>The upsert keeps the pause switch; the result is the fingerprint it replaced.\<close>

definition store_publish_task_type ::
  "pg \<Rightarrow> (json \<Rightarrow> json) \<Rightarrow> (task_type_spec \<Rightarrow> ustr) \<Rightarrow> task_type_spec \<Rightarrow> db \<Rightarrow> exn + (db \<times> ustr option)"
  where
  "store_publish_task_type env jcast fp s d =
     bind_result (check_name (sp_name s)) (\<lambda>_.
       case find_published d (sp_name s) of
         None \<Rightarrow> Inr (d\<lparr>task_types := task_types d @ [published_row env jcast fp s False]\<rparr>, None)
       | Some old \<Rightarrow> Inr (d\<lparr>task_types := update_where (\<lambda>ty. ty_name ty = sp_name s)
             (\<lambda>ty. published_row env jcast fp s (ty_paused ty)) (task_types d)\<rparr>, Some (ty_fingerprint old)))"

definition store_set_paused :: "ustr \<Rightarrow> bool \<Rightarrow> db \<Rightarrow> exn + db" where
  "store_set_paused name paused d =
     bind_result (check_name name) (\<lambda>_.
       if returning (\<lambda>ty. ty_name ty = name) (\<lambda>ty. ty\<lparr>ty_paused := paused\<rparr>) (task_types d) = []
       then Inl UnknownTaskType
       else Inr (d\<lparr>task_types := update_where (\<lambda>ty. ty_name ty = name)
                    (\<lambda>ty. ty\<lparr>ty_paused := paused\<rparr>) (task_types d)\<rparr>))"

text \<open>
  Reading rows back: the policy column goes through \<open>Policy.from_json\<close>, so a row with a policy
  this version rejects raises.
\<close>

definition type_of_row :: "(json \<Rightarrow> exn + policy) \<Rightarrow> task_type_row \<Rightarrow> exn + (task_type_row \<times> policy)" where
  "type_of_row from_json ty = bind_result (from_json (ty_policy ty)) (\<lambda>p. Inr (ty, p))"

definition store_get_task_types ::
  "(ustr \<Rightarrow> ustr) \<Rightarrow> (json \<Rightarrow> exn + policy) \<Rightarrow> db \<Rightarrow> exn + (task_type_row \<times> policy) list" where
  "store_get_task_types collate from_json d =
     collect (type_of_row from_json) (sort_key (\<lambda>ty. collate (ty_name ty)) (task_types d))"

definition store_get_task_type ::
  "(json \<Rightarrow> exn + policy) \<Rightarrow> db \<Rightarrow> ustr \<Rightarrow> exn + (task_type_row \<times> policy) option" where
  "store_get_task_type from_json d name =
     (case find_published d name of
        None \<Rightarrow> Inr None
      | Some ty \<Rightarrow> bind_result (type_of_row from_json ty) (\<lambda>r. Inr (Some r)))"

section \<open>Listing\<close>

text \<open>\<open>_task\<close>: the row as an object, whose \<open>Backoff\<close> checks its numbers again.\<close>

definition task_of :: "task_row \<Rightarrow> exn + task_row" where
  "task_of r = bind_result (mk_backoff (SFloat (Fin (b_base (t_backoff r)))) (SFloat (Fin (b_factor (t_backoff r))))
     (SFloat (Fin (b_cap (t_backoff r))))) (\<lambda>b. Inr (r\<lparr>t_backoff := b\<rparr>))"

lemma task_of_row: "db_inv d \<Longrightarrow> r \<in> set (tasks d) \<Longrightarrow> task_of r = Inr r"
  using db_inv_row [of d r] by (simp add: task_of_def row_inv_def mk_backoff_accepts)

definition summary :: "task_row \<Rightarrow> task_summary" where
  "summary r = \<lparr>ts_id = t_id r, ts_type = t_type r, ts_state = t_state r, ts_priority = t_priority r,
     ts_key = t_key r, ts_ckey = t_ckey r, ts_attempt = t_attempt r, ts_failures = t_failures r,
     ts_max_attempts = t_max_attempts r, ts_worker = t_worker r, ts_cancel_at = t_cancel_at r,
     ts_created_at = t_created_at r, ts_run_at = t_run_at r, ts_started_at = t_started_at r,
     ts_finished_at = t_finished_at r\<rparr>"

definition filter_matches :: "task_filter \<Rightarrow> task_row \<Rightarrow> bool" where
  "filter_matches f r \<longleftrightarrow>
     (case f_type f of None \<Rightarrow> True | Some ty \<Rightarrow> t_type r = ty)
     \<and> (case f_state f of None \<Rightarrow> True | Some st \<Rightarrow> t_state r = st)
     \<and> (case f_key f of None \<Rightarrow> True | Some k \<Rightarrow> t_key r = Some k)
     \<and> (case f_before f of None \<Rightarrow> True | Some b \<Rightarrow> t_id r < b)"

definition store_list_tasks :: "task_filter \<Rightarrow> db \<Rightarrow> task_summary list" where
  "store_list_tasks f d =
     map summary (order_limit (\<lambda>r. - t_id r) (nat (f_limit f)) (filter (filter_matches f) (tasks d)))"

text \<open>A client reading every page: the last id of a full page is the next \<open>before\<close>.\<close>

fun list_pages :: "nat \<Rightarrow> task_filter \<Rightarrow> db \<Rightarrow> task_summary list" where
  "list_pages 0 f d = []"
| "list_pages (Suc pages) f d =
     (case store_list_tasks f d of
        [] \<Rightarrow> []
      | page \<Rightarrow> page @ list_pages pages (f\<lparr>f_before := Some (ts_id (last page))\<rparr>) d)"

section \<open>Retention\<close>

definition purgeable :: "pg \<Rightarrow> rat \<Rightarrow> task_row \<Rightarrow> bool" where
  "purgeable env retention r \<longleftrightarrow> terminal (t_state r)
     \<and> (case t_finished_at r of None \<Rightarrow> False | Some t \<Rightarrow> t < tx_now env - retention)"

definition finish_key :: "task_row \<Rightarrow> time" where
  "finish_key r = (case t_finished_at r of None \<Rightarrow> 0 | Some t \<Rightarrow> t)"

definition purge_ids :: "pg \<Rightarrow> rat \<Rightarrow> nat \<Rightarrow> (int \<Rightarrow> bool) \<Rightarrow> task_row list \<Rightarrow> int list" where
  "purge_ids env retention batch busy rows = map t_id (order_limit finish_key batch
     (filter (\<lambda>r. purgeable env retention r \<and> \<not> busy (t_id r)) rows))"

definition store_purge_tasks :: "pg \<Rightarrow> rat \<Rightarrow> nat \<Rightarrow> (int \<Rightarrow> bool) \<Rightarrow> db \<Rightarrow> db \<times> int" where
  "store_purge_tasks env retention batch busy d =
     (let ids = purge_ids env retention batch busy (tasks d)
      in (d\<lparr>tasks := filter (\<lambda>r. t_id r \<notin> set ids) (tasks d)\<rparr>,
          int (length (filter (\<lambda>r. t_id r \<in> set ids) (tasks d)))))"

definition store_purge_events ::
  "pg \<Rightarrow> (event_row list \<Rightarrow> event_row list) \<Rightarrow> rat \<Rightarrow> nat \<Rightarrow> (int \<Rightarrow> bool) \<Rightarrow> db
     \<Rightarrow> db \<times> (ustr \<times> int) list" where
  "store_purge_events env scan retention batch busy d =
     (let gone = map (\<lambda>e. (e_sub e, e_seq e)) (take batch
            (filter (\<lambda>e. e_created_at e < tx_now env - retention \<and> \<not> busy (e_seq e)) (scan (events d))));
          deleted = filter (\<lambda>e. (e_sub e, e_seq e) \<in> set gone) (events d)
      in (d\<lparr>events := filter (\<lambda>e. (e_sub e, e_seq e) \<notin> set gone) (events d)\<rparr>,
          map (\<lambda>name. (name, int (length (filter (\<lambda>e. e_sub e = name) deleted))))
            (remdups (map e_sub deleted))))"

section \<open>The invariant\<close>

lemma db_inv_task_types:
  assumes "db_inv d" "distinct (map ty_name tys)"
    "\<forall>ty \<in> set tys. limit_ok (ty_max_conc ty) \<and> limit_ok (ty_max_conc_key ty)"
  shows "db_inv (d\<lparr>task_types := tys\<rparr>)"
  using assms by (simp add: db_inv_def)

lemma db_inv_publish_task_type [inv_intros]:
  assumes "store_publish_task_type env jcast fp s d = Inr (d', old)" "db_inv d" "policy_ok (sp_policy s)"
  shows "db_inv d'"
proof (cases "find_published d (sp_name s)")
  case None
  then have "sp_name s \<notin> ty_name ` set (task_types d)" by (auto simp: find_published_def find_row_None_iff)
  then show ?thesis
    using assms None
    by (auto simp: store_publish_task_type_def bind_result_Inr_iff published_row_def db_inv_def policy_ok_def)
next
  case (Some old)
  let ?tys = "update_where (\<lambda>ty. ty_name ty = sp_name s)
      (\<lambda>ty. published_row env jcast fp s (ty_paused ty)) (task_types d)"
  have "map ty_name ?tys = map ty_name (task_types d)"
    by (rule map_update_where) (simp add: published_row_def)
  moreover have "\<forall>ty \<in> set ?tys. limit_ok (ty_max_conc ty) \<and> limit_ok (ty_max_conc_key ty)"
    using assms(2,3) by (auto simp: set_update_where db_inv_def policy_ok_def published_row_def)
  ultimately show ?thesis
    using assms Some db_inv_task_types [of d ?tys]
    by (auto simp: store_publish_task_type_def bind_result_Inr_iff db_inv_def)
qed

lemma db_inv_set_paused [inv_intros]:
  assumes "store_set_paused name p d = Inr d'" "db_inv d"
  shows "db_inv d'"
proof -
  let ?tys = "update_where (\<lambda>ty. ty_name ty = name) (\<lambda>ty. ty\<lparr>ty_paused := p\<rparr>) (task_types d)"
  have "map ty_name ?tys = map ty_name (task_types d)" by (rule map_update_where) simp
  moreover have "\<forall>ty \<in> set ?tys. limit_ok (ty_max_conc ty) \<and> limit_ok (ty_max_conc_key ty)"
    using assms(2) by (auto simp: set_update_where db_inv_def)
  ultimately show ?thesis
    using assms db_inv_task_types [of d ?tys]
    by (auto simp: store_set_paused_def bind_result_Inr_iff db_inv_def split: if_splits)
qed

lemma tasks_inv_filter: "tasks_inv n rows \<Longrightarrow> tasks_inv n (filter P rows)"
  by (auto simp: tasks_inv_def active_keys_unique_def distinct_map_filter_key)

lemma outbox_inv_filter: "outbox_inv n evs \<Longrightarrow> outbox_inv n (filter P evs)"
  by (auto simp: outbox_inv_def distinct_map_filter_key)

lemma db_inv_purge_tasks [inv_intros]:
  "db_inv d \<Longrightarrow> db_inv (fst (store_purge_tasks env ret n busy d))"
  by (simp add: store_purge_tasks_def Let_def db_inv_def tasks_inv_filter)

lemma db_inv_purge_events [inv_intros]:
  "db_inv d \<Longrightarrow> db_inv (fst (store_purge_events env scan ret n busy d))"
  by (simp add: store_purge_events_def Let_def db_inv_def outbox_inv_filter)

lemma db_inv_init_schema [inv_intros]:
  "store_init_schema si st d = Inr d' \<Longrightarrow> db_inv d \<Longrightarrow> db_inv d'"
  by (auto simp: store_init_schema_def db_inv_def split: option.splits sum.splits)

section \<open>What retention removes\<close>

lemma purge_idsD:
  assumes "db_inv d" "r \<in> set (tasks d)" "t_id r \<in> set (purge_ids env ret n busy (tasks d))"
  shows "purgeable env ret r \<and> \<not> busy (t_id r)"
proof -
  from assms(3) obtain s where s: "s \<in> set (tasks d)" "t_id s = t_id r" "purgeable env ret s" "\<not> busy (t_id s)"
    by (auto simp: purge_ids_def dest!: in_order_limit)
  from key_unique [OF db_inv_ids [OF assms(1)] assms(2) s(1)] s(2) have "s = r" by simp
  with s show ?thesis by simp
qed

text \<open>Deleted rows are expired terminal rows, oldest first, at most a batch of them.\<close>

lemma purge_tasks_removes:
  assumes "db_inv d" "store_purge_tasks env ret n busy d = (d', k)"
  shows "\<forall>r \<in> set (tasks d). r \<notin> set (tasks d') \<longrightarrow> purgeable env ret r \<and> \<not> busy (t_id r)"
    and "k = int (length (tasks d) - length (tasks d'))" and "k \<le> int n"
    and "\<forall>r \<in> set (tasks d) - set (tasks d'). \<forall>s \<in> set (tasks d').
           purgeable env ret s \<and> \<not> busy (t_id s) \<longrightarrow> finish_key r \<le> finish_key s"
proof -
  let ?ids = "purge_ids env ret n busy (tasks d)"
  let ?P = "\<lambda>r. purgeable env ret r \<and> \<not> busy (t_id r)"
  have d': "tasks d' = filter (\<lambda>r. t_id r \<notin> set ?ids) (tasks d)"
    and k: "k = int (length (filter (\<lambda>r. t_id r \<in> set ?ids) (tasks d)))"
    using assms(2) by (auto simp: store_purge_tasks_def Let_def)
  show "\<forall>r \<in> set (tasks d). r \<notin> set (tasks d') \<longrightarrow> purgeable env ret r \<and> \<not> busy (t_id r)"
    using purge_idsD [OF assms(1), of _ env ret n busy] d' by auto
  have "length (tasks d) = length (filter (\<lambda>r. t_id r \<in> set ?ids) (tasks d)) + length (tasks d')"
    unfolding d' by (rule sum_length_filter_compl [symmetric])
  then show "k = int (length (tasks d) - length (tasks d'))" using k by simp
  have "length (filter (\<lambda>r. t_id r \<in> set ?ids) (tasks d)) = card (t_id ` {r \<in> set (tasks d). t_id r \<in> set ?ids})"
    using distinct_card [OF distinct_map_filter_key [OF db_inv_ids [OF assms(1)]]] by (simp add: image_def)
  also have "\<dots> \<le> card (set ?ids)" by (rule card_mono) auto
  also have "\<dots> \<le> length ?ids" by (rule card_length)
  also have "\<dots> \<le> n" by (simp add: purge_ids_def length_order_limit)
  finally show "k \<le> int n" using k by simp
  show "\<forall>r \<in> set (tasks d) - set (tasks d'). \<forall>s \<in> set (tasks d'). ?P s \<longrightarrow> finish_key r \<le> finish_key s"
  proof (intro ballI impI)
    fix r s assume r: "r \<in> set (tasks d) - set (tasks d')" and s: "s \<in> set (tasks d')" "?P s"
    from r have "t_id r \<in> set ?ids" by (simp add: d')
    then obtain r' where r': "r' \<in> set (order_limit finish_key n (filter ?P (tasks d)))" "t_id r' = t_id r"
      by (auto simp: purge_ids_def)
    have "r' = r" using r r' key_unique [OF db_inv_ids [OF assms(1)]] by (auto dest!: in_order_limit)
    moreover have "s \<notin> set (order_limit finish_key n (filter ?P (tasks d)))"
      using s(1) by (auto simp: d' purge_ids_def)
    moreover have "s \<in> set (filter ?P (tasks d))" using s by (auto simp: d')
    ultimately show "finish_key r \<le> finish_key s" using order_limit_least [OF r'(1)] by simp
  qed
qed

section \<open>Paging is a partition of the listing\<close>

definition listing :: "task_filter \<Rightarrow> db \<Rightarrow> task_row list" where
  "listing f d = sort_key (\<lambda>r. - t_id r) (filter (filter_matches f) (tasks d))"

lemma store_list_tasks_take: "store_list_tasks f d = map summary (take (nat (f_limit f)) (listing f d))"
  by (simp add: store_list_tasks_def order_limit_def listing_def)

lemma sorted_listing: "sorted (map (\<lambda>r. - t_id r) (listing f d))"
  by (simp add: listing_def)

lemma distinct_listing: "db_inv d \<Longrightarrow> distinct (map (\<lambda>r. - t_id r) (listing f d))"
proof -
  assume "db_inv d"
  then have "distinct (map (\<lambda>r. - t_id r) (filter (filter_matches f) (tasks d)))"
    using distinct_map_filter_key [OF db_inv_ids] by (simp add: distinct_map inj_on_def)
  then show ?thesis unfolding listing_def by (rule distinct_map_sort_key)
qed

lemma listing_before:
  assumes "db_inv d" "xs \<noteq> []" "listing f d = xs @ ys"
  shows "listing (f\<lparr>f_before := Some (t_id (last xs))\<rparr>) d = ys"
proof -
  let ?f = "f\<lparr>f_before := Some (t_id (last xs))\<rparr>"
  have "last xs \<in> set (listing f d)" using assms(2,3) by simp
  then have "filter_matches f (last xs)" by (simp add: listing_def)
  then have "filter_matches ?f = (\<lambda>r. filter_matches f r \<and> t_id r < t_id (last xs))"
    by (intro ext) (auto simp: filter_matches_def split: option.splits)
  then have "filter (filter_matches ?f) (tasks d)
      = filter (\<lambda>r. t_id r < t_id (last xs)) (filter (filter_matches f) (tasks d))"
    by (simp add: conj_commute)
  then have "listing ?f d = filter (\<lambda>r. t_id r < t_id (last xs)) (listing f d)"
    by (simp add: listing_def filter_sort)
  also have "\<dots> = ys"
    using filter_past_last [of "\<lambda>r. - t_id r" xs ys] sorted_listing [of f d]
      distinct_listing [OF assms(1), of f] assms(2,3)
    by simp
  finally show ?thesis .
qed

lemma list_pages_step:
  "store_list_tasks f d \<noteq> [] \<Longrightarrow> list_pages (Suc pages) f d = store_list_tasks f d
    @ list_pages pages (f\<lparr>f_before := Some (ts_id (last (store_list_tasks f d)))\<rparr>) d"
  by (cases "store_list_tasks f d") simp_all

lemma list_pages_all:
  assumes "db_inv d" "f_limit f \<ge> 1" "length (listing f d) \<le> pages"
  shows "list_pages pages f d = map summary (listing f d)"
  using assms(2,3)
proof (induction pages arbitrary: f)
  case 0
  then show ?case by simp
next
  case (Suc pages)
  let ?n = "nat (f_limit f)"
  let ?xs = "take ?n (listing f d)" and ?ys = "drop ?n (listing f d)"
  show ?case
  proof (cases "listing f d")
    case Nil
    then show ?thesis by (simp add: store_list_tasks_take)
  next
    case (Cons r rs)
    then have ne: "?xs \<noteq> []" using Suc.prems(1) by simp
    have "ts_id (last (map summary ?xs)) = t_id (last ?xs)" using ne by (simp add: last_map summary_def)
    moreover have "listing (f\<lparr>f_before := Some (t_id (last ?xs))\<rparr>) d = ?ys"
      by (rule listing_before [OF assms(1) ne]) simp
    moreover have "length ?ys \<le> pages" using Cons Suc.prems by simp
    ultimately have "list_pages (Suc pages) f d = map summary ?xs @ map summary ?ys"
      using Suc.IH [of "f\<lparr>f_before := Some (t_id (last ?xs))\<rparr>"] Suc.prems(1) ne
      by (subst list_pages_step) (simp_all add: store_list_tasks_take)
    then show ?thesis by (simp flip: map_append)
  qed
qed

end
