(* ===== verification/Feed.thy ===== *)
theory Feed
  imports Catalog
begin

text \<open>
  Durable subscriptions: registration and backfill of \<open>store.py\<close>, and the consumer of
  \<open>feed.py\<close> with its batches, acknowledgements and rollbacks. A delivery holds row locks
  until its transaction ends; \<open>held\<close> is the set of events a consumer has locked, which the
  \<open>SKIP LOCKED\<close> of every other consumer passes over. The wait for older
  transactions before a backfill is in Subscribing.
\<close>

section \<open>Registration\<close>

datatype backfill_arg = BFlag bool | BWindow rat
datatype backfill_input = BScalar scalar | BDelta rat

definition FLOAT_MAX :: rat where "FLOAT_MAX = 2 ^ 1024 - 2 ^ 971"

definition check_window :: "rat \<Rightarrow> exn + backfill_arg" where
  "check_window w = (if 0 \<le> w \<and> w \<le> FLOAT_MAX then Inr (BWindow w) else Inl ValueError)"

fun normalize_backfill :: "backfill_input \<Rightarrow> exn + backfill_arg" where
  "normalize_backfill (BScalar SNone) = Inr (BFlag False)"
| "normalize_backfill (BScalar (SBool b)) = Inr (BFlag b)"
| "normalize_backfill (BScalar (SInt i)) = check_window (of_int i)"
| "normalize_backfill (BScalar (SFloat (Fin r))) = check_window r"
| "normalize_backfill (BDelta w) = check_window w"
| "normalize_backfill (BScalar v) = Inl ValueError"

text \<open>
  \<open>subscribe\<close> checks its arguments in this order; the states are turned into their stored
  text, and reading a state is \<open>parse_state\<close>.
\<close>

definition check_subscribe ::
  "ustr \<Rightarrow> ustr list \<Rightarrow> ustr list option \<Rightarrow> int \<Rightarrow> backfill_input
     \<Rightarrow> exn + (task_state list \<times> backfill_arg)" where
  "check_subscribe name states types batch_size backfill =
     bind_result (check_name name) (\<lambda>_.
     bind_result (collect parse_state states) (\<lambda>selected.
     bind_result (each check_name (case types of None \<Rightarrow> [] | Some tys \<Rightarrow> tys)) (\<lambda>_.
       if \<not> (1 \<le> batch_size \<and> batch_size \<le> 1000) then Inl ValueError
       else bind_result (normalize_backfill backfill) (\<lambda>b. Inr (selected, b)))))"

definition find_sub :: "db \<Rightarrow> ustr \<Rightarrow> sub_row option" where
  "find_sub d name = find_row (\<lambda>s. s_name s = name) (subscriptions d)"

definition new_marker :: "pg \<Rightarrow> task_state list \<Rightarrow> backfill_arg \<Rightarrow> backfill_marker option" where
  "new_marker env states backfill = (case backfill of
     BFlag False \<Rightarrow> None
   | BFlag True \<Rightarrow> Some \<lparr>bf_since = None, bf_pending = map (\<lambda>st. (st, 0)) (remdups states)\<rparr>
   | BWindow w \<Rightarrow> Some \<lparr>bf_since = Some (clock env - w),
                        bf_pending = map (\<lambda>st. (st, 0)) (remdups states)\<rparr>)"

text \<open>Only the insert installs a generation and a marker.\<close>

definition store_register_subscription ::
  "pg \<Rightarrow> ustr \<Rightarrow> task_state list \<Rightarrow> ustr list option \<Rightarrow> backfill_arg \<Rightarrow> db
     \<Rightarrow> db \<times> uuid \<times> backfill_marker option" where
  "store_register_subscription env name states types backfill d =
     (case find_sub d name of
        None \<Rightarrow>
          let s = \<lparr>s_name = name, s_states = states, s_types = types, s_created_at = tx_now env,
                   s_backfill = new_marker env states backfill, s_generation = fresh_uuid env 0\<rparr>
          in (d\<lparr>subscriptions := subscriptions d @ [s]\<rparr>, s_generation s, s_backfill s)
      | Some old \<Rightarrow>
          (d\<lparr>subscriptions := update_where (\<lambda>s. s_name s = name)
               (\<lambda>s. s\<lparr>s_states := states, s_types := types\<rparr>) (subscriptions d)\<rparr>,
           s_generation old, s_backfill old))"

definition store_unsubscribe :: "ustr \<Rightarrow> db \<Rightarrow> exn + db" where
  "store_unsubscribe name d = bind_result (check_name name) (\<lambda>_.
     Inr (d\<lparr>subscriptions := filter (\<lambda>s. s_name s \<noteq> name) (subscriptions d),
            events := filter (\<lambda>e. e_sub e \<noteq> name) (events d)\<rparr>))"

section \<open>Backfill\<close>

definition type_selected :: "ustr list option \<Rightarrow> ustr \<Rightarrow> bool" where
  "type_selected types ty = (case types of None \<Rightarrow> True | Some tys \<Rightarrow> ty \<in> set tys)"

definition backfill_matches :: "ustr list option \<Rightarrow> time option \<Rightarrow> task_state \<Rightarrow> int \<Rightarrow> task_row \<Rightarrow> bool" where
  "backfill_matches types since st after r \<longleftrightarrow> t_state r = st \<and> t_id r > after
     \<and> type_selected types (t_type r)
     \<and> (case since of None \<Rightarrow> True
        | Some s \<Rightarrow> (case t_finished_at r of None \<Rightarrow> False | Some f \<Rightarrow> f \<ge> s))"

text \<open>\<open>min(pending)\<close> compares the stored texts of the states.\<close>

definition first_pending :: "(task_state \<times> int) list \<Rightarrow> task_state \<times> int" where
  "first_pending pending = hd (sort_key (\<lambda>p. state_value (fst p)) pending)"

definition state_since :: "backfill_marker \<Rightarrow> task_state \<Rightarrow> time option" where
  "state_since marker st = (if st = Queued \<or> st = Running then None else bf_since marker)"

definition backfill_rows :: "ustr list option \<Rightarrow> backfill_marker \<Rightarrow> task_state \<Rightarrow> int \<Rightarrow> nat \<Rightarrow> task_row list \<Rightarrow> task_row list"
  where
  "backfill_rows types marker st after limit rows =
     order_limit t_id limit (filter (backfill_matches types (state_since marker st) st after) rows)"

definition set_backfill :: "ustr \<Rightarrow> backfill_marker option \<Rightarrow> db \<Rightarrow> db" where
  "set_backfill name m d = d\<lparr>subscriptions := update_where (\<lambda>s. s_name s = name)
     (\<lambda>s. s\<lparr>s_backfill := m\<rparr>) (subscriptions d)\<rparr>"

text \<open>\<open>INSERT INTO fronta.events \<dots> SELECT\<close> for one subscription, in the order of the rows.\<close>

definition insert_events :: "pg \<Rightarrow> ustr \<Rightarrow> task_row list \<Rightarrow> db \<Rightarrow> db" where
  "insert_events env name rows d = d\<lparr>
     events := events d @ log_events env (next_seq d) (map (\<lambda>r. (name, r)) rows),
     next_seq := next_seq d + int (length rows)\<rparr>"

definition store_backfill_chunk ::
  "pg \<Rightarrow> ustr \<Rightarrow> uuid \<Rightarrow> nat \<Rightarrow> db \<Rightarrow> db \<times> (int \<times> bool) option" where
  "store_backfill_chunk env name generation limit d =
     (case find_sub d name of
        None \<Rightarrow> (d, None)
      | Some s \<Rightarrow>
          if s_generation s \<noteq> generation then (d, None)
          else (case s_backfill s of
            None \<Rightarrow> (d, Some (0, False))
          | Some marker \<Rightarrow>
              if bf_pending marker = [] then (set_backfill name None d, Some (0, False))
              else (let (st, after) = first_pending (bf_pending marker);
                        rows = backfill_rows (s_types s) marker st after limit (tasks d);
                        pending = (if length rows < limit
                                   then filter (\<lambda>p. fst p \<noteq> st) (bf_pending marker)
                                   else map (\<lambda>p. if fst p = st then (st, t_id (last rows)) else p)
                                          (bf_pending marker))
                    in (set_backfill name (if pending = [] then None
                                           else Some (marker\<lparr>bf_pending := pending\<rparr>))
                          (insert_events env name rows d),
                        Some (int (length rows), pending \<noteq> [])))))"

text \<open>
  \<open>_backfill\<close> after the wait: chunks until nothing is pending. \<open>env k\<close> serves the \<open>k\<close>-th
  chunk; the result is whether the feed is ready. The loop runs on fuel.
\<close>

fun backfill_loop :: "nat \<Rightarrow> (nat \<Rightarrow> pg) \<Rightarrow> ustr \<Rightarrow> uuid \<Rightarrow> nat \<Rightarrow> nat \<Rightarrow> db \<Rightarrow> (db \<times> bool) option" where
  "backfill_loop 0 env name generation limit k d = None"
| "backfill_loop (Suc fuel) env name generation limit k d =
     (case store_backfill_chunk (env k) name generation limit d of
        (d', None) \<Rightarrow> Some (d', False)
      | (d', Some (_, pending)) \<Rightarrow>
          if \<not> pending then Some (d', True)
          else backfill_loop fuel env name generation limit (Suc k) d')"

section \<open>Deliveries\<close>

record batch =
  ba_events :: "task_event list"
  ba_active :: bool

record feed =
  fd_name :: ustr
  fd_generation :: uuid
  fd_batch_size :: nat
  fd_closed :: bool
  fd_batch :: "batch option"

text \<open>The events whose rows this consumer's open transaction has locked.\<close>

definition held :: "feed \<Rightarrow> int list" where
  "held f = (case fd_batch f of None \<Rightarrow> [] | Some b \<Rightarrow> if ba_active b then map ev_seq (ba_events b) else [])"

definition to_event :: "event_row \<Rightarrow> task_event" where
  "to_event e = \<lparr>ev_seq = e_seq e, ev_id = e_task e, ev_type = e_type e, ev_state = e_state e,
     ev_attempt = e_attempt e\<rparr>"

definition feed_rollback :: "feed \<Rightarrow> feed" where
  "feed_rollback f = f\<lparr>fd_batch := None\<rparr>"

datatype next_result = Stop | Deliver "task_event list" | Wait

text \<open>
  One pass of \<open>__anext__\<close>: the previous delivery is rolled back, the registration checked, and
  the oldest unlocked events are locked. \<open>Wait\<close> is the pass that finds nothing, rolls back
  and sleeps until a notice or the poll interval.
\<close>

definition feed_next :: "(int \<Rightarrow> bool) \<Rightarrow> db \<Rightarrow> feed \<Rightarrow> feed \<times> next_result" where
  "feed_next busy d f =
     (if fd_closed f then (f, Stop)
      else (let f0 = feed_rollback f
            in if (case find_sub d (fd_name f) of None \<Rightarrow> True | Some s \<Rightarrow> s_generation s \<noteq> fd_generation f)
               then (f0\<lparr>fd_closed := True\<rparr>, Stop)
               else (let rows = order_limit e_seq (fd_batch_size f)
                           (filter (\<lambda>e. e_sub e = fd_name f \<and> \<not> busy (e_seq e)) (events d))
                     in if rows = [] then (f0, Wait)
                        else (f0\<lparr>fd_batch := Some \<lparr>ba_events = map to_event rows, ba_active = True\<rparr>\<rparr>,
                              Deliver (map to_event rows)))))"

definition feed_ack :: "db \<Rightarrow> feed \<Rightarrow> exn + (db \<times> feed)" where
  "feed_ack d f = (case fd_batch f of
     None \<Rightarrow> Inl RuntimeError
   | Some b \<Rightarrow>
       if \<not> ba_active b then Inl RuntimeError
       else Inr (d\<lparr>events := filter (\<lambda>e. \<not> (e_sub e = fd_name f \<and> e_seq e \<in> set (map ev_seq (ba_events b))))
                                (events d)\<rparr>,
                 f\<lparr>fd_batch := Some (b\<lparr>ba_active := False\<rparr>)\<rparr>))"

section \<open>The tables' invariant\<close>

lemma db_inv_register [inv_intros]:
  assumes "db_inv d"
  shows "db_inv (fst (store_register_subscription env name st ty b d))"
proof (cases "find_sub d name")
  case None
  then have "name \<notin> s_name ` set (subscriptions d)" by (auto simp: find_sub_def find_row_None_iff)
  with assms None show ?thesis by (simp add: store_register_subscription_def db_inv_def Let_def)
next
  case (Some old)
  have "map s_name (update_where (\<lambda>s. s_name s = name) (\<lambda>s. s\<lparr>s_states := st, s_types := ty\<rparr>)
      (subscriptions d)) = map s_name (subscriptions d)"
    by (rule map_update_where) simp
  with assms Some show ?thesis by (simp add: store_register_subscription_def db_inv_def)
qed

lemma db_inv_unsubscribe [inv_intros]:
  "store_unsubscribe name d = Inr d' \<Longrightarrow> db_inv d \<Longrightarrow> db_inv d'"
  by (auto simp: store_unsubscribe_def bind_result_Inr_iff db_inv_def outbox_inv_filter
      distinct_map_filter_key)

lemma set_backfill_frame [simp]:
  "tasks (set_backfill n m d) = tasks d" "events (set_backfill n m d) = events d"
  "next_seq (set_backfill n m d) = next_seq d" "next_id (set_backfill n m d) = next_id d"
  "task_types (set_backfill n m d) = task_types d"
  by (simp_all add: set_backfill_def)

lemma insert_events_frame [simp]:
  "tasks (insert_events env n rs d) = tasks d" "subscriptions (insert_events env n rs d) = subscriptions d"
  "next_id (insert_events env n rs d) = next_id d" "task_types (insert_events env n rs d) = task_types d"
  by (simp_all add: insert_events_def)

lemma db_inv_set_backfill: "db_inv d \<Longrightarrow> db_inv (set_backfill n m d)"
proof -
  assume "db_inv d"
  moreover have "map s_name (subscriptions (set_backfill n m d)) = map s_name (subscriptions d)"
    unfolding set_backfill_def by (simp add: map_update_where)
  ultimately show ?thesis by (simp add: db_inv_def)
qed

lemma db_inv_insert_events: "db_inv d \<Longrightarrow> db_inv (insert_events env n rs d)"
  using outbox_inv_log [of "next_seq d" "events d" "map (\<lambda>r. (n, r)) rs" env]
  by (simp add: db_inv_def insert_events_def)

lemma db_inv_backfill_chunk [inv_intros]:
  "db_inv d \<Longrightarrow> db_inv (fst (store_backfill_chunk env name g limit d))"
  by (auto simp: store_backfill_chunk_def Let_def db_inv_set_backfill db_inv_insert_events
      split: option.split prod.split)

lemma db_inv_ack [inv_intros]: "feed_ack d f = Inr (d', f') \<Longrightarrow> db_inv d \<Longrightarrow> db_inv d'"
  by (auto simp: feed_ack_def db_inv_def outbox_inv_filter split: option.splits if_splits)

section \<open>A backfill enumerates every retained match once\<close>

text \<open>
  What is still to be projected: state by state in the order of their texts, every matching task
  behind the cursor in id order. A chunk takes a prefix of it.
\<close>

definition pending_rows :: "ustr list option \<Rightarrow> backfill_marker \<Rightarrow> task_row list \<Rightarrow> task_state \<times> int \<Rightarrow> task_row list"
  where
  "pending_rows types marker rows p = sort_key t_id
     (filter (backfill_matches types (state_since marker (fst p)) (fst p) (snd p)) rows)"

definition outstanding :: "ustr list option \<Rightarrow> backfill_marker \<Rightarrow> task_row list \<Rightarrow> task_row list" where
  "outstanding types marker rows = concat (map (pending_rows types marker rows)
     (sort_key (\<lambda>p. state_value (fst p)) (bf_pending marker)))"

lemma pending_rows_frame [simp]:
  "pending_rows types (marker\<lparr>bf_pending := x\<rparr>) rows = pending_rows types marker rows"
  by (rule ext) (simp add: pending_rows_def state_since_def)

lemma pending_rows_after:
  assumes "distinct (map t_id rows)" "pending_rows types marker rows (st, after) = xs @ ys" "xs \<noteq> []"
  shows "pending_rows types marker rows (st, t_id (last xs)) = ys"
proof -
  let ?M = "backfill_matches types (state_since marker st) st"
  have all: "xs @ ys = sort_key t_id (filter (?M after) rows)"
    using assms(2) by (simp add: pending_rows_def)
  have "last xs \<in> set (sort_key t_id (filter (?M after) rows))"
    using assms(3) all by (metis Un_iff last_in_set set_append)
  then have "after < t_id (last xs)" by (simp add: backfill_matches_def)
  then have eq: "?M (t_id (last xs)) = (\<lambda>r. ?M after r \<and> t_id (last xs) < t_id r)"
    by (intro ext) (auto simp: backfill_matches_def)
  have "pending_rows types marker rows (st, t_id (last xs))
      = filter (\<lambda>r. t_id (last xs) < t_id r) (sort_key t_id (filter (?M after) rows))"
    by (simp add: pending_rows_def eq filter_sort conj_commute)
  also have "\<dots> = ys"
  proof -
    have "sorted (map t_id (xs @ ys))" unfolding all by simp
    moreover have "distinct (map t_id (xs @ ys))"
      unfolding all using assms(1) by (intro distinct_map_sort_key distinct_map_filter_key)
    ultimately show ?thesis unfolding all [symmetric] using assms(3) by (rule filter_past_last)
  qed
  finally show ?thesis .
qed

definition next_pending :: "nat \<Rightarrow> task_row list \<Rightarrow> task_state \<Rightarrow> (task_state \<times> int) list \<Rightarrow> (task_state \<times> int) list" where
  "next_pending limit rows st pending = (if length rows < limit then filter (\<lambda>p. fst p \<noteq> st) pending
     else map (\<lambda>p. if fst p = st then (st, t_id (last rows)) else p) pending)"

lemma keys_next_pending:
  "distinct (map fst pending) \<Longrightarrow> distinct (map fst (next_pending limit rows st pending))"
proof -
  have "map fst (map (\<lambda>p. if fst p = st then (st, x) else p) pending) = map fst pending" for x :: int
    by (induction pending) auto
  then show "distinct (map fst pending) \<Longrightarrow> ?thesis"
    by (simp add: next_pending_def distinct_map_filter_key del: map_map)
qed

lemma chunk_takes_prefix:
  assumes ids: "distinct (map t_id rows)" and keys: "distinct (map fst (bf_pending marker))"
    and ne: "bf_pending marker \<noteq> []" and first: "first_pending (bf_pending marker) = (st, after)"
    and limit: "limit \<ge> 1" and out: "out = backfill_rows types marker st after limit rows"
  shows "outstanding types marker rows = out
      @ outstanding types (marker\<lparr>bf_pending := next_pending limit out st (bf_pending marker)\<rparr>) rows"
    and "length (next_pending limit out st (bf_pending marker)) + (if length out < limit then 1 else 0)
      = length (bf_pending marker)"
proof -
  let ?k = "\<lambda>p::task_state \<times> int. state_value (fst p)"
  let ?S = "pending_rows types marker rows (st, after)"
  obtain rest where srt: "sort_key ?k (bf_pending marker) = (st, after) # rest"
    using ne first by (cases "sort_key ?k (bf_pending marker)")
      (auto simp: first_pending_def dest: arg_cong [where f = length])
  have "distinct (map fst ((st, after) # rest))"
    using distinct_map_sort_key [OF keys, of ?k] srt by simp
  then have fresh: "\<forall>p \<in> set rest. fst p \<noteq> st" by force
  have mem: "(st, after) \<in> set (bf_pending marker)" using srt by (metis list.set_intros(1) set_sort)
  have take: "out = take limit ?S"
    by (simp add: out backfill_rows_def order_limit_def pending_rows_def)
  have one: "length (filter (\<lambda>p. fst p \<noteq> st) (bf_pending marker)) + 1 = length (bf_pending marker)"
  proof -
    have "filter (\<lambda>p. fst p = st) (bf_pending marker) = [(st, after)]"
      by (rule filter_key [OF keys mem]) simp
    then show ?thesis using sum_length_filter_compl [of "\<lambda>p. fst p = st" "bf_pending marker"] by simp
  qed
  show "length (next_pending limit out st (bf_pending marker)) + (if length out < limit then 1 else 0)
      = length (bf_pending marker)"
    using one by (simp add: next_pending_def)
  show "outstanding types marker rows = out
      @ outstanding types (marker\<lparr>bf_pending := next_pending limit out st (bf_pending marker)\<rparr>) rows"
  proof (cases "length out < limit")
    case True
    then have "out = ?S" using take by (auto simp: min_def split: if_splits)
    have "sort_key ?k (filter (\<lambda>p. fst p \<noteq> st) (bf_pending marker)) = rest"
      using fresh by (simp add: filter_sort [symmetric] srt filter_id_conv)
    then have "outstanding types (marker\<lparr>bf_pending := next_pending limit out st (bf_pending marker)\<rparr>) rows
        = concat (map (pending_rows types marker rows) rest)"
      using True by (simp add: outstanding_def next_pending_def)
    moreover have "outstanding types marker rows = ?S @ concat (map (pending_rows types marker rows) rest)"
      by (simp add: outstanding_def srt)
    ultimately show ?thesis using \<open>out = ?S\<close> by simp
  next
    case False
    then have out_ne: "out \<noteq> []" using limit by auto
    let ?f = "\<lambda>p. if fst p = st then (st, t_id (last out)) else p"
    have "map ?f rest = rest" using fresh by (intro map_idI) auto
    then have "sort_key ?k (map ?f (bf_pending marker)) = (st, t_id (last out)) # rest"
      using sort_key_map_same [of ?k ?f "bf_pending marker"] srt by simp
    moreover have "pending_rows types marker rows (st, t_id (last out)) = drop limit ?S"
      by (rule pending_rows_after [OF ids _ out_ne]) (simp add: take)
    ultimately have "outstanding types (marker\<lparr>bf_pending := next_pending limit out st (bf_pending marker)\<rparr>) rows
        = drop limit ?S @ concat (map (pending_rows types marker rows) rest)"
      using False by (simp add: outstanding_def next_pending_def)
    moreover have "outstanding types marker rows
        = (out @ drop limit ?S) @ concat (map (pending_rows types marker rows) rest)"
      unfolding take append_take_drop_id by (simp add: outstanding_def srt)
    ultimately show ?thesis by simp
  qed
qed

end
