(* ===== verification/Delivery.thy ===== *)
theory Delivery
  imports Feed
begin

text \<open>
  What a subscriber can rely on: a backfill ends and projects every retained match exactly
  once, and consumers of one subscription, however they interleave, never hold the same event,
  so that an event leaves the outbox only when its holder acknowledges it, it expires, or the
  subscription is removed.
\<close>

section \<open>The backfill loop\<close>

lemma find_sub_set_backfill:
  "find_sub (set_backfill name m d) name = map_option (\<lambda>s. s\<lparr>s_backfill := m\<rparr>) (find_sub d name)"
proof -
  have "find_row (\<lambda>s. s_name s = name) (update_where (\<lambda>s. s_name s = name) (\<lambda>s. s\<lparr>s_backfill := m\<rparr>) ss)
      = map_option (\<lambda>s. s\<lparr>s_backfill := m\<rparr>) (find_row (\<lambda>s. s_name s = name) ss)" for ss
    by (induction ss) (simp_all add: update_where_def)
  then show ?thesis by (simp add: find_sub_def set_backfill_def)
qed

lemma find_sub_insert_events [simp]: "find_sub (insert_events env n rs d) name = find_sub d name"
  by (simp add: find_sub_def)

lemma events_insert_events [simp]:
  "events (insert_events env name rows d) = events d @ log_events env (next_seq d) (map (Pair name) rows)"
  by (simp add: insert_events_def)

lemma chunk_step:
  assumes "find_sub d name = Some s" "s_generation s = g" "s_backfill s = Some marker"
    "bf_pending marker \<noteq> []" "first_pending (bf_pending marker) = (st, after)"
    "out = backfill_rows (s_types s) marker st after limit (tasks d)"
    "pending = next_pending limit out st (bf_pending marker)"
  shows "store_backfill_chunk env name g limit d =
    (set_backfill name (if pending = [] then None else Some (marker\<lparr>bf_pending := pending\<rparr>))
       (insert_events env name out d), Some (int (length out), pending \<noteq> []))"
  using assms by (simp add: store_backfill_chunk_def Let_def next_pending_def)

definition projected :: "ustr \<Rightarrow> task_row \<Rightarrow> ustr \<times> int \<times> ustr \<times> task_state \<times> int" where
  "projected name r = (name, t_id r, t_type r, t_state r, t_attempt r)"

definition event_content :: "event_row \<Rightarrow> ustr \<times> int \<times> ustr \<times> task_state \<times> int" where
  "event_content e = (e_sub e, e_task e, e_type e, e_state e, e_attempt e)"

lemma log_events_projected:
  "map event_content (log_events env n (map (Pair name) rows)) = map (projected name) rows"
proof -
  have "event_content = (\<lambda>e. (e_sub e, e_task e, e_type e, e_state e, e_attempt e))"
    by (rule ext) (simp add: event_content_def)
  with log_events_content [of env n "map (Pair name) rows"] show ?thesis
    by (simp add: projected_def comp_def)
qed

lemma outstanding_none: "bf_pending marker = [] \<Longrightarrow> outstanding types marker rows = []"
  by (simp add: outstanding_def)

lemma backfill_loop_all:
  assumes "distinct (map t_id (tasks d))" "find_sub d name = Some s" "s_generation s = g"
    "s_backfill s = Some marker" "distinct (map fst (bf_pending marker))" "limit \<ge> 1"
    "length (outstanding (s_types s) marker (tasks d)) + length (bf_pending marker) < fuel"
  shows "\<exists>d' evs. backfill_loop fuel env name g limit k d = Some (d', True) \<and> tasks d' = tasks d
    \<and> find_sub d' name = Some (s\<lparr>s_backfill := None\<rparr>) \<and> events d' = events d @ evs
    \<and> map event_content evs = map (projected name) (outstanding (s_types s) marker (tasks d))"
  using assms
proof (induction fuel arbitrary: d s marker k)
  case 0
  then show ?case by simp
next
  case (Suc fuel)
  show ?case
  proof (cases "bf_pending marker = []")
    case True
    then have "store_backfill_chunk (env k) name g limit d = (set_backfill name None d, Some (0, False))"
      using Suc.prems(2-4) by (simp add: store_backfill_chunk_def)
    then show ?thesis
      using Suc.prems(2) True by (simp add: find_sub_set_backfill outstanding_none)
  next
    case False
    obtain st after where fp: "first_pending (bf_pending marker) = (st, after)" by fastforce
    define out where "out = backfill_rows (s_types s) marker st after limit (tasks d)"
    define pending where "pending = next_pending limit out st (bf_pending marker)"
    let ?m = "marker\<lparr>bf_pending := pending\<rparr>"
    let ?d = "set_backfill name (if pending = [] then None else Some ?m) (insert_events (env k) name out d)"
    have step: "store_backfill_chunk (env k) name g limit d = (?d, Some (int (length out), pending \<noteq> []))"
      by (rule chunk_step [OF Suc.prems(2-4) False fp out_def pending_def])
    have prefix: "outstanding (s_types s) marker (tasks d) = out @ outstanding (s_types s) ?m (tasks d)"
      unfolding pending_def by (rule chunk_takes_prefix(1) [OF Suc.prems(1,5) False fp Suc.prems(6) out_def])
    have len: "length pending + (if length out < limit then 1 else 0) = length (bf_pending marker)"
      unfolding pending_def by (rule chunk_takes_prefix(2) [OF Suc.prems(1,5) False fp Suc.prems(6) out_def])
    have evs: "events ?d = events d @ log_events (env k) (next_seq d) (map (Pair name) out)"
      by simp
    show ?thesis
    proof (cases "pending = []")
      case True
      then have "outstanding (s_types s) ?m (tasks d) = []" by (simp add: outstanding_none)
      with prefix step True Suc.prems(2) show ?thesis
        by (auto simp: find_sub_set_backfill log_events_projected)
    next
      case pend: False
      let ?s = "s\<lparr>s_backfill := Some ?m\<rparr>"
      have sub: "find_sub ?d name = Some ?s" using pend Suc.prems(2) by (simp add: find_sub_set_backfill)
      have keys: "distinct (map fst (bf_pending ?m))"
        using keys_next_pending [OF Suc.prems(5)] by (simp add: pending_def)
      have fuel: "length (outstanding (s_types ?s) ?m (tasks ?d)) + length (bf_pending ?m) < fuel"
        using prefix len Suc.prems(6,7) by (auto split: if_splits)
      from Suc.IH [of ?d ?s ?m "Suc k"] Suc.prems(1,3,6) sub keys fuel obtain d' evs where
        ih: "backfill_loop fuel env name g limit (Suc k) ?d = Some (d', True)" "tasks d' = tasks d"
        "find_sub d' name = Some (s\<lparr>s_backfill := None\<rparr>)" "events d' = events ?d @ evs"
        "map event_content evs = map (projected name) (outstanding (s_types s) ?m (tasks d))"
        by auto
      have "backfill_loop (Suc fuel) env name g limit k d = Some (d', True)"
        using step pend ih(1) by simp
      moreover have "events d' = events d @ (log_events (env k) (next_seq d) (map (Pair name) out) @ evs)"
        using ih(4) evs by simp
      moreover have "map event_content (log_events (env k) (next_seq d) (map (Pair name) out) @ evs)
          = map (projected name) (outstanding (s_types s) marker (tasks d))"
        using ih(5) prefix by (simp add: log_events_projected)
      ultimately show ?thesis using ih(2,3) by blast
    qed
  qed
qed

text \<open>The outstanding rows are the matching ones, each once.\<close>

lemma set_pending_rows:
  "set (pending_rows types marker rows (st, a))
    = {r \<in> set rows. backfill_matches types (state_since marker st) st a r}"
  by (auto simp: pending_rows_def)

lemma set_outstanding:
  "set (outstanding types marker rows) = {r \<in> set rows. \<exists>a. (t_state r, a) \<in> set (bf_pending marker)
     \<and> backfill_matches types (state_since marker (t_state r)) (t_state r) a r}"
proof (intro set_eqI iffI)
  fix r assume "r \<in> set (outstanding types marker rows)"
  then obtain st a where "(st, a) \<in> set (bf_pending marker)" "r \<in> set (pending_rows types marker rows (st, a))"
    by (auto simp: outstanding_def)
  moreover from this(2) have "t_state r = st" by (simp add: set_pending_rows backfill_matches_def)
  ultimately show "r \<in> {r \<in> set rows. \<exists>a. (t_state r, a) \<in> set (bf_pending marker)
     \<and> backfill_matches types (state_since marker (t_state r)) (t_state r) a r}"
    by (auto simp: set_pending_rows)
next
  fix r assume "r \<in> {r \<in> set rows. \<exists>a. (t_state r, a) \<in> set (bf_pending marker)
     \<and> backfill_matches types (state_since marker (t_state r)) (t_state r) a r}"
  then obtain a where a: "(t_state r, a) \<in> set (bf_pending marker)"
    "r \<in> set (pending_rows types marker rows (t_state r, a))" by (auto simp: set_pending_rows)
  then show "r \<in> set (outstanding types marker rows)"
    unfolding outstanding_def by (auto intro: bexI [where x = "(t_state r, a)"])
qed

lemma distinct_outstanding:
  assumes "distinct (map t_id rows)" "distinct (map fst (bf_pending marker))"
  shows "distinct (map t_id (outstanding types marker rows))"
proof -
  let ?P = "sort_key (\<lambda>p. state_value (fst p)) (bf_pending marker)"
  let ?f = "pending_rows types marker rows"
  have P: "distinct (map fst ?P)" by (rule distinct_map_sort_key [OF assms(2)])
  have "distinct (concat (map (\<lambda>p. map t_id (?f p)) ps))" if "distinct (map fst ps)" for ps
    using that
  proof (induction ps)
    case (Cons p ps)
    obtain st a where p: "p = (st, a)" by fastforce
    have "distinct (map t_id (?f p))"
      unfolding p pending_rows_def
      by (intro distinct_map_sort_key distinct_map_filter_key assms(1))
    moreover have "t_id r \<noteq> t_id x" if r: "r \<in> set (?f p)" and q: "q \<in> set ps" "x \<in> set (?f q)" for r q x
    proof
      assume "t_id r = t_id x"
      obtain su b where qq: "q = (su, b)" by fastforce
      have rx: "r \<in> set rows" "x \<in> set rows" "t_state r = st" "t_state x = su"
        using r q by (auto simp: p qq set_pending_rows backfill_matches_def)
      with \<open>t_id r = t_id x\<close> have "r = x" using key_unique [OF assms(1)] by blast
      with rx have "su = st" by simp
      then show False using Cons.prems q(1) by (force simp: p qq)
    qed
    ultimately show ?case using Cons by auto
  qed simp
  from this [OF P] show ?thesis by (simp add: outstanding_def map_concat comp_def)
qed

section \<open>Concurrent consumers\<close>

text \<open>
  Several consumers on the shared tables. A consumer's transaction keeps its delivered rows and
  its registration locked, so another consumer skips those rows, expiry skips them, and the
  removal of the subscription waits until nobody holds a delivery of it.
\<close>

record feed_sys =
  fs_db :: db
  fs_feeds :: "feed list"

definition held_by_others :: "nat \<Rightarrow> feed list \<Rightarrow> int \<Rightarrow> bool" where
  "held_by_others i fs q \<longleftrightarrow> (\<exists>j \<in> set [0..<length fs]. j \<noteq> i \<and> q \<in> set (held (fs ! j)))"

definition held_by_any :: "feed list \<Rightarrow> int \<Rightarrow> bool" where
  "held_by_any fs q \<longleftrightarrow> (\<exists>f \<in> set fs. q \<in> set (held f))"

datatype feed_action = ANext nat | AAck nat | ARollback nat | AOpen | APublish | AExpire time | AUnsubscribe ustr

inductive feed_step :: "feed_sys \<Rightarrow> feed_action \<Rightarrow> feed_sys \<Rightarrow> bool" where
  FNext: "i < length fs \<Longrightarrow> feed_next (held_by_others i fs) d (fs ! i) = (f', res)
    \<Longrightarrow> feed_step \<lparr>fs_db = d, fs_feeds = fs\<rparr> (ANext i) \<lparr>fs_db = d, fs_feeds = fs[i := f']\<rparr>"
| FAck: "i < length fs \<Longrightarrow> feed_ack d (fs ! i) = Inr (d', f')
    \<Longrightarrow> feed_step \<lparr>fs_db = d, fs_feeds = fs\<rparr> (AAck i) \<lparr>fs_db = d', fs_feeds = fs[i := f']\<rparr>"
| FRollback: "i < length fs
    \<Longrightarrow> feed_step \<lparr>fs_db = d, fs_feeds = fs\<rparr> (ARollback i) \<lparr>fs_db = d, fs_feeds = fs[i := feed_rollback (fs ! i)]\<rparr>"
| FOpen: "fd_batch f = None
    \<Longrightarrow> feed_step \<lparr>fs_db = d, fs_feeds = fs\<rparr> AOpen \<lparr>fs_db = d, fs_feeds = fs @ [f]\<rparr>"
| FPublish: "feed_step \<lparr>fs_db = d, fs_feeds = fs\<rparr> APublish \<lparr>fs_db = publish env applied d, fs_feeds = fs\<rparr>"
| FExpire: "mset (scan (events d)) = mset (events d)
    \<Longrightarrow> feed_step \<lparr>fs_db = d, fs_feeds = fs\<rparr> (AExpire (tx_now env - ret))
     \<lparr>fs_db = fst (store_purge_events env scan ret n (held_by_any fs) d), fs_feeds = fs\<rparr>"
| FUnsubscribe: "(\<And>f. f \<in> set fs \<Longrightarrow> fd_name f = name \<Longrightarrow> held f = []) \<Longrightarrow> store_unsubscribe name d = Inr d'
    \<Longrightarrow> feed_step \<lparr>fs_db = d, fs_feeds = fs\<rparr> (AUnsubscribe name) \<lparr>fs_db = d', fs_feeds = fs\<rparr>"

inductive feed_reach :: "feed_sys \<Rightarrow> bool" where
  start: "db_inv d \<Longrightarrow> feed_reach \<lparr>fs_db = d, fs_feeds = []\<rparr>"
| more_steps: "feed_reach s \<Longrightarrow> feed_step s a s' \<Longrightarrow> feed_reach s'"

definition seqs_of :: "db \<Rightarrow> ustr \<Rightarrow> int set" where
  "seqs_of d name = e_seq ` {e \<in> set (events d). e_sub e = name}"

definition feed_ok :: "db \<Rightarrow> feed \<Rightarrow> bool" where
  "feed_ok d f \<longleftrightarrow> set (held f) \<subseteq> seqs_of d (fd_name f) \<and> length (held f) \<le> fd_batch_size f"

definition feeds_disjoint :: "feed list \<Rightarrow> bool" where
  "feeds_disjoint fs \<longleftrightarrow> (\<forall>i < length fs. \<forall>j < length fs. i \<noteq> j \<longrightarrow> set (held (fs ! i)) \<inter> set (held (fs ! j)) = {})"

definition feeds_inv :: "feed_sys \<Rightarrow> bool" where
  "feeds_inv s \<longleftrightarrow> db_inv (fs_db s) \<and> (\<forall>f \<in> set (fs_feeds s). feed_ok (fs_db s) f) \<and> feeds_disjoint (fs_feeds s)"

lemma feed_next_held:
  assumes "feed_next busy d f = (f', res)"
  shows "set (held f') \<subseteq> (seqs_of d (fd_name f) - {q. busy q}) \<union> (if fd_closed f then set (held f) else {})
    \<and> (fd_closed f \<or> length (held f') \<le> fd_batch_size f)
    \<and> fd_name f' = fd_name f \<and> fd_batch_size f' = fd_batch_size f"
  using assms
  by (auto simp: feed_next_def Let_def held_def feed_rollback_def seqs_of_def to_event_def length_order_limit
      split: if_splits option.splits dest!: in_order_limit)

lemma feeds_disjoint_update:
  assumes "feeds_disjoint fs" "i < length fs"
    "\<And>j. j < length fs \<Longrightarrow> j \<noteq> i \<Longrightarrow> set (held f') \<inter> set (held (fs ! j)) = {}"
  shows "feeds_disjoint (fs[i := f'])"
  using assms by (auto simp: feeds_disjoint_def nth_list_update)

lemma feed_ok_mono:
  "feed_ok d f \<Longrightarrow> (\<And>e. e \<in> set (events d) \<Longrightarrow> e_sub e = fd_name f \<Longrightarrow> e_seq e \<in> set (held f) \<Longrightarrow> e \<in> set (events d'))
    \<Longrightarrow> feed_ok d' f"
  unfolding feed_ok_def seqs_of_def by fastforce

lemma outbox_seq_unique:
  "db_inv d \<Longrightarrow> a \<in> set (events d) \<Longrightarrow> b \<in> set (events d) \<Longrightarrow> e_seq a = e_seq b \<Longrightarrow> a = b"
  by (auto simp: db_inv_def outbox_inv_def intro: key_unique)

lemma events_purge:
  "e \<in> set (events d) \<Longrightarrow> db_inv d \<Longrightarrow> e \<notin> set (events (fst (store_purge_events env scan ret n busy d)))
    \<Longrightarrow> \<exists>x \<in> set (scan (events d)). e_seq x = e_seq e \<and> e_sub x = e_sub e \<and> e_created_at x < tx_now env - ret \<and> \<not> busy (e_seq x)"
  by (auto simp: store_purge_events_def Let_def dest!: in_set_takeD)

inductive_cases feed_stepE: "feed_step s a s'"

lemma held_by_anyI: "f \<in> set fs \<Longrightarrow> q \<in> set (held f) \<Longrightarrow> held_by_any fs q"
  by (auto simp: held_by_any_def)

lemma feed_ok_next:
  assumes "feed_ok d f" "feed_next busy d f = (f', res)"
  shows "feed_ok d f'"
  using feed_next_held [OF assms(2)] assms unfolding feed_ok_def
  by (cases "fd_closed f") (auto simp: feed_next_def)

lemma feeds_disjoint_next:
  assumes "feeds_disjoint fs" "i < length fs" "feed_next (held_by_others i fs) d (fs ! i) = (f', res)"
  shows "feeds_disjoint (fs[i := f'])"
proof (cases "fd_closed (fs ! i)")
  case True
  then have "f' = fs ! i" using assms(3) by (simp add: feed_next_def)
  then show ?thesis using assms(1) by simp
next
  case False
  have "set (held f') \<inter> set (held (fs ! j)) = {}" if "j < length fs" "j \<noteq> i" for j
  proof -
    have "set (held f') \<inter> {q. held_by_others i fs q} = {}"
      using feed_next_held [OF assms(3)] False by auto
    moreover have "set (held (fs ! j)) \<subseteq> {q. held_by_others i fs q}"
      using that unfolding held_by_others_def by fastforce
    ultimately show ?thesis by blast
  qed
  then show ?thesis by (rule feeds_disjoint_update [OF assms(1,2)])
qed

lemma feed_ackD:
  assumes "feed_ack d f = Inr (d', f')"
  shows "held f' = [] \<and> fd_name f' = fd_name f
    \<and> events d' = filter (\<lambda>e. \<not> (e_sub e = fd_name f \<and> e_seq e \<in> set (held f))) (events d)"
  using assms by (auto simp: feed_ack_def held_def split: option.splits if_splits)

lemma feeds_inv_step:
  assumes "feed_step s a s'" "feeds_inv s"
  shows "feeds_inv s'"
  using assms(1)
proof cases
  case (FNext i fs d f' res)
  have "feed_ok d f'"
    by (rule feed_ok_next [OF _ FNext(5)]) (use assms(2) FNext in \<open>simp add: feeds_inv_def\<close>)
  moreover have "feeds_disjoint (fs[i := f'])"
    using feeds_disjoint_next assms(2) FNext by (auto simp: feeds_inv_def)
  ultimately show ?thesis
    using assms(2) FNext by (auto simp: feeds_inv_def dest: set_update_subset_insert [THEN subsetD])
next
  case (FAck i fs d d' f')
  note ack = feed_ackD [OF FAck(5)]
  have inv: "db_inv d" "\<forall>f \<in> set fs. feed_ok d f" "feeds_disjoint fs"
    using assms(2) FAck(1) by (simp_all add: feeds_inv_def)
  have "feed_ok d' f" if j: "j < length fs" "j \<noteq> i" "f = fs ! j" for f j
  proof (rule feed_ok_mono)
    show "feed_ok d f" using inv(2) j by simp
    fix e assume e: "e \<in> set (events d)" "e_sub e = fd_name f" "e_seq e \<in> set (held f)"
    have "set (held (fs ! i)) \<inter> set (held f) = {}"
      using inv(3) FAck(4) j by (auto simp: feeds_disjoint_def)
    then show "e \<in> set (events d')" using e ack by auto
  qed
  moreover have "feed_ok d' f'" using ack by (simp add: feed_ok_def)
  ultimately have "\<forall>f \<in> set (fs[i := f']). feed_ok d' f"
    by (metis in_set_conv_nth length_list_update nth_list_update_eq nth_list_update_neq)
  moreover have "feeds_disjoint (fs[i := f'])"
    using ack by (intro feeds_disjoint_update [OF inv(3) FAck(4)]) simp
  ultimately show ?thesis using FAck db_inv_ack [OF FAck(5) inv(1)] by (simp add: feeds_inv_def)
next
  case (FRollback i fs d)
  have none: "held (feed_rollback (fs ! i)) = []" by (simp add: feed_rollback_def held_def)
  have "feeds_disjoint (fs[i := feed_rollback (fs ! i)])"
    using assms(2) FRollback none by (intro feeds_disjoint_update) (auto simp: feeds_inv_def)
  then show ?thesis
    using assms(2) FRollback none
    by (auto simp: feeds_inv_def feed_ok_def dest!: set_update_subset_insert [THEN subsetD])
next
  case (FOpen f d fs)
  then show ?thesis using assms(2)
    by (auto simp: feeds_inv_def feeds_disjoint_def feed_ok_def held_def nth_append)
next
  case (FPublish d fs env applied)
  have "feed_ok (publish env applied d) f" if "feed_ok d f" for f
    using that by (rule feed_ok_mono) (simp add: publish_def Let_def)
  then show ?thesis using assms(2) FPublish by (auto simp: feeds_inv_def db_inv_publish)
next
  case (FExpire scan d fs env ret n)
  have inv: "db_inv d" "\<forall>f \<in> set fs. feed_ok d f" using assms(2) FExpire(1) by (simp_all add: feeds_inv_def)
  have "feed_ok (fst (store_purge_events env scan ret n (held_by_any fs) d)) f" if f: "f \<in> set fs" for f
  proof (rule feed_ok_mono)
    show "feed_ok d f" using inv(2) f by simp
    fix e assume e: "e \<in> set (events d)" "e_seq e \<in> set (held f)"
    show "e \<in> set (events (fst (store_purge_events env scan ret n (held_by_any fs) d)))"
    proof (rule ccontr)
      assume "\<not> ?thesis"
      from events_purge [OF e(1) inv(1) this] held_by_anyI [OF f e(2)] show False by auto
    qed
  qed
  then show ?thesis using assms(2) FExpire by (auto simp: feeds_inv_def db_inv_purge_events)
next
  case (FUnsubscribe fs name d d')
  have d': "events d' = filter (\<lambda>e. e_sub e \<noteq> name) (events d)"
    using FUnsubscribe(5) by (auto simp: store_unsubscribe_def bind_result_Inr_iff)
  have "feed_ok d' f" if f: "f \<in> set fs" "feed_ok d f" for f
  proof (cases "fd_name f = name")
    case True
    then show ?thesis using FUnsubscribe(4) f(1) by (simp add: feed_ok_def)
  next
    case False
    show ?thesis using f(2) by (rule feed_ok_mono) (use d' False in auto)
  qed
  then show ?thesis
    using assms(2) FUnsubscribe db_inv_unsubscribe by (auto simp: feeds_inv_def)
qed

lemma feeds_inv_reach: "feed_reach s \<Longrightarrow> feeds_inv s"
proof (induction rule: feed_reach.induct)
  case (start d)
  then show ?case by (simp add: feeds_inv_def feeds_disjoint_def)
next
  case (more_steps s a s')
  then show ?case by (blast intro: feeds_inv_step)
qed

section \<open>Why an event leaves the outbox\<close>

lemma event_leaves:
  assumes step: "feed_step s a s'" and inv: "feeds_inv s"
    and e: "e \<in> set (events (fs_db s))" "e \<notin> set (events (fs_db s'))"
  shows "(\<exists>i < length (fs_feeds s). a = AAck i \<and> e_seq e \<in> set (held (fs_feeds s ! i))
            \<and> e_sub e = fd_name (fs_feeds s ! i))
    \<or> (\<exists>cut. a = AExpire cut \<and> e_created_at e < cut \<and> \<not> held_by_any (fs_feeds s) (e_seq e))
    \<or> a = AUnsubscribe (e_sub e)"
  using step
proof cases
  case (FAck i fs d d' f')
  then show ?thesis using feed_ackD [OF FAck(5)] e by auto
next
  case (FPublish d fs env applied)
  then show ?thesis using e by (simp add: publish_def Let_def)
next
  case (FExpire scan d fs env ret n)
  then have inv': "db_inv d" "e \<in> set (events d)" using inv e(1) by (simp_all add: feeds_inv_def)
  have "e \<notin> set (events (fst (store_purge_events env scan ret n (held_by_any fs) d)))" using FExpire e(2) by simp
  from events_purge [OF inv'(2,1) this] obtain x where x: "x \<in> set (scan (events d))" "e_seq x = e_seq e"
    "e_created_at x < tx_now env - ret" "\<not> held_by_any fs (e_seq x)" by blast
  have "x \<in> set (events d)" using x(1) FExpire(4) by (metis set_mset_mset)
  then have "x = e" using outbox_seq_unique [OF inv'(1)] inv'(2) x(2) by blast
  then show ?thesis using x FExpire(1,2) by auto
next
  case (FUnsubscribe fs name d d')
  then show ?thesis using e by (auto simp: store_unsubscribe_def bind_result_Inr_iff)
qed (use e in simp_all)

end
