(* ===== verification/Lifecycle.thy ===== *)
theory Lifecycle
  imports Transitions ClaimOrder Delivery
begin

text \<open>
  All committed statements of the program as one labelled step relation on the database, the
  states reachable from the empty schema, and what holds across any sequence of steps: the
  tables' invariant, the graph of task states, the immutable columns, the outbox record of
  every state change, and the fencing of stale execution tokens.
\<close>

section \<open>The step relation\<close>

datatype statement =
    SEnqueue new_task
  | SClaim locks "nat \<Rightarrow> time" "ustr list" ustr rat rat int
  | SComplete "completion list"
  | SOrphans ustr "int list"
  | SHeartbeat "(int \<times> uuid) list" rat
  | SProgress int uuid ustr
  | SCancel int
  | SReap nat "int \<Rightarrow> bool"
  | SRequeue int
  | SPurgeTasks rat nat "int \<Rightarrow> bool"
  | SPurgeEvents "event_row list \<Rightarrow> event_row list" rat nat "int \<Rightarrow> bool"
  | SPublish "json \<Rightarrow> json" "task_type_spec \<Rightarrow> ustr" task_type_spec
  | SPause ustr bool
  | SRegister ustr "task_state list" "ustr list option" backfill_arg
  | SBackfill ustr uuid nat
  | SUnsubscribe ustr
  | SAck feed

definition ok_db :: "exn + (db \<times> 'a) \<Rightarrow> db \<Rightarrow> db" where
  "ok_db m d = (case m of Inl _ \<Rightarrow> d | Inr (d', _) \<Rightarrow> d')"

definition ok_only :: "exn + db \<Rightarrow> db \<Rightarrow> db" where
  "ok_only m d = (case m of Inl _ \<Rightarrow> d | Inr d' \<Rightarrow> d')"

text \<open>The committed effect of one statement; an error leaves the database as it was.\<close>

fun run_stmt :: "pg \<Rightarrow> statement \<Rightarrow> db \<Rightarrow> db" where
  "run_stmt env (SEnqueue nt) d =
     (case check_new_task nt of Inl _ \<Rightarrow> d | Inr _ \<Rightarrow> fst (enqueue_insert env nt d))"
| "run_stmt env (SClaim lk clk types w l dl n) d = fst (store_claim env lk clk types w l dl n d)"
| "run_stmt env (SComplete cs) d = ok_db (store_complete env cs d) d"
| "run_stmt env (SOrphans w live) d = fst (store_release_orphans env w live d)"
| "run_stmt env (SHeartbeat rs l) d = ok_db (store_heartbeat env rs l d) d"
| "run_stmt env (SProgress i tok s) d = fst (store_set_progress env i tok s d)"
| "run_stmt env (SCancel i) d = fst (store_request_cancel env i d)"
| "run_stmt env (SReap n busy) d = fst (store_reap env n busy d)"
| "run_stmt env (SRequeue i) d = ok_db (store_requeue env i d) d"
| "run_stmt env (SPurgeTasks ret n busy) d = fst (store_purge_tasks env ret n busy d)"
| "run_stmt env (SPurgeEvents scan ret n busy) d = fst (store_purge_events env scan ret n busy d)"
| "run_stmt env (SPublish jcast fp s) d = ok_db (store_publish_task_type env jcast fp s d) d"
| "run_stmt env (SPause name p) d = ok_only (store_set_paused name p d) d"
| "run_stmt env (SRegister name sts tys b) d = fst (store_register_subscription env name sts tys b d)"
| "run_stmt env (SBackfill name g n) d = fst (store_backfill_chunk env name g n d)"
| "run_stmt env (SUnsubscribe name) d = ok_only (store_unsubscribe name d) d"
| "run_stmt env (SAck f) d = ok_db (feed_ack d f) d"

text \<open>Callers only build policies through the constructors of \<open>model.py\<close>.\<close>

fun stmt_ok :: "statement \<Rightarrow> bool" where
  "stmt_ok (SEnqueue nt) \<longleftrightarrow> policy_ok (n_policy nt)"
| "stmt_ok (SPublish jcast fp s) \<longleftrightarrow> policy_ok (sp_policy s)"
| "stmt_ok _ \<longleftrightarrow> True"

inductive reachable :: "db \<Rightarrow> bool" where
  init: "reachable empty_db"
| stmt: "reachable d \<Longrightarrow> stmt_ok s \<Longrightarrow> reachable (run_stmt env s d)"

section \<open>The invariant\<close>

lemma ok_db_inv: "(\<And>d' x. m = Inr (d', x) \<Longrightarrow> P d') \<Longrightarrow> P d \<Longrightarrow> P (ok_db m d)"
  by (auto simp: ok_db_def split: sum.split prod.split)

lemma ok_only_inv: "(\<And>d'. m = Inr d' \<Longrightarrow> P d') \<Longrightarrow> P d \<Longrightarrow> P (ok_only m d)"
  by (auto simp: ok_only_def split: sum.split)

lemma db_inv_run: "db_inv d \<Longrightarrow> stmt_ok s \<Longrightarrow> db_inv (run_stmt env s d)"
  by (cases s) (auto intro: inv_intros ok_db_inv ok_only_inv split: sum.split)

lemma reachable_inv: "reachable d \<Longrightarrow> db_inv d"
  by (induction rule: reachable.induct) (auto intro: db_inv_empty db_inv_run)

section \<open>Legal rows\<close>

fun edge :: "task_state \<Rightarrow> task_state \<Rightarrow> bool" where
  "edge Queued t \<longleftrightarrow> t = Running \<or> t = Cancelled"
| "edge Running t \<longleftrightarrow> t \<noteq> Running"
| "edge Failed t \<longleftrightarrow> t = Queued"
| "edge Cancelled t \<longleftrightarrow> t = Queued"
| "edge Succeeded t \<longleftrightarrow> False"

text \<open>
  What a statement may do to one row: an edge of the graph, and no immutable column; a running
  task whose cancellation was requested never goes back to the queue.
\<close>

definition same_task :: "task_row \<Rightarrow> task_row \<Rightarrow> bool" where
  "same_task r s \<longleftrightarrow> t_id s = t_id r \<and> t_type s = t_type r \<and> t_key s = t_key r \<and> t_ckey s = t_ckey r
     \<and> t_input s = t_input r \<and> t_priority s = t_priority r \<and> t_max_attempts s = t_max_attempts r
     \<and> t_timeout s = t_timeout r \<and> t_backoff s = t_backoff r \<and> t_created_at s = t_created_at r
     \<and> t_metadata s = t_metadata r"

definition legal_row :: "task_row \<Rightarrow> task_row \<Rightarrow> bool" where
  "legal_row r s \<longleftrightarrow> same_task r s \<and> (t_state s = t_state r \<or> edge (t_state r) (t_state s))
     \<and> t_attempt s = t_attempt r + (if t_state r = Queued \<and> t_state s = Running then 1 else 0)
     \<and> (t_state r = Running \<and> t_cancel_at r \<noteq> None \<longrightarrow> t_state s \<noteq> Queued
          \<and> (t_state s = Running \<longrightarrow> t_cancel_at s = t_cancel_at r))"

lemma legal_row_refl [simp]: "legal_row r r"
  by (simp add: legal_row_def same_task_def)

text \<open>How a statement may change the table of tasks.\<close>

definition legal_tasks :: "task_row list \<Rightarrow> task_row list \<Rightarrow> bool" where
  "legal_tasks rows rows' \<longleftrightarrow>
     (\<forall>s \<in> set rows'. (\<exists>r \<in> set rows. legal_row r s)
        \<or> (t_id s \<notin> t_id ` set rows \<and> t_state s = Queued \<and> t_attempt s = 0 \<and> t_failures s = 0))
     \<and> (\<forall>r \<in> set rows. t_id r \<in> t_id ` set rows' \<or> terminal (t_state r))"

lemma legal_tasks_refl [simp]: "legal_tasks rows rows"
  by (auto simp: legal_tasks_def intro: legal_row_refl)

text \<open>An execution token nobody holds any more.\<close>

definition stale :: "int \<Rightarrow> uuid \<Rightarrow> db \<Rightarrow> bool" where
  "stale i tok d \<longleftrightarrow> (\<forall>r \<in> set (tasks d). t_id r = i \<longrightarrow> t_token r \<noteq> Some tok)"

lemma row_token_running: "row_inv r \<Longrightarrow> t_token r = Some tok \<Longrightarrow> t_state r = Running"
  by (simp add: row_inv_def)

text \<open>A task whose cancellation is requested for as long as the token is held.\<close>

definition flagged :: "int \<Rightarrow> uuid \<Rightarrow> db \<Rightarrow> bool" where
  "flagged i tok d \<longleftrightarrow>
     (\<forall>r \<in> set (tasks d). t_id r = i \<and> t_token r = Some tok \<longrightarrow> t_cancel_at r \<noteq> None)"

text \<open>
  The contract of a statement with its outbox insert: legal rows, and every change of state
  passes the filter of the insert; a token is kept, cleared or drawn afresh.
\<close>

locale published_update = row_update +
  fixes p :: "task_row \<Rightarrow> bool" and fresh :: "int \<Rightarrow> uuid"
  assumes legal: "row_inv r \<Longrightarrow> guard r \<Longrightarrow> legal_row r (upd r)"
    and published: "guard r \<Longrightarrow> t_state (upd r) \<noteq> t_state r \<Longrightarrow> p (upd r)"
    and tokens: "guard r \<Longrightarrow> t_token (upd r) = t_token r \<or> t_token (upd r) = None
      \<or> t_token (upd r) = Some (fresh (t_id r))"
begin

lemma legal_update:
  assumes "\<forall>r \<in> set rows. row_inv r" "s \<in> set (update_where guard upd rows)"
  shows "\<exists>r \<in> set rows. legal_row r s \<and> (r = s \<or> guard r \<and> s = upd r)"
  using assms legal legal_row_refl unfolding set_update_where by blast

lemma legal_with_events:
  assumes "\<forall>r \<in> set (tasks d). row_inv r"
  shows "legal_tasks (tasks d) (tasks (fst (with_events env guard upd q d)))"
proof -
  have "t_id ` set (update_where guard upd (tasks d)) = t_id ` set (tasks d)"
    unfolding list.set_map [symmetric] by (simp add: ids_update)
  then show ?thesis using legal_update [OF assms] by (auto simp: legal_tasks_def)
qed

text \<open>Every row whose state changed left its event in each matching subscription's outbox.\<close>

lemma logged_with_events:
  assumes "\<forall>r \<in> set (tasks d). row_inv r" "distinct (map t_id (tasks d))" "r \<in> set (tasks d)"
    "s \<in> set (tasks (fst (with_events env guard upd p d)))" "t_id s = t_id r" "t_state s \<noteq> t_state r"
    "sub \<in> set (subscriptions d)" "matches sub s"
  shows "(s_name sub, t_id s, t_type s, t_state s, t_attempt s)
    \<in> event_content ` (set (drop (length (events d)) (events (fst (with_events env guard upd p d)))))"
proof -
  obtain r' where r': "r' \<in> set (tasks d)" "legal_row r' s" "r' = s \<or> guard r' \<and> s = upd r'"
    using legal_update [OF assms(1), of s] assms(4) by auto
  have "r' = r" using key_unique [OF assms(2) r'(1) assms(3)] r'(2) assms(5)
    by (simp add: legal_row_def same_task_def)
  then have upd: "guard r" "s = upd r" using r'(3) assms(6) by auto
  let ?applied = "filter p (returning guard upd (tasks d))"
  have "s \<in> set ?applied"
    using upd assms(3,6) published [of r] by (auto simp: set_returning)
  then have "(s_name sub, s) \<in> set (deliveries (subscriptions d) ?applied)"
    using assms(7,8) by (auto simp: set_deliveries)
  then have "(s_name sub, t_id s, t_type s, t_state s, t_attempt s)
      \<in> set (map (\<lambda>(s, a). (s, t_id a, t_type a, t_state a, t_attempt a)) (deliveries (subscriptions d) ?applied))"
    by force
  then have "(s_name sub, t_id s, t_type s, t_state s, t_attempt s)
      \<in> event_content ` set (log_events env (next_seq d) (deliveries (subscriptions d) ?applied))"
    by (simp add: log_events_content [of env "next_seq d", symmetric] event_content_def image_def)
  then show ?thesis
    by (simp add: with_events_def publish_def Let_def)
qed

lemma stale_with_events:
  assumes "stale i tok d" "fresh i \<noteq> tok"
  shows "stale i tok (fst (with_events env guard upd q d))"
  unfolding stale_def
proof (intro ballI impI)
  fix x assume x: "x \<in> set (tasks (fst (with_events env guard upd q d)))" "t_id x = i"
  then obtain r where r: "r \<in> set (tasks d)" "x = r \<or> guard r \<and> x = upd r"
    by (auto simp: set_update_where)
  then have "t_id r = i" using x(2) by (auto simp: upd_id)
  then show "t_token x \<noteq> Some tok"
    using assms r tokens [of r] by (auto simp: stale_def)
qed

lemma flagged_with_events:
  assumes "flagged i tok d" "fresh i \<noteq> tok" "\<forall>r \<in> set (tasks d). row_inv r"
    "\<forall>r \<in> set (tasks (fst (with_events env guard upd q d))). row_inv r"
  shows "flagged i tok (fst (with_events env guard upd q d))"
  unfolding flagged_def
proof (intro ballI impI, elim conjE)
  fix x assume x: "x \<in> set (tasks (fst (with_events env guard upd q d)))" "t_id x = i" "t_token x = Some tok"
  then obtain r where r: "r \<in> set (tasks d)" "legal_row r x" "r = x \<or> guard r \<and> x = upd r"
    using legal_update [OF assms(3), of x] by auto
  have "t_token r = Some tok" using r(2,3) x(2,3) tokens [of r] assms(2) by (auto simp: upd_id)
  moreover have "t_id r = i" using r(2) x(2) by (simp add: legal_row_def same_task_def)
  moreover have "t_state r = Running" "t_state x = Running"
    using row_token_running [of r tok] row_token_running [of x tok] calculation assms(3,4) r(1) x(1,3) by blast+
  ultimately have "t_cancel_at r \<noteq> None" "t_state r = Running" "t_state x = Running"
    using assms(1) r(1) unfolding flagged_def by blast+
  then show "t_cancel_at x \<noteq> None" using r(2) by (simp add: legal_row_def)
qed

end

interpretation complete_pub: published_update "complete_guard cs" "complete_upd env cs" "\<lambda>_. True" "fresh_uuid env" for cs env
  by unfold_locales (auto simp: complete_guard_def complete_upd_def complete_row_def legal_row_def
      same_task_def split: option.splits completion_kind.splits)

interpretation cancel_pub: published_update "cancel_guard i" "cancel_upd env" "\<lambda>a. t_state a = Cancelled" "fresh_uuid env" for i env
  by unfold_locales (auto simp: cancel_guard_def cancel_upd_def legal_row_def same_task_def)

interpretation reap_pub: published_update "\<lambda>r. lease_expired now r \<and> reap_guard ids r" "reap_upd env" "\<lambda>_. True" "fresh_uuid env" for now ids env
  by unfold_locales (auto simp: lease_expired_def reap_upd_def legal_row_def same_task_def)

interpretation requeue_pub: published_update "requeue_guard i" "requeue_upd env" "\<lambda>_. True" "fresh_uuid env" for i env
  by unfold_locales (auto simp: requeue_guard_def requeue_upd_def legal_row_def same_task_def)

interpretation claim_pub: published_update "claim_guard ids" "claim_upd env w l" "\<lambda>_. True" "fresh_uuid env" for ids env w l
  by unfold_locales (auto simp: claim_guard_def claim_upd_def legal_row_def same_task_def)

interpretation heartbeat_pub: published_update "heartbeat_guard rs" "heartbeat_upd env l" "\<lambda>_. False" "fresh_uuid env" for rs env l
  by unfold_locales (auto simp: heartbeat_upd_def legal_row_def same_task_def)

interpretation progress_pub: published_update "progress_guard i tok" "progress_upd env s" "\<lambda>_. False" "fresh_uuid env" for i tok env s
  by unfold_locales (auto simp: progress_upd_def legal_row_def same_task_def)

text \<open>A plain update is an update whose outbox insert matches nothing.\<close>

lemma with_events_silent:
  "d\<lparr>tasks := update_where g u (tasks d)\<rparr> = fst (with_events env g u (\<lambda>_. False) d)"
  by (simp add: with_events_def)

section \<open>Every statement is one of five shapes\<close>

lemma run_shape:
  assumes "db_inv d" "stmt_ok s"
  shows "tasks (run_stmt env s d) = tasks d
    \<or> (\<exists>g u p. published_update g u p (fresh_uuid env) \<and> run_stmt env s d = fst (with_events env g u p d))
    \<or> (\<exists>nt. run_stmt env s d = fst (enqueue_insert env nt d))
    \<or> (\<exists>ret n busy. run_stmt env s d = fst (store_purge_tasks env ret n busy d))"
proof (cases s)
  case (SEnqueue nt)
  then show ?thesis by (auto split: sum.split)
next
  case (SClaim lk clk types w l dl n)
  show ?thesis
  proof (cases "n < 1")
    case True
    then show ?thesis using SClaim by (simp add: store_claim_def)
  next
    case False
    then have "run_stmt env s d = fst (with_events env
        (claim_guard (v_ids (claim_admission env lk clk types dl n d))) (claim_upd env w l) (\<lambda>_. True) d)"
      using SClaim by (simp add: store_claim_def Let_def case_prod_beta)
    then show ?thesis using claim_pub.published_update_axioms by blast
  qed
next
  case (SComplete cs)
  have "run_stmt env s d = d \<or> run_stmt env s d = fst (with_events env (complete_guard cs) (complete_upd env cs) (\<lambda>_. True) d)"
    using SComplete by (auto simp: ok_db_def store_complete_def complete_stmt_def Let_def case_prod_beta)
  then show ?thesis using complete_pub.published_update_axioms by metis
next
  case (SOrphans w live)
  then have "run_stmt env s d = fst (with_events env (complete_guard (orphan_outcomes w live (tasks d)))
      (complete_upd env (orphan_outcomes w live (tasks d))) (\<lambda>_. True) d)"
    by (simp add: store_release_orphans_def complete_stmt_def Let_def case_prod_beta)
  then show ?thesis using complete_pub.published_update_axioms by blast
next
  case (SHeartbeat rs l)
  have "run_stmt env s d = d \<or> run_stmt env s d = fst (with_events env (heartbeat_guard rs) (heartbeat_upd env l) (\<lambda>_. False) d)"
    using SHeartbeat by (auto simp: ok_db_def store_heartbeat_def with_events_silent [symmetric])
  then show ?thesis using heartbeat_pub.published_update_axioms by metis
next
  case (SProgress i tok t)
  have "run_stmt env s d = fst (with_events env (progress_guard i tok) (progress_upd env t) (\<lambda>_. False) d)"
    using SProgress by (simp add: store_set_progress_def with_events_silent [symmetric])
  then show ?thesis using progress_pub.published_update_axioms by blast
next
  case (SCancel i)
  then have "run_stmt env s d = fst (with_events env (cancel_guard i) (cancel_upd env) (\<lambda>a. t_state a = Cancelled) d)"
    by (simp add: store_request_cancel_def Let_def case_prod_beta)
  then show ?thesis using cancel_pub.published_update_axioms by blast
next
  case (SReap n busy)
  have "run_stmt env s d = fst (with_events env (\<lambda>r. lease_expired (tx_now env) r
      \<and> reap_guard (expired_ids env n busy (tasks d)) r) (reap_upd env) (\<lambda>_. True) d)"
    using SReap by (simp add: store_reap_def Let_def case_prod_beta reap_stmt_eq [OF db_inv_ids [OF assms(1)]])
  then show ?thesis using reap_pub.published_update_axioms by blast
next
  case (SRequeue i)
  have "run_stmt env s d = d \<or> run_stmt env s d = fst (with_events env (requeue_guard i) (requeue_upd env) (\<lambda>_. True) d)"
    using SRequeue by (auto simp: ok_db_def store_requeue_def Let_def case_prod_beta split: list.splits option.splits)
  then show ?thesis using requeue_pub.published_update_axioms by metis
next
  case (SPurgeTasks ret n busy)
  then have "run_stmt env s d = fst (store_purge_tasks env ret n busy d)" by simp
  then show ?thesis by blast
next
  case (SPurgeEvents scan ret n busy)
  then show ?thesis by (simp add: store_purge_events_def Let_def)
next
  case (SPublish jcast fp sp)
  then show ?thesis
    by (auto simp: ok_db_def store_publish_task_type_def bind_result_Inr_iff split: sum.split option.splits)
next
  case (SPause name q)
  then show ?thesis
    by (auto simp: ok_only_def store_set_paused_def bind_result_Inr_iff split: sum.split if_splits)
next
  case (SRegister name sts tys b)
  then show ?thesis by (simp add: store_register_subscription_def Let_def split: option.split)
next
  case (SBackfill name g n)
  then show ?thesis by (auto simp: store_backfill_chunk_def Let_def split: option.split prod.split)
next
  case (SUnsubscribe name)
  then show ?thesis by (auto simp: ok_only_def store_unsubscribe_def bind_result_Inr_iff split: sum.split)
next
  case (SAck f)
  then show ?thesis by (auto simp: ok_db_def feed_ack_def split: option.split sum.split)
qed

section \<open>Legal changes, logged changes, stale tokens\<close>

lemma legal_purge:
  assumes "db_inv d"
  shows "legal_tasks (tasks d) (tasks (fst (store_purge_tasks env ret n busy d)))"
proof -
  have "terminal (t_state r)" if "r \<in> set (tasks d)" "t_id r \<in> set (purge_ids env ret n busy (tasks d))" for r
    using purge_idsD [OF assms that] by (simp add: purgeable_def)
  moreover have "tasks (fst (store_purge_tasks env ret n busy d))
      = filter (\<lambda>r. t_id r \<notin> set (purge_ids env ret n busy (tasks d))) (tasks d)"
    by (simp add: store_purge_tasks_def Let_def)
  ultimately show ?thesis
    unfolding legal_tasks_def by (auto intro!: imageI) (use legal_row_refl in blast)
qed

lemma legal_enqueue:
  assumes "db_inv d"
  shows "legal_tasks (tasks d) (tasks (fst (enqueue_insert env nt d)))"
proof -
  have fresh: "next_id d \<notin> t_id ` set (tasks d)"
    using assms by (force simp: db_inv_def tasks_inv_def)
  have new: "t_attempt (new_row env nt i) = 0" "t_failures (new_row env nt i) = 0" for i
    by (simp_all add: new_row_def)
  show ?thesis
    using fresh new legal_row_refl by (force simp: enqueue_insert_def legal_tasks_def Let_def)
qed

lemma legal_run:
  assumes "db_inv d" "stmt_ok s"
  shows "legal_tasks (tasks d) (tasks (run_stmt env s d))"
proof -
  have rows: "\<forall>r \<in> set (tasks d). row_inv r" using db_inv_row [OF assms(1)] by blast
  from run_shape [OF assms, of env] show ?thesis
  proof (elim disjE exE conjE)
    fix g u p assume pu: "published_update g u p (fresh_uuid env)"
      and run: "run_stmt env s d = fst (with_events env g u p d)"
    show ?thesis unfolding run by (rule published_update.legal_with_events [OF pu rows])
  qed (simp_all add: legal_enqueue [OF assms(1)] legal_purge [OF assms(1)])
qed

lemma logged_run:
  assumes "db_inv d" "stmt_ok s" "r \<in> set (tasks d)" "x \<in> set (tasks (run_stmt env s d))"
    "t_id x = t_id r" "t_state x \<noteq> t_state r" "sub \<in> set (subscriptions d)" "matches sub x"
  shows "(s_name sub, t_id x, t_type x, t_state x, t_attempt x)
    \<in> event_content ` set (drop (length (events d)) (events (run_stmt env s d)))"
proof -
  have rows: "\<forall>r \<in> set (tasks d). row_inv r" and ids: "distinct (map t_id (tasks d))"
    using db_inv_row [OF assms(1)] db_inv_ids [OF assms(1)] by auto
  have same: "x = r" if "x \<in> set (tasks d)" using key_unique [OF ids that assms(3,5)] .
  have fresh: "next_id d \<noteq> t_id r" using assms(1,3) by (force simp: db_inv_def tasks_inv_def)
  from run_shape [OF assms(1,2), of env] show ?thesis
  proof (elim disjE exE conjE)
    fix g u p assume "published_update g u p (fresh_uuid env)" "run_stmt env s d = fst (with_events env g u p d)"
    then show ?thesis
      using published_update.logged_with_events [OF _ rows ids assms(3) _ assms(5-8)] assms(4) by metis
  next
    fix nt assume "run_stmt env s d = fst (enqueue_insert env nt d)"
    then have "x \<in> set (tasks d)" using assms(4,5) fresh
      by (auto simp: enqueue_insert_def Let_def split: if_splits)
    with same assms(6) show ?thesis by simp
  next
    fix ret n busy assume "run_stmt env s d = fst (store_purge_tasks env ret n busy d)"
    then have "x \<in> set (tasks d)" using assms(4) by (simp add: store_purge_tasks_def Let_def)
    with same assms(6) show ?thesis by simp
  qed (use same assms(4,6) in simp)
qed

text \<open>An enqueued task is in the outbox of every subscription to queued tasks of its type.\<close>

lemma logged_enqueue:
  assumes "enqueue_insert env nt d = (d', Some i)" "sub \<in> set (subscriptions d)"
    "matches sub (new_row env nt i)"
  shows "(s_name sub, i, n_type nt, Queued, 0) \<in> event_content ` set (drop (length (events d)) (events d'))"
proof -
  let ?r = "new_row env nt i" and ?ds = "deliveries (subscriptions d) [new_row env nt i]"
  have d': "events d' = events d @ log_events env (next_seq d) ?ds"
    using assms(1) by (auto simp: enqueue_insert_def Let_def publish_def split: if_splits)
  have "(s_name sub, ?r) \<in> set ?ds" using assms(2,3) by (auto simp: set_deliveries)
  then have "(s_name sub, t_id ?r, t_type ?r, t_state ?r, t_attempt ?r)
      \<in> set (map (\<lambda>(s, a). (s, t_id a, t_type a, t_state a, t_attempt a)) ?ds)" by force
  then have "(s_name sub, i, n_type nt, Queued, 0)
      \<in> event_content ` set (log_events env (next_seq d) ?ds)"
    by (simp add: log_events_content [of env "next_seq d", symmetric] event_content_def image_def new_row_def)
  then show ?thesis by (simp add: d')
qed

lemma stale_run:
  assumes "db_inv d" "stmt_ok s" "stale i tok d" "fresh_uuid env i \<noteq> tok"
  shows "stale i tok (run_stmt env s d)"
  using run_shape [OF assms(1,2), of env]
proof (elim disjE exE conjE)
  fix g u p assume pu: "published_update g u p (fresh_uuid env)"
    and run: "run_stmt env s d = fst (with_events env g u p d)"
  show ?thesis
    unfolding run by (rule published_update.stale_with_events [OF pu assms(3,4)])
next
  fix nt assume "run_stmt env s d = fst (enqueue_insert env nt d)"
  then show ?thesis using assms(3) by (auto simp: stale_def enqueue_insert_def Let_def new_row_def)
next
  fix ret n busy assume "run_stmt env s d = fst (store_purge_tasks env ret n busy d)"
  then show ?thesis using assms(3) by (simp add: stale_def store_purge_tasks_def Let_def)
qed (use assms(3) in \<open>simp add: stale_def\<close>)

lemma flagged_run:
  assumes "db_inv d" "stmt_ok s" "flagged i tok d" "fresh_uuid env i \<noteq> tok"
  shows "flagged i tok (run_stmt env s d)"
proof -
  have rows: "\<forall>r \<in> set (tasks d). row_inv r" "\<forall>r \<in> set (tasks (run_stmt env s d)). row_inv r"
    using db_inv_row [OF assms(1)] db_inv_row [OF db_inv_run [OF assms(1,2)]] by blast+
  from run_shape [OF assms(1,2), of env] show ?thesis
  proof (elim disjE exE conjE)
    fix g u p assume pu: "published_update g u p (fresh_uuid env)"
      and run: "run_stmt env s d = fst (with_events env g u p d)"
    show ?thesis
      using published_update.flagged_with_events [OF pu assms(3,4) rows(1)] rows(2) unfolding run by blast
  next
    fix nt assume "run_stmt env s d = fst (enqueue_insert env nt d)"
    then show ?thesis using assms(3) by (auto simp: flagged_def enqueue_insert_def Let_def new_row_def)
  next
    fix ret n busy assume "run_stmt env s d = fst (store_purge_tasks env ret n busy d)"
    then show ?thesis using assms(3) by (simp add: flagged_def store_purge_tasks_def Let_def)
  qed (use assms(3) in \<open>simp add: flagged_def\<close>)
qed

end
