(* ===== verification/Outcomes.thy ===== *)
theory Outcomes
  imports Lifecycle
begin

text \<open>
  What single statements promise: a retried fenced statement is a no-op, the outcome of every
  completion kind, the bounds of the backoff, the reaper's sweep, and the deduplicating insert.
\<close>

section \<open>Statements that spend their guard\<close>

text \<open>
  A statement whose new row no longer passes the guard can be retried blindly: the second run
  changes nothing and returns nothing, whatever environment it runs in.
\<close>

locale one_shot =
  fixes guard :: "task_row \<Rightarrow> bool" and upd :: "task_row \<Rightarrow> task_row"
  assumes spent: "guard r \<Longrightarrow> \<not> guard (upd r)"
begin

lemma retry_is_noop:
  "with_events env' guard upd' q (fst (with_events env guard upd p d)) = (fst (with_events env guard upd p d), [])"
  by (rule with_events_none) (auto simp: set_update_where spent)

end

lemma outcome_for_token: "t_token r = None \<Longrightarrow> outcome_for cs r = None"
  by (auto simp: outcome_for_def find_row_None_iff)

interpretation complete_once: one_shot "complete_guard cs" "complete_upd env cs" for cs env
  by unfold_locales (auto simp: complete_guard_def complete_upd_def complete_row_def outcome_for_token
      split: option.splits)

interpretation claim_once: one_shot "claim_guard ids" "claim_upd env w l" for ids env w l
  by unfold_locales (simp add: claim_guard_def claim_upd_def)

interpretation requeue_once: one_shot "requeue_guard i" "requeue_upd env" for i env
  by unfold_locales (simp add: requeue_guard_def requeue_upd_def)

lemma store_complete_twice:
  assumes "store_complete env cs d = Inr (d1, out)"
  shows "store_complete env' cs d1 = Inr (d1, [])"
proof (cases "cs = []")
  case True
  then show ?thesis using assms by (simp add: store_complete_def)
next
  case False
  then have "\<not> (length cs > 256 \<or> \<not> distinct (map c_id cs))" "d1 = fst (complete_stmt env cs d)"
    using assms by (auto simp: store_complete_def Let_def case_prod_beta split: if_splits)
  moreover have "complete_stmt env' cs (fst (complete_stmt env cs d)) = (fst (complete_stmt env cs d), [])"
    unfolding complete_stmt_def by (rule complete_once.retry_is_noop)
  ultimately show ?thesis using False by (simp add: store_complete_def)
qed

section \<open>Completion\<close>

text \<open>A stale completion touches nothing: its task keeps its row.\<close>

lemma complete_other_rows:
  assumes "\<forall>c \<in> set cs. stale (c_id c) (c_token c) d"
  shows "complete_stmt env cs d = (d, [])"
  unfolding complete_stmt_def
proof (rule with_events_none)
  fix r assume r: "r \<in> set (tasks d)"
  show "\<not> complete_guard cs r"
  proof
    assume "complete_guard cs r"
    then obtain c where "outcome_for cs r = Some c" by (auto simp: complete_guard_def split: option.splits)
    from outcome_for_SomeD [OF this] assms r show False by (auto simp: stale_def)
  qed
qed

lemma heartbeat_stale:
  assumes "\<forall>p \<in> set rs. stale (fst p) (snd p) d"
  shows "update_where (heartbeat_guard rs) (heartbeat_upd env l) (tasks d) = tasks d"
  using assms by (intro update_where_none) (auto simp: heartbeat_guard_def stale_def)

lemma progress_stale:
  assumes "stale i tok d"
  shows "store_set_progress env i tok s d = (d, False)"
proof -
  have no: "\<not> progress_guard i tok r" if "r \<in> set (tasks d)" for r
    using assms that by (auto simp: progress_guard_def stale_def)
  show ?thesis by (simp add: store_set_progress_def update_where_none [OF no] returning_none [OF no])
qed

text \<open>Staleness survives any sequence of statements that does not draw the token again.\<close>

fun run_all :: "(pg \<times> statement) list \<Rightarrow> db \<Rightarrow> db" where
  "run_all [] d = d"
| "run_all ((env, s) # ss) d = run_all ss (run_stmt env s d)"

lemma run_all_inv:
  "db_inv d \<Longrightarrow> \<forall>(env, s) \<in> set ss. stmt_ok s \<Longrightarrow> db_inv (run_all ss d)"
  by (induction ss d rule: run_all.induct) (auto intro: db_inv_run)

lemma stale_run_all:
  "db_inv d \<Longrightarrow> stale i tok d \<Longrightarrow> \<forall>(env, s) \<in> set ss. stmt_ok s \<and> fresh_uuid env i \<noteq> tok
    \<Longrightarrow> stale i tok (run_all ss d)"
  by (induction ss d rule: run_all.induct) (auto intro: db_inv_run stale_run)

lemma flagged_run_all:
  "db_inv d \<Longrightarrow> flagged i tok d \<Longrightarrow> \<forall>(env, s) \<in> set ss. stmt_ok s \<and> fresh_uuid env i \<noteq> tok
    \<Longrightarrow> flagged i tok (run_all ss d)"
  by (induction ss d rule: run_all.induct) (auto intro: db_inv_run flagged_run)

lemma run_all_append [simp]: "run_all (xs @ ys) d = run_all ys (run_all xs d)"
  by (induction xs d rule: run_all.induct) simp_all

text \<open>
  A batch whose cancellations are requested spends every one of its tokens: a row that still had one
  would have passed the guard.
\<close>

definition cancels_flagged :: "completion list \<Rightarrow> db \<Rightarrow> bool" where
  "cancels_flagged cs d \<longleftrightarrow> (\<forall>c \<in> set cs. c_kind c = Cancel \<longrightarrow> flagged (c_id c) (c_token c) d)"

lemma complete_spends_tokens:
  assumes "store_complete env cs d = Inr (d', out)" "db_inv d" "cancels_flagged cs d" "c \<in> set cs"
  shows "stale (c_id c) (c_token c) d'"
  unfolding stale_def
proof (intro ballI impI notI)
  fix x assume x: "x \<in> set (tasks d')" "t_id x = c_id c" "t_token x = Some (c_token c)"
  have "d' = fst (complete_stmt env cs d)" "distinct (map c_id cs)"
    using assms(1,4) by (auto simp: store_complete_def Let_def case_prod_beta split: if_splits)
  then obtain r where r: "r \<in> set (tasks d)" "complete_guard cs r \<and> x = complete_upd env cs r \<or> \<not> complete_guard cs r \<and> x = r"
    and inj: "inj_on c_id (set cs)"
    using x(1) by (auto simp: complete_stmt_def set_update_where distinct_map)
  then have r': "x = r" "\<not> complete_guard cs r"
    using x(3) by (auto simp: complete_guard_def complete_upd_def complete_row_def split: option.splits)
  have run: "t_state r = Running" using row_token_running [OF db_inv_row [OF assms(2) r(1)]] x(3) r'(1) by simp
  have "outcome_for cs r \<noteq> None"
    using assms(4) x(2,3) r'(1) by (auto simp: outcome_for_def find_row_None_iff)
  then obtain c' where c': "outcome_for cs r = Some c'" by blast
  then have "c' = c" using outcome_for_SomeD [OF c'] x(2) r'(1) assms(4) inj by (auto dest: inj_onD)
  then have "c_kind c = Cancel" "t_cancel_at r = None" using r'(2) run c' by (simp_all add: complete_guard_def)
  moreover have "t_id r = c_id c" "t_token r = Some (c_token c)" using x(2,3) r'(1) by simp_all
  ultimately show False using assms(3,4) r(1) unfolding cancels_flagged_def flagged_def by blast
qed

lemma store_complete_stale:
  assumes "\<forall>c \<in> set cs. stale (c_id c) (c_token c) d" "store_complete env cs d0 = Inr z"
  shows "store_complete env' cs d = Inr (d, [])"
  using complete_other_rows [OF assms(1), of env'] assms(2) by (auto simp: store_complete_def split: if_splits)

lemma complete_makes_stale:
  assumes "complete_stmt env cs d = (d', out)" "r \<in> set out" "db_inv d"
  shows "\<exists>c \<in> set cs. c_id c = t_id r \<and> stale (c_id c) (c_token c) d'"
proof -
  have d': "tasks d' = update_where (complete_guard cs) (complete_upd env cs) (tasks d)"
    and out: "out = returning (complete_guard cs) (complete_upd env cs) (tasks d)"
    using assms(1) with_events_frame(1) with_events_frame(6)
    by (metis complete_stmt_def fst_conv, metis complete_stmt_def snd_conv)
  from assms(2) obtain r0 where r0: "r0 \<in> set (tasks d)" "complete_guard cs r0" "r = complete_upd env cs r0"
    by (auto simp: out set_returning)
  then obtain c where c: "outcome_for cs r0 = Some c" by (auto simp: complete_guard_def split: option.splits)
  have tid: "t_id r = t_id r0" using r0(3) by (simp add: complete_tr.upd_id)
  have "t_token s \<noteq> Some (c_token c)" if s: "s \<in> set (tasks d')" "t_id s = c_id c" for s
  proof -
    from s(1) obtain s0 where s0: "s0 \<in> set (tasks d)"
      "(complete_guard cs s0 \<and> s = complete_upd env cs s0) \<or> (\<not> complete_guard cs s0 \<and> s = s0)"
      by (auto simp: d' set_update_where)
    then have "t_id s0 = t_id r0"
      using s(2) outcome_for_SomeD [OF c] complete_tr.upd_id by auto
    then have "s0 = r0" using key_unique [OF db_inv_ids [OF assms(3)] s0(1) r0(1)] by simp
    then show ?thesis using s0(2) r0(2) c by (auto simp: complete_upd_def complete_row_def)
  qed
  then show ?thesis using outcome_for_SomeD [OF c] tid by (auto simp: stale_def)
qed

section \<open>Backoff\<close>

lemma backoff_until_bounds:
  assumes "backoff_ok (t_backoff r)" "0 \<le> rnd env (t_id r)" "rnd env (t_id r) \<le> 1"
  shows "tx_now env + min (b_cap (t_backoff r)) (b_base (t_backoff r)) / 2 \<le> backoff_until env r"
    and "backoff_until env r \<le> tx_now env + b_cap (t_backoff r)"
proof -
  let ?f = "b_factor (t_backoff r) ^ nat (min (t_failures r) 64)"
  let ?m = "min (b_cap (t_backoff r)) (b_base (t_backoff r) * ?f)"
  let ?j = "1 / 2 + 1 / 2 * rnd env (t_id r)"
  have f: "1 \<le> ?f" using assms(1) by (simp add: backoff_ok_def one_le_power)
  have b: "0 \<le> b_base (t_backoff r)" "b_base (t_backoff r) \<le> b_cap (t_backoff r)"
    using assms(1) by (simp_all add: backoff_ok_def)
  have "b_base (t_backoff r) \<le> b_base (t_backoff r) * ?f" using b(1) f by (simp add: mult_le_cancel_left1)
  then have m: "min (b_cap (t_backoff r)) (b_base (t_backoff r)) \<le> ?m" "0 \<le> ?m" using b by auto
  have "?m * (1 / 2) \<le> ?m * ?j" using m(2) assms(2) by (intro mult_left_mono) auto
  moreover have "min (b_cap (t_backoff r)) (b_base (t_backoff r)) / 2 \<le> ?m * (1 / 2)"
    using m(1) unfolding mult.right_neutral times_divide_eq_right by (rule divide_right_mono) simp
  ultimately have "min (b_cap (t_backoff r)) (b_base (t_backoff r)) / 2 \<le> ?m * ?j" by (rule order_trans [rotated])
  then show "tx_now env + min (b_cap (t_backoff r)) (b_base (t_backoff r)) / 2 \<le> backoff_until env r"
    unfolding backoff_until_def by (rule add_left_mono)
  have "?m * ?j \<le> ?m * 1" using m(2) assms(3) by (intro mult_left_mono) auto
  then show "backoff_until env r \<le> tx_now env + b_cap (t_backoff r)"
    by (simp add: backoff_until_def)
qed

section \<open>The reaper\<close>

lemma reap_clears:
  assumes "db_inv d" "length (filter (lease_expired (tx_now env)) (tasks d)) \<le> limit" "\<forall>i. \<not> busy i"
    "r \<in> set (tasks (fst (store_reap env limit busy d)))"
  shows "\<not> lease_expired (tx_now env) r"
proof -
  let ?ex = "filter (\<lambda>r. lease_expired (tx_now env) r \<and> \<not> busy (t_id r)) (tasks d)"
  have len: "length ?ex \<le> limit" using assms(2,3) by simp
  have all: "t_id x \<in> set (expired_ids env limit busy (tasks d))"
    if "x \<in> set (tasks d)" "lease_expired (tx_now env) x" for x
    using that assms(3) len by (simp add: expired_ids_def order_limit_def)
  have "tasks (fst (store_reap env limit busy d))
      = update_where (reap_guard (expired_ids env limit busy (tasks d))) (reap_upd env) (tasks d)"
    by (simp add: store_reap_def Let_def case_prod_beta)
  then show ?thesis
    using assms(4) all by (auto simp: set_update_where reap_guard_def lease_expired_def reap_upd_def split: if_splits)
qed

lemma reap_takes:
  assumes "db_inv d" "length (filter (lease_expired (tx_now env)) (tasks d)) \<le> limit" "\<forall>i. \<not> busy i"
    "r \<in> set (tasks d)" "lease_expired (tx_now env) r"
  shows "reap_upd env r \<in> set (tasks (fst (store_reap env limit busy d)))"
proof -
  have "length (filter (\<lambda>r. lease_expired (tx_now env) r \<and> \<not> busy (t_id r)) (tasks d)) \<le> limit"
    using assms(2,3) by simp
  then have "t_id r \<in> set (expired_ids env limit busy (tasks d))"
    using assms(3-5) by (simp add: expired_ids_def order_limit_def)
  then have "reap_guard (expired_ids env limit busy (tasks d)) r"
    using assms(5) by (simp add: reap_guard_def lease_expired_def)
  then show ?thesis
    using assms(4) by (auto simp: store_reap_def Let_def case_prod_beta set_update_where)
qed

lemma reap_outcome:
  assumes "db_inv d" "r \<in> set (tasks d)" "lease_expired (tx_now env) r"
  shows "t_state (reap_upd env r) = (if t_cancel_at r \<noteq> None then Cancelled
     else if t_failures r + 1 < t_max_attempts r then Queued else Failed)"
    "t_failures (reap_upd env r) \<le> t_max_attempts r"
  using db_inv_row [OF assms(1,2)] assms(3)
  by (auto simp: reap_upd_def row_inv_def lease_expired_def)

section \<open>The deduplicating insert\<close>

lemma enqueue_insert_None:
  "enqueue_insert env nt d = (d1, None) \<Longrightarrow> tasks d1 = tasks d
    \<and> (\<exists>i. find_active_by_key d1 (n_type nt) (n_key nt) = Some i)"
  using find_row_None_iff [of "active_with_key (n_type nt) (n_key nt)" "tasks d"]
  by (cases "find_row (active_with_key (n_type nt) (n_key nt)) (tasks d)")
    (auto simp: enqueue_insert_def Let_def find_active_by_key_def split: if_splits)

lemma find_active_unique:
  assumes "db_inv d" "r \<in> set (tasks d)" "active_with_key ty key r"
  shows "find_active_by_key d ty key = Some (t_id r)"
proof (cases "find_row (active_with_key ty key) (tasks d)")
  case None
  then show ?thesis using assms(2,3) by (auto simp: find_row_None_iff)
next
  case (Some s)
  then have s: "s \<in> set (tasks d)" "active_with_key ty key s" by (auto dest: find_row_SomeD)
  have "active_keys_unique (tasks d)" using assms(1) by (simp add: db_inv_def tasks_inv_def)
  then have "t_id s = t_id r"
    using s assms(2,3) unfolding active_keys_unique_def active_with_key_def active_def by metis
  with Some show ?thesis by (simp add: find_active_by_key_def)
qed

text \<open>The loop ends as soon as the clock passes the deadline, whatever other sessions do.\<close>

lemma enqueue_loop_ends:
  assumes "ticks (k + n) > deadline" "n < fuel"
  shows "enqueue_loop fuel env others ticks deadline in_tx nt k d \<noteq> None"
  using assms
proof (induction fuel arbitrary: k n d)
  case (Suc fuel)
  have step: "enqueue_loop fuel env others ticks deadline in_tx nt (Suc k) d' \<noteq> None"
    if "\<not> deadline < ticks k" for d'
  proof (cases n)
    case 0
    then show ?thesis using that Suc.prems by simp
  next
    case (Suc m)
    then show ?thesis using Suc.IH [of "Suc k" m] Suc.prems by simp
  qed
  show ?case
    using step by (auto simp: Let_def split: prod.split option.split)
qed simp

lemma enqueue_loop_errors:
  "enqueue_loop fuel env others ticks deadline in_tx nt k d = Some (Inl e) \<Longrightarrow> e = TimeoutError"
  by (induction fuel arbitrary: k d) (auto simp: Let_def split: prod.splits option.splits if_splits)

lemma enqueue_alone:
  assumes "check_new_task nt = Inr ()" "others 0 = id"
  shows "\<exists>d' i notes. store_enqueue (Suc fuel) env others ticks start dl in_tx nt d = Some (Inr (d', i, notes))
    \<and> (if \<exists>r \<in> set (tasks d). active_with_key (n_type nt) (n_key nt) r
       then tasks d' = tasks d \<and> find_active_by_key d (n_type nt) (n_key nt) = Some i \<and> notes = []
       else i = next_id d \<and> tasks d' = tasks d @ [new_row (env 0) nt i] \<and> notes = enqueue_notices in_tx (n_type nt))"
proof (cases "\<exists>r \<in> set (tasks d). active_with_key (n_type nt) (n_key nt) r")
  case True
  then obtain d1 where ins: "enqueue_insert (env 0) nt d = (d1, None)" by (simp add: enqueue_insert_def Let_def)
  from enqueue_insert_None [OF this] obtain i where
    i: "tasks d1 = tasks d" "find_active_by_key d1 (n_type nt) (n_key nt) = Some i" by blast
  then have "find_active_by_key d (n_type nt) (n_key nt) = Some i" by (simp add: find_active_by_key_def)
  with True ins i assms show ?thesis by (simp add: store_enqueue_def Let_def)
next
  case False
  then show ?thesis using assms by (auto simp: store_enqueue_def enqueue_insert_def Let_def)
qed

end
