(* ===== verification/Batcher.thy ===== *)
theory Batcher
  imports Outcomes
begin

text \<open>
  \<open>_Completions\<close> of \<open>worker.py\<close>: controllers submit outcomes and wait on futures; one task
  takes a batch from the front of the queue, writes it and delivers the results. The machine
  below has a step per suspension point of that task, so submissions and cancelled controllers
  interleave with a write in flight in every possible way.
\<close>

section \<open>The machine\<close>

datatype fut_result = FResult "task_state option" | FError exn | FCancelled

record batcher =
  bt_pending :: "(completion \<times> nat) list"
  bt_batch :: "(completion \<times> nat) list"
  bt_writing :: bool
  bt_results :: "(nat \<times> fut_result) list"

definition new_batcher :: batcher where
  "new_batcher = \<lparr>bt_pending = [], bt_batch = [], bt_writing = False, bt_results = []\<rparr>"

text \<open>The prefix one batch takes: at most 256 outcomes, and never two of one task.\<close>

fun take_batch :: "nat \<Rightarrow> int list \<Rightarrow> (completion \<times> nat) list
     \<Rightarrow> (completion \<times> nat) list \<times> (completion \<times> nat) list" where
  "take_batch n ids [] = ([], [])"
| "take_batch n ids (e # es) =
     (if n = 0 \<or> c_id (fst e) \<in> set ids then ([], e # es)
      else (case take_batch (n - 1) (c_id (fst e) # ids) es of (b, rest) \<Rightarrow> (e # b, rest)))"

definition fut_done :: "batcher \<Rightarrow> nat \<Rightarrow> bool" where
  "fut_done b f \<longleftrightarrow> f \<in> fst ` set (bt_results b)"

text \<open>The futures of these entries that are not done yet get their result.\<close>

definition deliver :: "(completion \<times> nat \<Rightarrow> fut_result) \<Rightarrow> (completion \<times> nat) list \<Rightarrow> batcher \<Rightarrow> batcher" where
  "deliver r es b = b\<lparr>bt_results := bt_results b
     @ map (\<lambda>e. (snd e, r e)) (filter (\<lambda>e. \<not> fut_done b (snd e)) es)\<rparr>"

definition active_entries :: "batcher \<Rightarrow> completion list" where
  "active_entries b = map fst (filter (\<lambda>e. (snd e, FCancelled) \<notin> set (bt_results b)) (bt_batch b))"

definition applied_to :: "(int \<times> task_state) list \<Rightarrow> completion \<times> nat \<Rightarrow> fut_result" where
  "applied_to applied e = FResult (map_of applied (c_id (fst e)))"

datatype b_event =
    Submit completion nat
  | ControllerCancelled nat
  | Take
  | Wrote "(int \<times> task_state) list"
  | WriteFailed exn
  | Closed

text \<open>
  \<open>close\<close> cancels the writing task at its only suspension point, the write; a task that has ended, or
  was created and has not begun, leaves the queue as it is.
\<close>

fun batcher_step :: "b_event \<Rightarrow> batcher \<Rightarrow> batcher option" where
  "batcher_step (Submit c f) b =
     (if f \<in> snd ` set (bt_pending b @ bt_batch b) \<or> fut_done b f then None
      else Some (b\<lparr>bt_pending := bt_pending b @ [(c, f)]\<rparr>))"
| "batcher_step (ControllerCancelled f) b =
     (if f \<in> snd ` set (bt_pending b @ bt_batch b) \<and> \<not> fut_done b f
      then Some (b\<lparr>bt_results := bt_results b @ [(f, FCancelled)]\<rparr>) else None)"
| "batcher_step Take b =
     (if bt_writing b \<or> bt_pending b = [] then None
      else (case take_batch 256 [] (bt_pending b) of
        (batch, rest) \<Rightarrow> Some (b\<lparr>bt_pending := rest, bt_batch := batch, bt_writing := True\<rparr>)))"
| "batcher_step (Wrote applied) b =
     (if bt_writing b
      then Some ((deliver (applied_to (if active_entries b = [] then [] else applied)) (bt_batch b) b)
                   \<lparr>bt_batch := [], bt_writing := False\<rparr>)
      else None)"
| "batcher_step (WriteFailed e) b =
     (if bt_writing b
      then Some ((deliver (\<lambda>_. FError e) (bt_batch b @ bt_pending b) b)
                   \<lparr>bt_batch := [], bt_pending := [], bt_writing := False\<rparr>)
      else None)"
| "batcher_step Closed b =
     (if bt_writing b
      then Some ((deliver (\<lambda>_. FCancelled) (bt_batch b @ bt_pending b) b)
                   \<lparr>bt_batch := [], bt_pending := [], bt_writing := False\<rparr>)
      else Some b)"

inductive batcher_reach :: "nat list \<Rightarrow> batcher \<Rightarrow> bool" where
  b_start: "batcher_reach [] new_batcher"
| b_submit: "batcher_reach fs b \<Longrightarrow> batcher_step (Submit c f) b = Some b' \<Longrightarrow> batcher_reach (fs @ [f]) b'"
| b_other: "batcher_reach fs b \<Longrightarrow> (\<And>c f. e \<noteq> Submit c f) \<Longrightarrow> batcher_step e b = Some b'
    \<Longrightarrow> batcher_reach fs b'"

section \<open>What a batch is\<close>

lemma take_batch_append: "take_batch n ids es = (b, rest) \<Longrightarrow> es = b @ rest"
  by (induction n ids es arbitrary: b rest rule: take_batch.induct) (auto split: if_splits prod.splits)

lemma take_batch_ids:
  "take_batch n ids es = (b, rest) \<Longrightarrow> length b \<le> n \<and> distinct (map (\<lambda>e. c_id (fst e)) b)
    \<and> (\<forall>e \<in> set b. c_id (fst e) \<notin> set ids)"
proof (induction n ids es arbitrary: b rest rule: take_batch.induct)
  case (2 n ids e es)
  show ?case
  proof (cases "n = 0 \<or> c_id (fst e) \<in> set ids")
    case True
    then show ?thesis using "2.prems" by (auto simp del: split_paired_All)
  next
    case False
    obtain b' rest' where b': "take_batch (n - 1) (c_id (fst e) # ids) es = (b', rest')" by fastforce
    then have b: "b = e # b'" using "2.prems" False by simp
    from "2.IH" [OF False b'] False b show ?thesis by auto
  qed
qed simp

lemma take_batch_progress: "es \<noteq> [] \<Longrightarrow> n > 0 \<Longrightarrow> take_batch n [] es = (b, rest) \<Longrightarrow> b \<noteq> []"
  by (cases es) (auto split: prod.splits)

text \<open>
  Every submitted future is done or queued, an undelivered entry has no result yet unless its
  controller was cancelled, and a batch is one the store accepts.
\<close>

definition waiting :: "batcher \<Rightarrow> (completion \<times> nat) list" where
  "waiting b = bt_batch b @ bt_pending b"

definition batcher_inv :: "nat list \<Rightarrow> batcher \<Rightarrow> bool" where
  "batcher_inv fs b \<longleftrightarrow> distinct (map fst (bt_results b)) \<and> distinct (map snd (waiting b))
     \<and> set fs = fst ` set (bt_results b) \<union> snd ` set (waiting b)
     \<and> (\<forall>p \<in> set (bt_results b). fst p \<in> snd ` set (waiting b) \<longrightarrow> snd p = FCancelled)
     \<and> length (bt_batch b) \<le> 256 \<and> distinct (map (\<lambda>e. c_id (fst e)) (bt_batch b))
     \<and> (bt_batch b \<noteq> [] \<longrightarrow> bt_writing b)"

lemma batcher_inv_new: "batcher_inv [] new_batcher"
  by (simp add: batcher_inv_def new_batcher_def waiting_def)

definition delivered :: "(completion \<times> nat \<Rightarrow> fut_result) \<Rightarrow> (completion \<times> nat) list \<Rightarrow> batcher \<Rightarrow> (nat \<times> fut_result) list" where
  "delivered r es b = map (\<lambda>e. (snd e, r e)) (filter (\<lambda>e. \<not> fut_done b (snd e)) es)"

lemma fst_delivered: "map fst (delivered r es b) = map snd (filter (\<lambda>e. \<not> fut_done b (snd e)) es)"
  by (simp add: delivered_def comp_def)

text \<open>Delivering to a part of the waiting entries completes exactly those.\<close>

lemma batcher_inv_deliver:
  assumes inv: "batcher_inv fs b" and split: "waiting b = es @ keep" "bt_pending b' = keep"
    and b': "bt_results b' = bt_results b @ delivered r es b" "bt_batch b' = []"
  shows "batcher_inv fs b'"
proof -
  have dist: "distinct (map snd es)" "snd ` set es \<inter> snd ` set keep = {}"
    using inv split(1) by (auto simp: batcher_inv_def)
  have w: "waiting b' = keep" using b'(2) split(2) by (simp add: waiting_def)
  have "fst ` set (delivered r es b) = set (map snd (filter (\<lambda>e. \<not> fut_done b (snd e)) es))"
    by (metis fst_delivered list.set_map)
  then have new: "fst ` set (delivered r es b) = {f \<in> snd ` set es. \<not> fut_done b f}" by force
  have "distinct (map fst (bt_results b'))"
    unfolding b'(1) map_append distinct_append
  proof (intro conjI)
    show "distinct (map fst (bt_results b))" using inv by (simp add: batcher_inv_def)
    show "distinct (map fst (delivered r es b))"
      unfolding fst_delivered using dist(1) by (rule distinct_map_filter_key)
    show "set (map fst (bt_results b)) \<inter> set (map fst (delivered r es b)) = {}"
      unfolding set_map new by (auto simp: fut_done_def)
  qed
  moreover have "set fs = fst ` set (bt_results b') \<union> snd ` set (waiting b')"
  proof -
    have "fst ` set (bt_results b') = fst ` set (bt_results b) \<union> snd ` set es"
      unfolding b'(1) set_append image_Un new by (auto simp: fut_done_def)
    then show ?thesis using inv split(1) w by (auto simp: batcher_inv_def)
  qed
  moreover have "\<forall>p \<in> set (bt_results b'). fst p \<in> snd ` set (waiting b') \<longrightarrow> snd p = FCancelled"
  proof (intro ballI impI)
    fix p assume p: "p \<in> set (bt_results b')" "fst p \<in> snd ` set (waiting b')"
    have "p \<notin> set (delivered r es b)"
      using p(2) new dist(2) w by (metis (no_types, lifting) IntI emptyE imageI mem_Collect_eq)
    then have "p \<in> set (bt_results b)" using p(1) b'(1) by auto
    then show "snd p = FCancelled" using p(2) inv split(1) w by (auto simp: batcher_inv_def)
  qed
  ultimately show ?thesis using inv dist b'(2) w split(1) by (simp add: batcher_inv_def)
qed

lemma deliver_results: "bt_results (deliver r es b) = bt_results b @ delivered r es b"
  by (simp add: deliver_def delivered_def)

lemma deliver_frame [simp]:
  "bt_pending (deliver r es b) = bt_pending b" "bt_batch (deliver r es b) = bt_batch b"
  "bt_writing (deliver r es b) = bt_writing b"
  by (simp_all add: deliver_def)

fun submitted :: "b_event \<Rightarrow> nat list" where
  "submitted (Submit c f) = [f]"
| "submitted e = []"

lemma batcher_inv_step:
  assumes inv: "batcher_inv fs b" and step: "batcher_step e b = Some b'"
  shows "batcher_inv (fs @ submitted e) b'"
proof (cases e)
  case (Submit c f)
  then have f: "f \<notin> snd ` set (waiting b)" "\<not> fut_done b f" and b': "b' = b\<lparr>bt_pending := bt_pending b @ [(c, f)]\<rparr>"
    using step by (auto simp: waiting_def split: if_splits)
  have w: "waiting b' = waiting b @ [(c, f)]" by (simp add: b' waiting_def)
  show ?thesis
    using inv f unfolding batcher_inv_def w by (auto simp: Submit b' fut_done_def)
next
  case (ControllerCancelled f)
  then have f: "f \<in> snd ` set (waiting b)" "\<not> fut_done b f" and b': "b' = b\<lparr>bt_results := bt_results b @ [(f, FCancelled)]\<rparr>"
    using step by (auto simp: waiting_def split: if_splits)
  have w: "waiting b' = waiting b" by (simp add: b' waiting_def)
  show ?thesis
    using inv f unfolding batcher_inv_def w by (auto simp: ControllerCancelled b' fut_done_def)
next
  case Take
  obtain bt rest where tb: "take_batch 256 [] (bt_pending b) = (bt, rest)" by fastforce
  then have b': "b' = b\<lparr>bt_pending := rest, bt_batch := bt, bt_writing := True\<rparr>" and nw: "\<not> bt_writing b"
    using step Take by (auto split: if_splits)
  then have "bt_batch b = []" using inv by (auto simp: batcher_inv_def)
  then have "waiting b' = waiting b" using take_batch_append [OF tb] by (simp add: b' waiting_def)
  then show ?thesis
    using inv take_batch_ids [OF tb] by (simp add: batcher_inv_def Take b')
next
  case (Wrote applied)
  then have "b' = (deliver (applied_to (if active_entries b = [] then [] else applied)) (bt_batch b) b)
      \<lparr>bt_batch := [], bt_writing := False\<rparr>" using step by (simp split: if_splits)
  then show ?thesis
    using batcher_inv_deliver [OF inv, of "bt_batch b" "bt_pending b" b'] Wrote
    by (simp add: waiting_def deliver_results)
next
  case (WriteFailed x)
  then have "b' = (deliver (\<lambda>_. FError x) (bt_batch b @ bt_pending b) b)
      \<lparr>bt_batch := [], bt_pending := [], bt_writing := False\<rparr>" using step by (simp split: if_splits)
  then show ?thesis
    using batcher_inv_deliver [OF inv, of "bt_batch b @ bt_pending b" "[]" b'] WriteFailed
    by (simp add: waiting_def deliver_results)
next
  case Closed
  show ?thesis
  proof (cases "bt_writing b")
    case True
    then have "b' = (deliver (\<lambda>_. FCancelled) (bt_batch b @ bt_pending b) b)
        \<lparr>bt_batch := [], bt_pending := [], bt_writing := False\<rparr>" using step Closed by simp
    then show ?thesis
      using batcher_inv_deliver [OF inv, of "bt_batch b @ bt_pending b" "[]" b'] Closed
      by (simp add: waiting_def deliver_results)
  qed (use step Closed inv in simp)
qed

lemma batcher_inv_reach: "batcher_reach fs b \<Longrightarrow> batcher_inv fs b"
proof (induction rule: batcher_reach.induct)
  case b_start
  then show ?case by (rule batcher_inv_new)
next
  case (b_submit fs b c f b')
  from batcher_inv_step [OF b_submit.IH b_submit.hyps(2)] show ?case by simp
next
  case (b_other fs b e b')
  have "submitted e = []" using b_other.hyps(2) by (cases e) auto
  with batcher_inv_step [OF b_other.IH b_other.hyps(3)] show ?case by simp
qed

section \<open>The writer's contract\<close>

text \<open>
  What the batcher needs from the function it writes with: a bounded batch of distinct tasks is
  accepted, and the answer speaks only of tasks in the batch.
\<close>

locale outcome_writer =
  fixes put :: "completion list \<Rightarrow> 'd \<Rightarrow> exn + ('d \<times> (int \<times> task_state) list)"
  assumes accepts: "length cs \<le> 256 \<Longrightarrow> distinct (map c_id cs) \<Longrightarrow> \<exists>d' out. put cs d = Inr (d', out)"
    and answers: "put cs d = Inr (d', out) \<Longrightarrow> fst ` set out \<subseteq> c_id ` set cs"
begin

lemma batch_accepted:
  assumes "batcher_inv fs b"
  shows "\<exists>d' out. put (active_entries b) d = Inr (d', out)"
proof (rule accepts)
  let ?P = "\<lambda>e. (snd e, FCancelled) \<notin> set (bt_results b)"
  have "length (filter ?P (bt_batch b)) \<le> length (bt_batch b)" by (rule length_filter_le)
  also have "\<dots> \<le> 256" using assms by (simp add: batcher_inv_def)
  finally show "length (active_entries b) \<le> 256" by (simp add: active_entries_def)
  have "distinct (map (\<lambda>e. c_id (fst e)) (filter ?P (bt_batch b)))"
    using assms by (intro distinct_map_filter_key) (simp add: batcher_inv_def)
  then show "distinct (map c_id (active_entries b))" by (simp add: active_entries_def comp_def)
qed

text \<open>A task the answer does not name is reported as a lost token, never as another's state.\<close>

lemma unanswered:
  assumes "put (active_entries b) d = Inr (d', out)" "c_id (fst e) \<notin> c_id ` set (active_entries b)"
  shows "applied_to out e = FResult None"
proof -
  have "c_id (fst e) \<notin> fst ` set out" using answers [OF assms(1)] assms(2) by auto
  then show ?thesis by (simp add: applied_to_def map_of_eq_None_iff)
qed

end

interpretation store_writer: outcome_writer "store_complete env" for env
proof
  fix cs d
  show "\<exists>d' out. store_complete env cs d = Inr (d', out)"
    if "length cs \<le> 256" "distinct (map c_id cs)"
    using that by (simp add: store_complete_def Let_def case_prod_beta)
next
  fix cs d d' out
  assume "store_complete env cs d = Inr (d', out)"
  then have "out = [] \<or> out = map (\<lambda>r. (t_id r, t_state r)) (returning (complete_guard cs) (complete_upd env cs) (tasks d))"
    by (auto simp: store_complete_def complete_stmt_def with_events_def Let_def case_prod_beta split: if_splits)
  moreover have "t_id (complete_upd env cs r) \<in> c_id ` set cs" if g: "complete_guard cs r" for r
  proof -
    obtain c where "outcome_for cs r = Some c"
      using g by (cases "outcome_for cs r") (auto simp: complete_guard_def)
    from outcome_for_SomeD [OF this] show ?thesis by (metis complete_tr.upd_id imageI)
  qed
  ultimately show "fst ` set out \<subseteq> c_id ` set cs" by (auto simp: set_returning)
qed

section \<open>A batch is its outcomes one by one\<close>

lemma outcome_for_Cons:
  "outcome_for (c # cs) r = (if c_id c = t_id r \<and> t_token r = Some (c_token c) then Some c else outcome_for cs r)"
  by (simp add: outcome_for_def)

lemma outcome_for_other: "t_id r \<notin> c_id ` set cs \<Longrightarrow> outcome_for cs r = None"
  unfolding outcome_for_def find_row_None_iff by (metis imageI)

definition completed :: "pg \<Rightarrow> completion list \<Rightarrow> task_row \<Rightarrow> task_row" where
  "completed env cs r = (if complete_guard cs r then complete_upd env cs r else r)"

lemma completed_Cons:
  assumes "c_id c \<notin> c_id ` set cs"
  shows "completed env (c # cs) r = completed env cs (completed env [c] r)"
proof (cases "c_id c = t_id r")
  case True
  have id: "t_id (completed env [c] r) = t_id r" by (simp add: completed_def complete_tr.upd_id)
  then have "outcome_for cs (completed env [c] r) = None" "outcome_for cs r = None"
    using assms True by (simp_all add: outcome_for_other)
  moreover have "outcome_for (c # cs) r = outcome_for [c] r"
    using calculation(2) by (simp add: outcome_for_Cons outcome_for_def)
  ultimately show ?thesis by (simp add: completed_def complete_guard_def complete_upd_def)
next
  case False
  then have none: "outcome_for [c] r = None" "outcome_for (c # cs) r = outcome_for cs r"
    by (simp_all add: outcome_for_Cons outcome_for_def)
  then have "completed env [c] r = r" by (simp add: completed_def complete_guard_def)
  then show ?thesis using none by (simp add: completed_def complete_guard_def complete_upd_def)
qed

lemma tasks_store_complete:
  assumes "length cs \<le> 256" "distinct (map c_id cs)"
  shows "tasks (ok_db (store_complete env cs d) d) = map (completed env cs) (tasks d)"
proof (cases "cs = []")
  case True
  have "completed env [] r = r" for r by (simp add: completed_def complete_guard_def outcome_for_def)
  then have "map (completed env []) (tasks d) = tasks d" by (intro map_idI)
  then show ?thesis using True by (simp add: store_complete_def ok_db_def)
next
  case False
  have "completed env cs = (\<lambda>r. if complete_guard cs r then complete_upd env cs r else r)"
    by (rule ext) (simp add: completed_def)
  then show ?thesis using False assms
    by (simp add: store_complete_def ok_db_def complete_stmt_def with_events_def update_where_def Let_def)
qed

fun complete_singly :: "pg \<Rightarrow> completion list \<Rightarrow> db \<Rightarrow> db" where
  "complete_singly env [] d = d"
| "complete_singly env (c # cs) d = complete_singly env cs (ok_db (store_complete env [c] d) d)"

lemma batch_is_singles:
  assumes "length cs \<le> 256" "distinct (map c_id cs)"
  shows "tasks (ok_db (store_complete env cs d) d) = tasks (complete_singly env cs d)"
proof -
  have "tasks (complete_singly env cs d) = map (completed env cs) (tasks d)"
    using assms(2)
  proof (induction cs arbitrary: d)
    case Nil
    have "completed env [] r = r" for r by (simp add: completed_def complete_guard_def outcome_for_def)
    then show ?case by (simp add: map_idI)
  next
    case (Cons c cs)
    let ?d = "ok_db (store_complete env [c] d) d"
    have "completed env (c # cs) = completed env cs \<circ> completed env [c]"
    proof
      fix r
      have "c_id c \<notin> c_id ` set cs" using Cons.prems by simp
      then show "completed env (c # cs) r = (completed env cs \<circ> completed env [c]) r"
        unfolding comp_apply by (rule completed_Cons)
    qed
    moreover have "tasks ?d = map (completed env [c]) (tasks d)" by (rule tasks_store_complete) simp_all
    moreover have "tasks (complete_singly env cs ?d) = map (completed env cs) (tasks ?d)"
      by (rule Cons.IH) (use Cons.prems in simp)
    ultimately show ?case by (simp only: complete_singly.simps map_map)
  qed
  then show ?thesis by (simp add: tasks_store_complete [OF assms])
qed

end
