(* ===== verification/Supervise.thy ===== *)
theory Supervise
  imports Renewal Batcher
begin

text \<open>
  The worker around its attempts (\<open>worker.py\<close>): fenced writes and their retries, and the pace of
  the claim loop. The loop that repeats until the database answers runs on fuel.
\<close>

section \<open>Fenced writes\<close>

definition TRANSITION_RETRY_S :: rat where "TRANSITION_RETRY_S = 1"
definition TRANSITION_RETRY_MAX_S :: rat where "TRANSITION_RETRY_MAX_S = 10"

datatype 'a op_result = Answer 'a | ConnectionLost | FailedForGood

text \<open>The value and the delays slept; \<open>abort k\<close> is the event as the \<open>k\<close>-th check reads it.\<close>

fun fenced_loop :: "nat \<Rightarrow> (nat \<Rightarrow> bool) \<Rightarrow> (nat \<Rightarrow> 'a op_result) \<Rightarrow> nat \<Rightarrow> rat \<Rightarrow> ('a option \<times> rat list) option" where
  "fenced_loop 0 abort op k delay = None"
| "fenced_loop (Suc fuel) abort op k delay =
     (if abort k then Some (None, [])
      else (case op k of
          Answer x \<Rightarrow> Some (Some x, [])
        | FailedForGood \<Rightarrow> Some (None, [])
        | ConnectionLost \<Rightarrow>
            map_option (\<lambda>(x, ds). (x, delay # ds))
              (fenced_loop fuel abort op (Suc k) (min (delay * 2) TRANSITION_RETRY_MAX_S))))"

definition fenced_write :: "nat \<Rightarrow> (nat \<Rightarrow> bool) \<Rightarrow> (nat \<Rightarrow> 'a op_result) \<Rightarrow> ('a option \<times> rat list) option" where
  "fenced_write fuel abort op = fenced_loop fuel abort op 0 TRANSITION_RETRY_S"

text \<open>
  The same loop around \<open>store.complete\<close>, with the database: a connection can be lost before the
  statement commits or after, and the worker cannot tell. Before each try reaches the tables, other
  sessions commit the statements listed with it (a lost statement that commits late is one of them).
\<close>

datatype reply = Answered | LostBefore | LostAfter

fun retry_complete :: "(nat \<Rightarrow> pg) \<Rightarrow> completion list \<Rightarrow> (reply \<times> (pg \<times> statement) list) list \<Rightarrow> nat \<Rightarrow> db
     \<Rightarrow> (db \<times> (int \<times> task_state) list) option" where
  "retry_complete env cs [] k d = None"
| "retry_complete env cs ((Answered, ss) # ts) k d =
     (case store_complete (env k) cs (run_all ss d) of Inl _ \<Rightarrow> None | Inr r \<Rightarrow> Some r)"
| "retry_complete env cs ((LostBefore, ss) # ts) k d = retry_complete env cs ts (Suc k) (run_all ss d)"
| "retry_complete env cs ((LostAfter, ss) # ts) k d =
     retry_complete env cs ts (Suc k) (ok_db (store_complete (env k) cs (run_all ss d)) (run_all ss d))"

text \<open>
  The same loop with the tables. A try is answered, or loses its connection while its statement
  number \<open>n\<close> runs (which commits or not), or is refused there for good; \<open>full\<close> is what an answered try
  does, \<open>part\<close> what the others leave behind. No value means that the loop was left without an answer.
\<close>

datatype op_try = TryAnswered | TryLost nat bool | TryRefused nat

fun fenced_db :: "nat \<Rightarrow> (nat \<Rightarrow> bool) \<Rightarrow> (nat \<Rightarrow> op_try) \<Rightarrow> (nat \<Rightarrow> db \<Rightarrow> (db \<times> 'a) option)
     \<Rightarrow> (nat \<Rightarrow> nat \<Rightarrow> bool \<Rightarrow> db \<Rightarrow> db) \<Rightarrow> nat \<Rightarrow> db \<Rightarrow> (db \<times> 'a option) option" where
  "fenced_db 0 abort tries full part k d = None"
| "fenced_db (Suc fuel) abort tries full part k d =
     (if abort k then Some (d, None)
      else (case tries k of
          TryAnswered \<Rightarrow> map_option (\<lambda>(d', x). (d', Some x)) (full k d)
        | TryRefused n \<Rightarrow> Some (part k n False d, None)
        | TryLost n committed \<Rightarrow> fenced_db fuel abort tries full part (Suc k) (part k n committed d)))"

text \<open>Without the tables it is \<open>fenced_loop\<close>.\<close>

lemma fenced_db_answers:
  assumes "fenced_db fuel abort tries full part k d = Some (d', x)"
  shows "\<exists>y ds. fenced_loop fuel abort (\<lambda>j. case tries j of TryAnswered \<Rightarrow> Answer () | TryRefused n \<Rightarrow> FailedForGood
      | TryLost n c \<Rightarrow> ConnectionLost) k delay = Some (y, ds) \<and> (y = None \<longleftrightarrow> x = None)"
  using assms by (induction fuel arbitrary: k d delay) (auto split: op_try.split option.splits if_splits)

text \<open>
  A loop that preserves \<open>I\<close> by every try and reaches an answer at try \<open>j\<close> ends; unless it is aborted or
  refused before, it ends with an answered try on tables that satisfy \<open>I\<close>.
\<close>

lemma fenced_db_ends:
  assumes "I d" "\<And>i n c e. I e \<Longrightarrow> I (part i n c e)" "\<And>i e. I e \<Longrightarrow> full i e \<noteq> None"
    "tries (k + j) = TryAnswered" "j < fuel"
  shows "\<exists>d' x. fenced_db fuel abort tries full part k d = Some (d', x)
    \<and> ((\<forall>i. k \<le> i \<and> i \<le> k + j \<longrightarrow> \<not> abort i \<and> (\<forall>n. tries i \<noteq> TryRefused n))
        \<longrightarrow> (\<exists>i e y. I e \<and> full i e = Some (d', y)))"
  using assms(1,4,5)
proof (induction fuel arbitrary: k j d)
  case (Suc fuel)
  show ?case
  proof (cases "abort k")
    case False
    show ?thesis
    proof (cases "tries k")
      case TryAnswered
      obtain d' y where "full k d = Some (d', y)" using assms(3) [OF Suc.prems(1), of k] by auto
      then show ?thesis using False TryAnswered Suc.prems(1) by auto
    next
      case (TryLost n c)
      then obtain i where i: "j = Suc i" using Suc.prems(2) by (cases j) auto
      have "\<exists>d' x. fenced_db fuel abort tries full part (Suc k) (part k n c d) = Some (d', x)
          \<and> ((\<forall>m. Suc k \<le> m \<and> m \<le> Suc k + i \<longrightarrow> \<not> abort m \<and> (\<forall>n. tries m \<noteq> TryRefused n))
              \<longrightarrow> (\<exists>m e y. I e \<and> full m e = Some (d', y)))"
        by (rule Suc.IH) (use assms(2) Suc.prems i in auto)
      then show ?thesis using False TryLost i by auto
    next
      case (TryRefused n)
      then show ?thesis using False by force
    qed
  qed force
qed simp

lemma fenced_db_answered:
  assumes "I d" "\<And>i n c e. I e \<Longrightarrow> I (part i n c e)" "\<And>i e. I e \<Longrightarrow> full i e \<noteq> None" "tries j = TryAnswered" "j < fuel"
  shows "\<exists>d' x. fenced_db fuel abort tries full part 0 d = Some (d', x)
    \<and> ((\<forall>i \<le> j. \<not> abort i \<and> (\<forall>n. tries i \<noteq> TryRefused n)) \<longrightarrow> (\<exists>i e y. I e \<and> full i e = Some (d', y)))"
proof -
  have "tries (0 + j) = TryAnswered" using assms(4) by simp
  from fenced_db_ends [where I = I and part = part and full = full and abort = abort
      and tries = tries and j = j and k = 0, OF assms(1-3) this assms(5)]
  show ?thesis by simp
qed

lemma fenced_delays:
  assumes "fenced_loop fuel abort op k delay = Some (x, ds)" "TRANSITION_RETRY_S \<le> delay" "delay \<le> TRANSITION_RETRY_MAX_S"
  shows "\<forall>t \<in> set ds. TRANSITION_RETRY_S \<le> t \<and> t \<le> TRANSITION_RETRY_MAX_S"
  using assms
proof (induction fuel arbitrary: k delay x ds)
  case (Suc fuel)
  show ?case
  proof (cases "abort k \<or> (\<forall>y. op k \<noteq> ConnectionLost)")
    case True
    then have "ds = []" using Suc.prems(1) by (auto split: op_result.splits if_splits)
    then show ?thesis by simp
  next
    case False
    then obtain ds' where ds: "ds = delay # ds'"
      "fenced_loop fuel abort op (Suc k) (min (delay * 2) TRANSITION_RETRY_MAX_S) = Some (x, ds')"
      using Suc.prems(1) by auto
    have "TRANSITION_RETRY_S \<le> min (delay * 2) TRANSITION_RETRY_MAX_S"
      using Suc.prems(2) by (simp add: TRANSITION_RETRY_S_def TRANSITION_RETRY_MAX_S_def)
    from Suc.IH [OF ds(2) this] Suc.prems(2,3) ds(1) show ?thesis by simp
  qed
qed simp

lemma fenced_ends:
  "abort (k + n) \<or> op (k + n) \<noteq> ConnectionLost \<Longrightarrow> n < fuel \<Longrightarrow> fenced_loop fuel abort op k delay \<noteq> None"
proof (induction fuel arbitrary: k n delay)
  case (Suc fuel)
  show ?case
  proof (cases n)
    case 0
    then show ?thesis using Suc.prems(1) by (auto split: op_result.split)
  next
    case (Suc m)
    with Suc.prems Suc.IH [of "Suc k" m] show ?thesis by (auto split: op_result.split)
  qed
qed simp

lemma fenced_tries:
  "fenced_loop fuel abort op k delay = Some (x, ds) \<Longrightarrow> abort (k + n) \<or> op (k + n) \<noteq> ConnectionLost \<Longrightarrow> length ds \<le> n"
proof (induction fuel arbitrary: k n delay ds)
  case (Suc fuel)
  show ?case
  proof (cases "abort k \<or> op k \<noteq> ConnectionLost")
    case True
    then show ?thesis using Suc.prems(1) by (auto split: op_result.splits if_splits)
  next
    case False
    then obtain m ds' where "n = Suc m" "ds = delay # ds'"
      "fenced_loop fuel abort op (Suc k) (min (delay * 2) TRANSITION_RETRY_MAX_S) = Some (x, ds')"
      using Suc.prems by (cases n) auto
    then show ?thesis using Suc.IH [of "Suc k" _ ds' m] Suc.prems(2) by simp
  qed
qed simp

text \<open>Statements of other sessions: well formed, and no draw repeats a token of the batch.\<close>

definition others_ok :: "completion list \<Rightarrow> (pg \<times> statement) list \<Rightarrow> bool" where
  "others_ok cs ss \<longleftrightarrow> (\<forall>(env, s) \<in> set ss. stmt_ok s \<and> (\<forall>c \<in> set cs. fresh_uuid env (c_id c) \<noteq> c_token c))"

lemma others_ok_append [simp]: "others_ok cs (xs @ ys) \<longleftrightarrow> others_ok cs xs \<and> others_ok cs ys"
  by (auto simp: others_ok_def)

lemma others_keep:
  assumes "others_ok cs ss" "db_inv d"
  shows "db_inv (run_all ss d)" "cancels_flagged cs d \<Longrightarrow> cancels_flagged cs (run_all ss d)"
    "\<forall>c \<in> set cs. stale (c_id c) (c_token c) d \<Longrightarrow> \<forall>c \<in> set cs. stale (c_id c) (c_token c) (run_all ss d)"
proof -
  have ok: "\<forall>(env, s) \<in> set ss. stmt_ok s \<and> fresh_uuid env (c_id c) \<noteq> c_token c" if "c \<in> set cs" for c
    using assms(1) that by (auto simp: others_ok_def)
  show "db_inv (run_all ss d)"
    using assms by (intro run_all_inv) (auto simp: others_ok_def)
  show "cancels_flagged cs d \<Longrightarrow> cancels_flagged cs (run_all ss d)"
    using flagged_run_all [OF assms(2) _ ok] by (simp add: cancels_flagged_def)
  show "\<forall>c \<in> set cs. stale (c_id c) (c_token c) d \<Longrightarrow> \<forall>c \<in> set cs. stale (c_id c) (c_token c) (run_all ss d)"
    using stale_run_all [OF assms(2) _ ok] by simp
qed

text \<open>Once the tokens of the batch are spent, its tries only let the other sessions work.\<close>

lemma retry_complete_spent:
  assumes "retry_complete env cs ts k d = Some (d', out)" "others_ok cs (concat (map snd ts))" "db_inv d"
    "\<forall>c \<in> set cs. stale (c_id c) (c_token c) d" "store_complete env0 cs d0 = Inr z"
  shows "out = [] \<and> (\<forall>c \<in> set cs. stale (c_id c) (c_token c) d')
    \<and> (\<exists>ys zs. concat (map snd ts) = ys @ zs \<and> d' = run_all ys d)"
  using assms(1-4)
proof (induction ts arbitrary: k d)
  case (Cons t ts)
  obtain r ss where t: "t = (r, ss)" by (cases t)
  let ?e = "run_all ss d"
  have ok: "others_ok cs ss" "others_ok cs (concat (map snd ts))" using Cons.prems(2) t by simp_all
  have inv: "db_inv ?e" and st: "\<forall>c \<in> set cs. stale (c_id c) (c_token c) ?e"
    using others_keep(1,3) [OF ok(1) Cons.prems(3)] Cons.prems(4) by simp_all
  have id: "store_complete (env k) cs ?e = Inr (?e, [])" by (rule store_complete_stale [OF st assms(5)])
  show ?case
  proof (cases "r = Answered")
    case True
    then show ?thesis using Cons.prems(1) t id st by auto
  next
    case False
    then have "retry_complete env cs ts (Suc k) ?e = Some (d', out)"
      using Cons.prems(1) t id by (cases r) (simp_all add: ok_db_def)
    from Cons.IH [OF this ok(2) inv st] obtain ys zs where "concat (map snd ts) = ys @ zs" "d' = run_all (ss @ ys) d"
      "out = []" "\<forall>c \<in> set cs. stale (c_id c) (c_token c) d'" by auto
    moreover from this t have "concat (map snd (t # ts)) = (ss @ ys) @ zs" by simp
    ultimately show ?thesis by blast
  qed
qed simp

text \<open>The store rejects a batch by its shape alone, so no try of it answers.\<close>

lemma retry_complete_rejected:
  assumes "store_complete env0 cs d0 = Inl x"
  shows "retry_complete env cs ts k d = None"
proof -
  have bad: "store_complete e cs d = Inl x" for e d
    using assms by (auto simp: store_complete_def Let_def case_prod_beta split: if_splits)
  show ?thesis
  proof (induction ts arbitrary: k d)
    case (Cons t ts)
    then show ?case by (cases t; cases "fst t") (auto simp: bad)
  qed simp
qed

text \<open>Retrying takes effect exactly once, at the first try that reached the database.\<close>

lemma retry_complete_once:
  assumes "retry_complete env cs ts k d = Some (d', out)" "others_ok cs (concat (map snd ts))" "db_inv d"
    "cancels_flagged cs d"
  shows "\<exists>j xs ys zs d1 o1. concat (map snd ts) = xs @ ys @ zs
    \<and> store_complete (env j) cs (run_all xs d) = Inr (d1, o1) \<and> d' = run_all ys d1
    \<and> (out = o1 \<and> ys = [] \<or> out = [])
    \<and> (\<forall>c \<in> set cs. stale (c_id c) (c_token c) d1 \<and> stale (c_id c) (c_token c) d')"
  using assms
proof (induction ts arbitrary: k d)
  case (Cons t ts)
  obtain r ss where t: "t = (r, ss)" by (cases t)
  let ?e = "run_all ss d"
  have ok: "others_ok cs ss" "others_ok cs (concat (map snd ts))" using Cons.prems(2) t by simp_all
  have inv: "db_inv ?e" and fl: "cancels_flagged cs ?e"
    using others_keep(1,2) [OF ok(1) Cons.prems(3)] Cons.prems(4) by simp_all
  show ?case
  proof (cases r)
    case Answered
    then have c: "store_complete (env k) cs ?e = Inr (d', out)"
      using Cons.prems(1) t by (auto split: sum.splits)
    then show ?thesis
      using complete_spends_tokens [OF c inv fl] t
      by (intro exI [of _ k] exI [of _ ss] exI [of _ "[]"] exI [of _ "concat (map snd ts)"]) auto
  next
    case LostBefore
    then have "retry_complete env cs ts (Suc k) ?e = Some (d', out)" using Cons.prems(1) t by simp
    from Cons.IH [OF this ok(2) inv fl] obtain j xs ys zs d1 o1 where
      "concat (map snd ts) = xs @ ys @ zs" "store_complete (env j) cs (run_all (ss @ xs) d) = Inr (d1, o1)"
      "d' = run_all ys d1" "out = o1 \<and> ys = [] \<or> out = []"
      "\<forall>c \<in> set cs. stale (c_id c) (c_token c) d1 \<and> stale (c_id c) (c_token c) d'"
      unfolding run_all_append by blast
    then show ?thesis using t
      by (intro exI [of _ j] exI [of _ "ss @ xs"] exI [of _ ys] exI [of _ zs] exI [of _ d1] exI [of _ o1]) auto
  next
    case LostAfter
    then have rest: "retry_complete env cs ts (Suc k) (ok_db (store_complete (env k) cs ?e) ?e) = Some (d', out)"
      using Cons.prems(1) t by simp
    show ?thesis
    proof (cases "store_complete (env k) cs ?e")
      case (Inl x)
      then show ?thesis using retry_complete_rejected [OF Inl] rest by simp
    next
      case (Inr z)
      then obtain d1 o1 where c: "store_complete (env k) cs ?e = Inr (d1, o1)" by (cases z) auto
      have st: "\<forall>c \<in> set cs. stale (c_id c) (c_token c) d1" using complete_spends_tokens [OF c inv fl] by blast
      have inv1: "db_inv d1" using db_inv_run [OF inv, of "SComplete cs" "env k"] c by (simp add: ok_db_def)
      have "retry_complete env cs ts (Suc k) d1 = Some (d', out)" using rest c by (simp add: ok_db_def)
      from retry_complete_spent [OF this ok(2) inv1 st c] obtain ys zs where
        "out = []" "concat (map snd ts) = ys @ zs" "d' = run_all ys d1"
        "\<forall>c \<in> set cs. stale (c_id c) (c_token c) d'"
        by blast
      then show ?thesis using t c st
        by (intro exI [of _ k] exI [of _ ss] exI [of _ ys] exI [of _ zs] exI [of _ d1] exI [of _ o1]) auto
    qed
  qed
qed simp

text \<open>After a lost acknowledgement the answer is empty although the outcome was applied.\<close>

lemma retry_after_lost_answer:
  assumes "store_complete (env k) cs d = Inr (d1, o1)"
  shows "retry_complete env cs [(LostAfter, []), (Answered, [])] k d = Some (d1, [])"
  using store_complete_twice [OF assms] assms by (simp add: ok_db_def)

section \<open>The pace of the claim loop\<close>

datatype poll_event = Claimed | Woken | TimedOut

definition initial_delay :: "settings \<Rightarrow> rat" where
  "initial_delay s = min (1 / 20) (poll_interval_s s)"

definition poll_timeout :: "settings \<Rightarrow> rat \<Rightarrow> rat \<Rightarrow> rat" where
  "poll_timeout s delay jitter = min (poll_interval_s s) (delay * jitter)"

fun poll_delay :: "settings \<Rightarrow> rat \<Rightarrow> poll_event \<Rightarrow> rat" where
  "poll_delay s delay TimedOut = min (poll_interval_s s) (delay * 2)"
| "poll_delay s delay e = initial_delay s"

lemma poll_delay_bounds:
  assumes "settings_ok s"
  shows "initial_delay s \<le> foldl (poll_delay s) (initial_delay s) es
    \<and> foldl (poll_delay s) (initial_delay s) es \<le> poll_interval_s s"
proof -
  have pos: "0 < poll_interval_s s" using settings_okD(1) [OF assms] by (simp add: field_bounds_def)
  have step: "initial_delay s \<le> poll_delay s x e \<and> poll_delay s x e \<le> poll_interval_s s"
    if "initial_delay s \<le> x" for x e
  proof (cases e)
    case TimedOut
    have "0 < initial_delay s" "initial_delay s \<le> poll_interval_s s"
      using pos by (simp_all add: initial_delay_def)
    moreover have "x \<le> x * 2" using that calculation(1) by simp
    ultimately show ?thesis using TimedOut that by simp
  qed (simp_all add: initial_delay_def)
  have "initial_delay s \<le> foldl (poll_delay s) x es \<and> foldl (poll_delay s) x es \<le> poll_interval_s s"
    if "initial_delay s \<le> x" "x \<le> poll_interval_s s" for x
    using that by (induction es arbitrary: x) (simp_all add: step)
  then show ?thesis by (simp add: initial_delay_def)
qed

section \<open>The size of a claim\<close>

lemma claim_length:
  assumes "db_inv d" "n \<ge> 1"
  shows "int (length (snd (store_claim env lk clk types w l dl n d))) \<le> min n 256"
proof -
  let ?rows = "snd (store_claim env lk clk types w l dl n d)"
  let ?ids = "v_ids (claim_admission env lk clk types dl n d)"
  have "length ?ids = length ?rows" by (rule list_all2_lengthD [OF claim_rows [OF assms]])
  moreover have "length ?ids \<le> nat (min n 256)" by (rule claim_admission_inv(2) [OF assms])
  ultimately show ?thesis using assms(2) by linarith
qed

end
