(* ===== verification/Dispatch.thy ===== *)
theory Dispatch
  imports Supervise Catalog
begin

text \<open>
  The claim loop's effect on the database (\<open>worker.py\<close>): claiming and dispatching, handing back what
  cannot be started, releasing claims whose answer was lost, and the purge loops. The result of a
  turn is the database and the ids of the attempts the worker tracks.
\<close>

section \<open>Releasing orphans\<close>

text \<open>
  \<open>_release_orphans\<close>: repeat the bounded statement until it returns less than a full batch;
  \<open>env k\<close> is what the \<open>k\<close>-th statement reads from the server.
\<close>

fun release_loop :: "nat \<Rightarrow> (nat \<Rightarrow> pg) \<Rightarrow> ustr \<Rightarrow> int list \<Rightarrow> nat \<Rightarrow> db
     \<Rightarrow> (db \<times> (int \<times> ustr \<times> task_state) list) option" where
  "release_loop 0 env w live k d = None"
| "release_loop (Suc fuel) env w live k d =
     (case store_release_orphans (env k) w live d of (d', rows) \<Rightarrow>
        if length rows < 256 then Some (d', rows)
        else map_option (\<lambda>(d2, later). (d2, rows @ later)) (release_loop fuel env w live (Suc k) d'))"

text \<open>What the loop has done when its connection breaks after \<open>n\<close> statements.\<close>

fun release_some :: "(nat \<Rightarrow> pg) \<Rightarrow> ustr \<Rightarrow> int list \<Rightarrow> nat \<Rightarrow> nat \<Rightarrow> db \<Rightarrow> db" where
  "release_some env w live k 0 d = d"
| "release_some env w live k (Suc n) d =
     release_some env w live (Suc k) n (fst (store_release_orphans (env k) w live d))"

definition orphan :: "ustr \<Rightarrow> int list \<Rightarrow> task_row \<Rightarrow> bool" where
  "orphan w live r \<longleftrightarrow> t_worker r = Some w \<and> t_state r = Running \<and> t_id r \<notin> set live"

definition chosen_orphans :: "ustr \<Rightarrow> int list \<Rightarrow> task_row list \<Rightarrow> task_row list" where
  "chosen_orphans w live rows = order_limit t_id 256 (filter (orphan w live) rows)"

lemma orphan_outcomes_chosen:
  assumes "db_inv d"
  shows "orphan_outcomes w live (tasks d)
    = map (\<lambda>r. \<lparr>c_id = t_id r, c_token = the (t_token r), c_kind = Release, c_data = None\<rparr>)
        (chosen_orphans w live (tasks d))"
proof -
  have "t_token r \<noteq> None" if "r \<in> set (chosen_orphans w live (tasks d))" for r
    using that db_inv_row [OF assms, of r] by (auto simp: chosen_orphans_def orphan_def row_inv_def dest!: in_order_limit)
  then have "filter (\<lambda>r. t_token r \<noteq> None) (chosen_orphans w live (tasks d)) = chosen_orphans w live (tasks d)"
    by (simp add: filter_id_conv)
  then show ?thesis
    by (simp add: orphan_outcomes_def chosen_orphans_def orphan_def [abs_def])
qed

lemma orphan_guard:
  assumes "db_inv d" "r \<in> set (tasks d)"
  shows "complete_guard (orphan_outcomes w live (tasks d)) r \<longleftrightarrow> t_id r \<in> t_id ` set (chosen_orphans w live (tasks d))"
proof
  assume "complete_guard (orphan_outcomes w live (tasks d)) r"
  then obtain c where "outcome_for (orphan_outcomes w live (tasks d)) r = Some c"
    by (auto simp: complete_guard_def split: option.splits)
  from outcome_for_SomeD [OF this] obtain s where
    "s \<in> set (chosen_orphans w live (tasks d))" "t_id r = t_id s"
    unfolding orphan_outcomes_chosen [OF assms(1)] by auto
  then show "t_id r \<in> t_id ` set (chosen_orphans w live (tasks d))" by blast
next
  assume "t_id r \<in> t_id ` set (chosen_orphans w live (tasks d))"
  then obtain s where s: "s \<in> set (chosen_orphans w live (tasks d))" "t_id s = t_id r" by auto
  then have "s \<in> set (tasks d)" and o: "orphan w live s" by (auto simp: chosen_orphans_def dest!: in_order_limit)
  with s(2) key_unique [OF db_inv_ids [OF assms(1)] _ assms(2)] have sr: "s = r" by blast
  have tok: "t_token r \<noteq> None" using db_inv_row [OF assms] o sr by (auto simp: orphan_def row_inv_def)
  let ?cs = "orphan_outcomes w live (tasks d)"
  have "\<exists>c \<in> set ?cs. c_id c = t_id r \<and> t_token r = Some (c_token c)"
    unfolding orphan_outcomes_chosen [OF assms(1)] using s(1) sr tok by force
  then obtain c where c: "outcome_for ?cs r = Some c"
    by (cases "outcome_for ?cs r") (auto simp: outcome_for_def find_row_None_iff)
  have "c_kind c = Release"
    using outcome_for_SomeD [OF c] unfolding orphan_outcomes_chosen [OF assms(1)] by auto
  then show "complete_guard ?cs r" using c o sr by (simp add: complete_guard_def orphan_def)
qed

lemma released_state:
  assumes "complete_guard (orphan_outcomes w live (tasks d)) r" "db_inv d"
  shows "t_state (complete_upd env (orphan_outcomes w live (tasks d)) r) = (if t_cancel_at r = None then Queued else Cancelled)
    \<and> t_failures (complete_upd env (orphan_outcomes w live (tasks d)) r) = t_failures r"
proof -
  obtain c where c: "outcome_for (orphan_outcomes w live (tasks d)) r = Some c"
    using assms(1) by (auto simp: complete_guard_def split: option.splits)
  have "c_kind c = Release"
    using outcome_for_SomeD [OF c] unfolding orphan_outcomes_chosen [OF assms(2)] by auto
  then show ?thesis using c by (simp add: complete_upd_def complete_row_def)
qed

text \<open>One statement releases a full batch of orphans, or all of them.\<close>

lemma release_orphans_step:
  assumes "db_inv d" "store_release_orphans env w live d = (d', rows)"
  shows "db_inv d'" "length rows = min (length (filter (orphan w live) (tasks d))) 256"
    "length (filter (orphan w live) (tasks d')) = length (filter (orphan w live) (tasks d)) - length rows"
    "\<forall>r \<in> set (tasks d). \<not> orphan w live r \<longrightarrow> r \<in> set (tasks d')"
    "\<forall>x \<in> set (tasks d'). x \<in> set (tasks d) \<or> t_state x \<noteq> Running"
proof -
  let ?os = "orphan_outcomes w live (tasks d)" and ?ch = "chosen_orphans w live (tasks d)"
  let ?G = "complete_guard ?os" and ?U = "complete_upd env ?os" and ?O = "orphan w live"
  have d': "d' = fst (complete_stmt env ?os d)"
    and rows: "rows = map (\<lambda>r. (t_id r, t_type r, t_state r)) (returning ?G ?U (tasks d))"
    using assms(2) by (auto simp: store_release_orphans_def complete_stmt_def Let_def case_prod_beta)
  then show "db_inv d'" using db_inv_complete [OF assms(1)] by simp
  have tasks: "tasks d' = update_where ?G ?U (tasks d)" by (simp add: d' complete_stmt_def)
  have ids: "distinct (map t_id (tasks d))" by (rule db_inv_ids [OF assms(1)])
  have sub: "set ?ch \<subseteq> set (tasks d)" by (auto simp: chosen_orphans_def dest!: in_order_limit)
  have dch: "distinct (map t_id ?ch)"
    unfolding chosen_orphans_def by (intro distinct_map_order_limit distinct_map_filter_key ids)
  have "filter ?G (tasks d) = filter (\<lambda>r. t_id r \<in> t_id ` set ?ch) (tasks d)"
    by (rule filter_cong) (simp_all add: orphan_guard [OF assms(1)])
  then have lenG: "length (filter ?G (tasks d)) = length ?ch"
    using length_filter_keys [OF ids dch sub] by simp
  have lench: "length ?ch = min (length (filter ?O (tasks d))) 256"
    by (simp add: chosen_orphans_def length_order_limit_min)
  show lrows: "length rows = min (length (filter ?O (tasks d))) 256"
    using lenG lench by (simp add: rows returning_def)
  have GO: "?O r" if "r \<in> set (tasks d)" "?G r" for r
  proof -
    have "t_id r \<in> t_id ` set ?ch" using orphan_guard [OF assms(1) that(1)] that(2) by simp
    then obtain s where "t_id r = t_id s" "s \<in> set ?ch" by (rule imageE)
    then have "s = r" using key_unique [OF ids _ that(1)] sub by auto
    with \<open>s \<in> set ?ch\<close> show ?thesis by (auto simp: chosen_orphans_def dest!: in_order_limit)
  qed
  have UO: "t_state (?U r) \<noteq> Running" if "?G r" for r
    using released_state [OF that assms(1), of env] by simp
  have "length (filter ?O (tasks d')) = length (filter (\<lambda>r. ?O r \<and> \<not> ?G r) (tasks d))"
  proof -
    have "length (filter ?O (update_where ?G ?U rs)) = length (filter (\<lambda>r. ?O r \<and> \<not> ?G r) rs)" for rs
      by (induction rs) (auto simp: update_where_def orphan_def dest: UO)
    then show ?thesis by (simp add: tasks)
  qed
  moreover have "length (filter (\<lambda>r. ?O r \<and> ?G r) (tasks d)) = length rows"
  proof -
    have "filter (\<lambda>r. ?O r \<and> ?G r) (tasks d) = filter ?G (tasks d)"
      by (rule filter_cong) (auto dest: GO)
    then show ?thesis by (simp add: rows returning_def)
  qed
  ultimately show "length (filter ?O (tasks d')) = length (filter ?O (tasks d)) - length rows"
    using length_filter_split [of ?O "tasks d" ?G] by simp
  show "\<forall>r \<in> set (tasks d). \<not> ?O r \<longrightarrow> r \<in> set (tasks d')"
    using GO by (auto simp: tasks set_update_where)
  show "\<forall>x \<in> set (tasks d'). x \<in> set (tasks d) \<or> t_state x \<noteq> Running"
    using UO by (auto simp: tasks set_update_where)
qed

lemma release_loop_clears:
  assumes "db_inv d" "length (filter (orphan w live) (tasks d)) div 256 < fuel"
  shows "\<exists>d' rows. release_loop fuel env w live k d = Some (d', rows) \<and> db_inv d'
    \<and> length rows = length (filter (orphan w live) (tasks d))
    \<and> (\<forall>r \<in> set (tasks d'). \<not> orphan w live r)
    \<and> (\<forall>r \<in> set (tasks d). \<not> orphan w live r \<longrightarrow> r \<in> set (tasks d'))
    \<and> (\<forall>x \<in> set (tasks d'). x \<in> set (tasks d) \<or> t_state x \<noteq> Running)"
  using assms
proof (induction fuel arbitrary: k d)
  case (Suc fuel)
  let ?n = "length (filter (orphan w live) (tasks d))"
  obtain d1 rows where rel: "store_release_orphans (env k) w live d = (d1, rows)" by fastforce
  note step = release_orphans_step [OF Suc.prems(1) rel]
  show ?case
  proof (cases "length rows < 256")
    case True
    then have "length rows = ?n" using step(2) by simp
    then have "filter (orphan w live) (tasks d1) = []" using step(3) by simp
    then have "\<forall>r \<in> set (tasks d1). \<not> orphan w live r" by (simp add: filter_empty_conv)
    moreover have "release_loop (Suc fuel) env w live k d = Some (d1, rows)" using rel True by simp
    ultimately show ?thesis using step(1,4,5) \<open>length rows = ?n\<close> by blast
  next
    case False
    then have n: "length rows = 256" "256 \<le> ?n" using step(2) by auto
    then have "length (filter (orphan w live) (tasks d1)) div 256 < fuel"
      using step(3) Suc.prems(2) by simp
    from Suc.IH [OF step(1) this, of "Suc k"] obtain d' later where
      ih: "release_loop fuel env w live (Suc k) d1 = Some (d', later)" "db_inv d'"
      "length later = length (filter (orphan w live) (tasks d1))"
      "\<forall>r \<in> set (tasks d'). \<not> orphan w live r"
      "\<forall>r \<in> set (tasks d1). \<not> orphan w live r \<longrightarrow> r \<in> set (tasks d')"
      "\<forall>x \<in> set (tasks d'). x \<in> set (tasks d1) \<or> t_state x \<noteq> Running" by blast
    have "release_loop (Suc fuel) env w live k d = Some (d', rows @ later)"
      using rel False ih(1) by simp
    moreover have "length (rows @ later) = ?n" using ih(3) step(3) n by simp
    moreover have "\<forall>r \<in> set (tasks d). \<not> orphan w live r \<longrightarrow> r \<in> set (tasks d')" using step(4) ih(5) by blast
    moreover have "\<forall>x \<in> set (tasks d'). x \<in> set (tasks d) \<or> t_state x \<noteq> Running" using step(5) ih(6) by blast
    ultimately show ?thesis using ih(2,4) by blast
  qed
qed simp

lemma release_loop_result:
  "release_loop fuel env w live k d = Some (d', rows) \<Longrightarrow> db_inv d \<Longrightarrow> \<forall>r \<in> set (tasks d'). \<not> orphan w live r"
proof (induction fuel arbitrary: k d rows)
  case (Suc fuel)
  obtain d1 rows1 where rel: "store_release_orphans (env k) w live d = (d1, rows1)" by fastforce
  note step = release_orphans_step [OF Suc.prems(2) rel]
  show ?case
  proof (cases "length rows1 < 256")
    case True
    then have "d' = d1" using Suc.prems(1) rel by simp
    moreover have "length (filter (orphan w live) (tasks d1)) = 0" using True step(2,3) by simp
    ultimately show ?thesis by (simp add: filter_empty_conv)
  next
    case False
    then obtain later where "release_loop fuel env w live (Suc k) d1 = Some (d', later)"
      using Suc.prems(1) rel by auto
    then show ?thesis using Suc.IH step(1) by blast
  qed
qed simp

section \<open>A turn of the claim loop\<close>

text \<open>\<open>_release_unstarted\<close>: rows claimed while a shutdown landed go straight back to the queue.\<close>

definition release_of :: "task_row list \<Rightarrow> completion list" where
  "release_of rows = map (\<lambda>r. \<lparr>c_id = t_id r, c_token = the (t_token r), c_kind = Release, c_data = None\<rparr>)
     (filter (\<lambda>r. t_token r \<noteq> None) rows)"

text \<open>
  What the claim statement answers: the rows, a lost connection (before or after the commit), or
  another database error, which rolls the statement back. A statement whose connection is lost may
  also go on in the server and commit only after the worker's next statements (\<open>ClaimLate\<close>).
\<close>

datatype claim_reply = ClaimAnswered | ClaimLost bool | ClaimLate | ClaimRejected

text \<open>The two releases, retried until the database answers or an immediate shutdown gives up.\<close>

definition release_orphans :: "nat \<Rightarrow> (nat \<Rightarrow> bool) \<Rightarrow> (nat \<Rightarrow> op_try) \<Rightarrow> (nat \<Rightarrow> nat \<Rightarrow> pg) \<Rightarrow> ustr \<Rightarrow> int list
     \<Rightarrow> db \<Rightarrow> (db \<times> (int \<times> ustr \<times> task_state) list option) option" where
  "release_orphans fuel abort tries env w live = fenced_db fuel abort tries
     (\<lambda>k. release_loop fuel (env k) w live 0)
     (\<lambda>k n committed. release_some (env k) w live 0 (if committed then Suc n else n)) 0"

definition release_unstarted :: "nat \<Rightarrow> (nat \<Rightarrow> bool) \<Rightarrow> (nat \<Rightarrow> op_try) \<Rightarrow> (nat \<Rightarrow> nat \<Rightarrow> pg) \<Rightarrow> task_row list
     \<Rightarrow> db \<Rightarrow> (db \<times> (int \<times> task_state) list option) option" where
  "release_unstarted fuel abort tries env rows = fenced_db fuel abort tries
     (\<lambda>k e. case store_complete (env k 0) (release_of rows) e of Inl _ \<Rightarrow> None | Inr r \<Rightarrow> Some r)
     (\<lambda>k n committed e. if committed then ok_db (store_complete (env k 0) (release_of rows) e) e else e) 0"

text \<open>
  The dictionary \<open>attempts\<close> by its keys, the task ids: \<open>_start_attempt\<close> replaces the entry of an earlier
  attempt at the same task that has not ended yet, and the end of an attempt removes whatever
  entry its task has (\<open>_attempt_done\<close>).
\<close>

definition start_attempt :: "task_row \<Rightarrow> int list \<Rightarrow> int list" where
  "start_attempt r atts = (if t_id r \<in> set atts then atts else atts @ [t_id r])"

definition start_attempts :: "task_row list \<Rightarrow> int list \<Rightarrow> int list" where
  "start_attempts rows atts = fold start_attempt rows atts"

definition attempt_ended :: "int \<Rightarrow> int list \<Rightarrow> int list" where
  "attempt_ended i atts = removeAll i atts"

lemma start_attempts_keys: "set (start_attempts rows atts) = set atts \<union> t_id ` set rows"
  by (induction rows arbitrary: atts) (auto simp: start_attempts_def start_attempt_def)

lemma start_attempts_length: "length (start_attempts rows atts) \<le> length atts + length rows"
proof (induction rows arbitrary: atts)
  case (Cons r rows)
  have "length (start_attempts rows (start_attempt r atts)) \<le> length (start_attempt r atts) + length rows" by (rule Cons.IH)
  then show ?case by (simp add: start_attempts_def start_attempt_def split: if_splits)
qed (simp add: start_attempts_def)

text \<open>
  \<open>_claim_batch_and_dispatch\<close>; \<open>env' k\<close> serves the statements of try \<open>k\<close> of a release, \<open>abort\<close> is the
  event of an immediate shutdown. The flag says that rows were dispatched.
\<close>

definition claim_batch ::
  "nat \<Rightarrow> pg \<Rightarrow> (nat \<Rightarrow> nat \<Rightarrow> pg) \<Rightarrow> locks \<Rightarrow> (nat \<Rightarrow> time) \<Rightarrow> ustr list \<Rightarrow> ustr \<Rightarrow> settings \<Rightarrow> bool
     \<Rightarrow> (nat \<Rightarrow> bool) \<Rightarrow> (nat \<Rightarrow> op_try) \<Rightarrow> int \<Rightarrow> claim_reply \<Rightarrow> int list \<Rightarrow> db \<Rightarrow> (db \<times> int list \<times> bool) option" where
  "claim_batch fuel env env' lk clk types w s stopping abort tries n reply atts d =
     (let claim = store_claim env lk clk types w (lease_s s) (poll_interval_s s) n;
          (d1, rows) = claim d;
          released = release_orphans fuel abort tries env' w atts
      in case reply of
          ClaimAnswered \<Rightarrow>
            if stopping then map_option (\<lambda>(d2, _). (d2, atts, False)) (release_unstarted fuel abort tries env' rows d1)
            else Some (d1, start_attempts rows atts, rows \<noteq> [])
        | ClaimLost committed \<Rightarrow>
            map_option (\<lambda>(d2, _). (d2, atts, False)) (released (if committed then d1 else d))
        | ClaimLate \<Rightarrow> map_option (\<lambda>(d2, _). (fst (claim d2), atts, False)) (released d)
        | ClaimRejected \<Rightarrow> Some (d, atts, False))"

text \<open>The part of \<open>_claim_loop\<close> between two waits: claim as many rows as there are free slots.\<close>

definition claim_turn ::
  "nat \<Rightarrow> pg \<Rightarrow> (nat \<Rightarrow> nat \<Rightarrow> pg) \<Rightarrow> locks \<Rightarrow> (nat \<Rightarrow> time) \<Rightarrow> ustr list \<Rightarrow> ustr \<Rightarrow> settings \<Rightarrow> bool
     \<Rightarrow> (nat \<Rightarrow> bool) \<Rightarrow> (nat \<Rightarrow> op_try) \<Rightarrow> claim_reply \<Rightarrow> int list \<Rightarrow> db \<Rightarrow> (db \<times> int list \<times> bool) option" where
  "claim_turn fuel env env' lk clk types w s stopping abort tries reply atts d =
     (let free = concurrency s - int (length atts)
      in if free > 0 then claim_batch fuel env env' lk clk types w s stopping abort tries free reply atts d
         else Some (d, atts, False))"

text \<open>Every row that runs under the worker's name is an attempt the worker tracks.\<close>

definition tracked :: "ustr \<Rightarrow> int list \<Rightarrow> db \<Rightarrow> bool" where
  "tracked w atts d \<longleftrightarrow> (\<forall>r \<in> set (tasks d). \<not> orphan w atts r)"

lemma claim_rows_cover:
  assumes "db_inv d" "n \<ge> 1" "x \<in> set (tasks (fst (store_claim env lk clk types w l dl n d)))" "x \<notin> set (tasks d)"
  shows "x \<in> set (snd (store_claim env lk clk types w l dl n d))"
proof -
  let ?ids = "v_ids (claim_admission env lk clk types dl n d)"
  have tasks: "tasks (fst (store_claim env lk clk types w l dl n d)) = update_where (claim_guard ?ids) (claim_upd env w l) (tasks d)"
    using assms(2) by (simp add: store_claim_def Let_def case_prod_beta)
  then obtain r where r: "r \<in> set (tasks d)" "claim_guard ?ids r" "x = claim_upd env w l r"
    using assms(3,4) by (auto simp: set_update_where)
  then have "t_id r \<in> set ?ids" by (simp add: claim_guard_def)
  then obtain i where i: "i < length ?ids" "?ids ! i = t_id r" by (auto simp: in_set_conv_nth)
  note rows = claim_rows [OF assms(1,2), where env = env and lk = lk and clk = clk and types = types
      and dl = dl and w = w and l = l]
  have len: "i < length (snd (store_claim env lk clk types w l dl n d))"
    using i(1) list_all2_lengthD [OF rows] by simp
  from list_all2_nthD [OF rows i(1)] obtain s where
    s: "s \<in> set (tasks d)" "t_id s = t_id r" "snd (store_claim env lk clk types w l dl n d) ! i = claim_upd env w l s"
    unfolding i(2) by blast
  have "s = r" by (rule key_unique [OF db_inv_ids [OF assms(1)] s(1) r(1) s(2)])
  with s(3) r(3) len show ?thesis by (metis nth_mem)
qed

lemma release_of_claimed:
  assumes "db_inv d" "n \<ge> 1" "store_claim env lk clk types w l dl n d = (d1, rows)"
    "x \<in> set (tasks (ok_db (store_complete env' (release_of rows) d1) d1))" "t_state x = Running"
  shows "x \<in> set (tasks d)"
proof -
  have inv1: "db_inv d1" using db_inv_claim [OF assms(1)] assms(3) by (metis fst_conv)
  have dist: "distinct (map t_id rows)" and len: "length rows \<le> 256"
    using claim_rows_distinct [OF assms(1,2), where env = env and lk = lk and clk = clk and types = types
        and dl = dl and w = w and l = l]
      claim_length [OF assms(1,2), where env = env and lk = lk and clk = clk and types = types
        and dl = dl and w = w and l = l] assms(3) by auto
  have ids: "map c_id (release_of rows) = map t_id (filter (\<lambda>r. t_token r \<noteq> None) rows)" by (simp add: release_of_def)
  have ok: "length (release_of rows) \<le> 256" "distinct (map c_id (release_of rows))"
    using dist le_trans [OF length_filter_le len] unfolding ids by (simp_all add: release_of_def distinct_map_filter_key)
  let ?cs = "release_of rows"
  have tasks: "tasks (ok_db (store_complete env' ?cs d1) d1) = update_where (complete_guard ?cs) (complete_upd env' ?cs) (tasks d1)"
  proof (cases "?cs = []")
    case True
    have "\<not> complete_guard [] r" for r by (simp add: complete_guard_def outcome_for_def)
    then show ?thesis using True by (simp add: ok_db_def store_complete_def update_where_none)
  next
    case False
    then show ?thesis using ok by (simp add: ok_db_def store_complete_def Let_def case_prod_beta complete_stmt_def)
  qed
  have kept: "\<not> complete_guard ?cs y \<and> x = y" if y: "y \<in> set (tasks d1)"
    "x = (if complete_guard ?cs y then complete_upd env' ?cs y else y)" for y
  proof (rule ccontr)
    assume "\<not> (\<not> complete_guard ?cs y \<and> x = y)"
    then have g: "complete_guard ?cs y" using y(2) by (auto split: if_splits)
    then obtain c where c: "outcome_for ?cs y = Some c" by (auto simp: complete_guard_def split: option.splits)
    then have "c_kind c = Release" using outcome_for_SomeD [OF c] by (auto simp: release_of_def)
    then have "t_state x \<noteq> Running" using y(2) g c by (simp add: complete_upd_def complete_row_def)
    with assms(5) show False by simp
  qed
  obtain y where "y \<in> set (tasks d1)" "x = (if complete_guard ?cs y then complete_upd env' ?cs y else y)"
    using assms(4) unfolding tasks update_where_def set_map by (rule imageE)
  with kept [OF this] have x: "x \<in> set (tasks d1)" "\<not> complete_guard ?cs x" by auto
  show ?thesis
  proof (rule ccontr)
    assume "x \<notin> set (tasks d)"
    then have xr: "x \<in> set rows" using claim_rows_cover [OF assms(1,2)] x(1) assms(3) by (metis fst_conv snd_conv)
    have tok: "t_token x \<noteq> None" using db_inv_row [OF inv1 x(1)] assms(5) by (simp add: row_inv_def)
    then have "\<exists>c \<in> set ?cs. c_id c = t_id x \<and> t_token x = Some (c_token c)"
      using xr by (force simp: release_of_def)
    then obtain c where c: "outcome_for ?cs x = Some c"
      by (cases "outcome_for ?cs x") (auto simp: outcome_for_def find_row_None_iff)
    have "c_kind c = Release" using outcome_for_SomeD [OF c] by (auto simp: release_of_def)
    then have "complete_guard ?cs x" using c assms(5) by (simp add: complete_guard_def)
    with x(2) show False by simp
  qed
qed

lemma tracked_mono:
  assumes "tracked w atts d" "\<forall>x \<in> set (tasks d'). x \<in> set (tasks d) \<or> t_state x \<noteq> Running \<or> t_id x \<in> set atts'"
    "set atts \<subseteq> set atts'"
  shows "tracked w atts' d'"
  using assms by (fastforce simp: tracked_def orphan_def)

lemma release_orphans_length:
  "length (tasks (fst (store_release_orphans env w live d))) = length (tasks d)"
  by (simp add: store_release_orphans_def complete_stmt_def Let_def case_prod_beta)

lemma release_some_keeps:
  "db_inv d \<Longrightarrow> db_inv (release_some env w live k n d) \<and> length (tasks (release_some env w live k n d)) = length (tasks d)"
proof (induction n arbitrary: k d)
  case (Suc n)
  have "db_inv (fst (store_release_orphans (env k) w live d))"
    by (rule release_orphans_step(1) [OF Suc.prems prod.collapse [symmetric]])
  from Suc.IH [OF this] show ?case by (simp add: release_orphans_length)
qed simp

text \<open>The release loop needs at most one statement per row.\<close>

lemma release_loop_ends:
  assumes "db_inv d" "length (tasks d) < fuel"
  shows "release_loop fuel env w live k d \<noteq> None"
proof -
  have "length (filter (orphan w live) (tasks d)) div 256 < fuel"
    using assms(2) length_filter_le [of "orphan w live" "tasks d"] by linarith
  then show ?thesis using release_loop_clears [OF assms(1)] by fastforce
qed

text \<open>Each release ends with the first try that is answered, and then has done its work.\<close>

lemma release_orphans_ends:
  assumes "db_inv d" "length (tasks d) < fuel" "tries j = TryAnswered" "j < fuel"
  shows "\<exists>d' x. release_orphans fuel abort tries env w live d = Some (d', x)
    \<and> ((\<forall>i \<le> j. \<not> abort i \<and> (\<forall>n. tries i \<noteq> TryRefused n)) \<longrightarrow> tracked w live d')"
proof -
  let ?I = "\<lambda>e. db_inv e \<and> length (tasks e) < fuel"
  have part: "?I (release_some (env i) w live 0 n e)" if "?I e" for i n e using that release_some_keeps by simp
  have full: "release_loop fuel (env i) w live 0 e \<noteq> None" if "?I e" for i e using that release_loop_ends by blast
  have "\<exists>d' x. release_orphans fuel abort tries env w live d = Some (d', x)
      \<and> ((\<forall>i \<le> j. \<not> abort i \<and> (\<forall>n. tries i \<noteq> TryRefused n))
          \<longrightarrow> (\<exists>i e y. ?I e \<and> release_loop fuel (env i) w live 0 e = Some (d', y)))"
    unfolding release_orphans_def
    by (rule fenced_db_answered [where I = ?I and full = "\<lambda>k. release_loop fuel (env k) w live 0"
          and part = "\<lambda>k n c. release_some (env k) w live 0 (if c then Suc n else n)" and d = d and j = j and fuel = fuel
          and abort = abort and tries = tries, OF _ part full assms(3,4)]) (use assms(1,2) in auto)
  moreover have "tracked w live d'" if "\<exists>i e y. ?I e \<and> release_loop fuel (env i) w live 0 e = Some (d', y)" for d'
    using that release_loop_result unfolding tracked_def by blast
  ultimately show ?thesis by blast
qed

lemma claimed_releases:
  assumes "db_inv d" "n \<ge> 1" "store_claim env lk clk types w l dl n d = (d1, rows)"
  shows "\<exists>r. store_complete e (release_of rows) d2 = Inr r"
proof -
  have "distinct (map t_id rows)" "length rows \<le> 256"
    using claim_rows_distinct [OF assms(1,2), where env = env and lk = lk and clk = clk and types = types
        and dl = dl and w = w and l = l]
      claim_length [OF assms(1,2), where env = env and lk = lk and clk = clk and types = types
        and dl = dl and w = w and l = l] assms(3) by auto
  moreover have "map c_id (release_of rows) = map t_id (filter (\<lambda>r. t_token r \<noteq> None) rows)" by (simp add: release_of_def)
  ultimately have "length (release_of rows) \<le> 256" "distinct (map c_id (release_of rows))"
    using le_trans [OF length_filter_le, of rows 256 "\<lambda>r. t_token r \<noteq> None"] distinct_map_filter_key [of t_id rows]
    by (simp_all add: release_of_def comp_def del: map_map)
  then show ?thesis by (simp add: store_complete_def Let_def case_prod_beta)
qed

lemma release_unstarted_ends:
  assumes "db_inv d" "n \<ge> 1" "store_claim env lk clk types w l dl n d = (d1, rows)" "tries j = TryAnswered" "j < fuel"
  shows "\<exists>d' x. release_unstarted fuel abort tries env' rows d1 = Some (d', x)
    \<and> ((\<forall>i \<le> j. \<not> abort i \<and> (\<forall>n. tries i \<noteq> TryRefused n))
        \<longrightarrow> (\<forall>r \<in> set (tasks d'). t_state r = Running \<longrightarrow> r \<in> set (tasks d)))"
proof -
  let ?cs = "release_of rows"
  let ?I = "\<lambda>e. e = d1 \<or> (\<exists>env. e = ok_db (store_complete env ?cs d1) d1)"
  let ?full = "\<lambda>k e. case store_complete (env' k 0) ?cs e of Inl _ \<Rightarrow> None | Inr r \<Rightarrow> Some r"
  let ?part = "\<lambda>k n committed e. if committed then ok_db (store_complete (env' k 0) ?cs e) e else e"
  note ok = claimed_releases [OF assms(1-3)]
  have again: "store_complete e ?cs (ok_db (store_complete e' ?cs d1) d1) = Inr (ok_db (store_complete e' ?cs d1) d1, [])" for e e'
    using ok [of e' d1] store_complete_twice [of e' ?cs d1] by (auto simp: ok_db_def)
  have settled: "ok_db (store_complete e ?cs x) x = ok_db (store_complete e ?cs d1) d1 \<or> ok_db (store_complete e ?cs x) x = x" if "?I x" for e x
    using that again [of e] by (auto simp: ok_db_def)
  have I: "?I (?part i n c x)" if "?I x" for i n c x
    using settled [OF that, of "env' i 0"] that by (cases c) auto
  have total: "?full i x \<noteq> None" for i x using ok [of "env' i 0" x] by auto
  have run: "\<exists>d' x. release_unstarted fuel abort tries env' rows d1 = Some (d', x)
      \<and> ((\<forall>i \<le> j. \<not> abort i \<and> (\<forall>n. tries i \<noteq> TryRefused n)) \<longrightarrow> (\<exists>i e y. ?I e \<and> ?full i e = Some (d', y)))"
    unfolding release_unstarted_def
    by (rule fenced_db_answered [where I = ?I and full = ?full and part = ?part and d = d1 and j = j and fuel = fuel
          and abort = abort and tries = tries, OF _ I total assms(4,5)]) auto
  have "\<forall>r \<in> set (tasks d'). t_state r = Running \<longrightarrow> r \<in> set (tasks d)"
    if "?I e" "?full i e = Some (d', y)" for d' i e y
  proof -
    have d': "d' = ok_db (store_complete (env' i 0) ?cs e) e"
      using that(2) by (auto simp: ok_db_def split: sum.splits)
    have "d' = ok_db (store_complete (env' i 0) ?cs d1) d1 \<or> (\<exists>env. d' = ok_db (store_complete env ?cs d1) d1)"
      using that(1) again unfolding d' by (auto simp: ok_db_def)
    then show ?thesis using release_of_claimed [OF assms(1-3)] by blast
  qed
  with run show ?thesis by blast
qed

text \<open>
  A turn ends once the database answers a release, never tracks more than \<open>concurrency\<close> attempts, and
  keeps every running row of the worker tracked, whatever the claim statement answered, unless the
  release is given up or the claim commits behind its back.
\<close>

lemma claim_turn_tracks:
  assumes "db_inv d" "tracked w atts d" "length (tasks d) < fuel" "tries j = TryAnswered" "j < fuel"
  shows "\<exists>d' atts' dispatched. claim_turn fuel env env' lk clk types w s stopping abort tries reply atts d = Some (d', atts', dispatched)
    \<and> int (length atts') \<le> max (int (length atts)) (concurrency s)
    \<and> (reply \<noteq> ClaimLate \<and> (\<forall>i \<le> j. \<not> abort i \<and> (\<forall>n. tries i \<noteq> TryRefused n)) \<longrightarrow> tracked w atts' d')"
proof (cases "concurrency s - int (length atts) > 0")
  case False
  then have "claim_turn fuel env env' lk clk types w s stopping abort tries reply atts d = Some (d, atts, False)"
    by (simp add: claim_turn_def)
  then show ?thesis using assms(2) by (auto intro: exI [of _ False])
next
  case True
  let ?n = "concurrency s - int (length atts)"
  obtain d1 rows where claim: "store_claim env lk clk types w (lease_s s) (poll_interval_s s) ?n d = (d1, rows)"
    by fastforce
  have n: "?n \<ge> 1" using True by simp
  have inv1: "db_inv d1" using db_inv_claim [OF assms(1)] claim by (metis fst_conv)
  have len1: "length (tasks d1) < fuel"
    using claim assms(3) by (auto simp: store_claim_def Let_def case_prod_beta split: if_splits)
  have turn: "claim_turn fuel env env' lk clk types w s stopping abort tries reply atts d
      = claim_batch fuel env env' lk clk types w s stopping abort tries ?n reply atts d"
    using True by (simp add: claim_turn_def Let_def)
  let ?C = "\<forall>i \<le> j. \<not> abort i \<and> (\<forall>n. tries i \<noteq> TryRefused n)"
  have old: "int (length atts) \<le> max (int (length atts)) (concurrency s)" by simp
  have result: ?thesis if "claim_batch fuel env env' lk clk types w s stopping abort tries ?n reply atts d = Some (d', atts', b)"
    "int (length atts') \<le> max (int (length atts)) (concurrency s)" "reply \<noteq> ClaimLate \<Longrightarrow> ?C \<longrightarrow> tracked w atts' d'" for d' atts' b
    using that unfolding turn by blast
  show ?thesis
  proof (cases reply)
    case ClaimAnswered
    show ?thesis
    proof (cases stopping)
      case True
      obtain d' x where run: "release_unstarted fuel abort tries env' rows d1 = Some (d', x)"
        and ran: "?C \<longrightarrow> (\<forall>r \<in> set (tasks d'). t_state r = Running \<longrightarrow> r \<in> set (tasks d))"
        using release_unstarted_ends [where tries = tries and j = j, OF assms(1) n claim assms(4,5)] by blast
      have "?C \<longrightarrow> tracked w atts d'" using ran tracked_mono [OF assms(2), of d' atts] by blast
      then show ?thesis
        by (intro result [of d' atts False]) (simp_all add: claim_batch_def claim ClaimAnswered True run old)
    next
      case False
      have cover: "\<forall>x \<in> set (tasks d1). x \<in> set (tasks d) \<or> x \<in> set rows"
        using claim_rows_cover [OF assms(1) n, where env = env and lk = lk and clk = clk and types = types
            and w = w and l = "lease_s s" and dl = "poll_interval_s s"] claim by auto
      have "tracked w (start_attempts rows atts) d1"
        by (rule tracked_mono [OF assms(2)]) (use cover in \<open>auto simp: start_attempts_keys\<close>)
      moreover have "int (length rows) \<le> ?n"
        using claim_length [OF assms(1) n, of env lk clk types w "lease_s s" "poll_interval_s s"] claim by simp
      then have "int (length (start_attempts rows atts)) \<le> concurrency s"
        using start_attempts_length [of rows atts] by simp
      ultimately show ?thesis
        by (intro result [of d1 "start_attempts rows atts" "rows \<noteq> []"]) (simp_all add: claim_batch_def claim ClaimAnswered False)
    qed
  next
    case (ClaimLost committed)
    let ?d = "if committed then d1 else d"
    have "db_inv ?d" "length (tasks ?d) < fuel" using assms(1,3) inv1 len1 by simp_all
    then obtain d' x where run: "release_orphans fuel abort tries env' w atts ?d = Some (d', x)" "?C \<longrightarrow> tracked w atts d'"
      using release_orphans_ends [where tries = tries and j = j, OF _ _ assms(4,5)] by blast
    then show ?thesis
      by (intro result [of d' atts False]) (simp_all add: claim_batch_def claim ClaimLost old)
  next
    case ClaimLate
    obtain d' x where run: "release_orphans fuel abort tries env' w atts d = Some (d', x)"
      using release_orphans_ends [where tries = tries and j = j, OF assms(1,3-5)] by blast
    show ?thesis
      by (rule result [of "fst (store_claim env lk clk types w (lease_s s) (poll_interval_s s) ?n d')" atts False])
        (simp_all add: claim_batch_def claim ClaimLate old run Let_def)
  next
    case ClaimRejected
    show ?thesis
      by (rule result [of d atts False]) (simp_all add: claim_batch_def claim ClaimRejected old assms(2))
  qed
qed

text \<open>
  An attempt that has lost its lease stays in the dictionary until it has settled. If its task is
  claimed again meanwhile, the new attempt takes the entry, and the end of the old one removes it.
\<close>

lemma claimed_runs:
  assumes "db_inv d" "n \<ge> 1" "x \<in> set (snd (store_claim env lk clk types w l dl n d))" "t_id x \<notin> set live"
  shows "\<not> tracked w live (fst (store_claim env lk clk types w l dl n d))"
proof -
  let ?ids = "v_ids (claim_admission env lk clk types dl n d)"
  from claimed_row [OF assms(1-3)] obtain r where
    r: "r \<in> set (tasks d)" "claim_guard ?ids r" "x = claim_upd env w l r" by blast
  then have "x \<in> set (update_where (claim_guard ?ids) (claim_upd env w l) (tasks d))"
    by (auto simp: set_update_where)
  then have "x \<in> set (tasks (fst (store_claim env lk clk types w l dl n d)))"
    using assms(2) by (simp add: store_claim_def Let_def case_prod_beta)
  moreover have "orphan w live x" using r(3) assms(4) by (simp add: orphan_def claim_upd_def)
  ultimately show ?thesis unfolding tracked_def by blast
qed

lemma ended_attempt_untracks:
  assumes "db_inv d"
    "claim_turn fuel env env' lk clk types w s False abort tries ClaimAnswered atts d = Some (d', atts', dispatched)"
    "x \<in> set (snd (store_claim env lk clk types w (lease_s s) (poll_interval_s s) (concurrency s - int (length atts)) d))"
    "int (length atts) < concurrency s"
  shows "\<not> tracked w (attempt_ended (t_id x) atts') d'"
proof -
  let ?n = "concurrency s - int (length atts)"
  have "d' = fst (store_claim env lk clk types w (lease_s s) (poll_interval_s s) ?n d)"
    using assms(2,4) by (auto simp: claim_turn_def claim_batch_def Let_def split: prod.splits)
  then show ?thesis using claimed_runs [OF assms(1) _ assms(3)] assms(4) by (simp add: attempt_ended_def)
qed

lemma dispatched_tracked:
  assumes "db_inv d" "tracked w atts d"
    "claim_turn fuel env env' lk clk types w s False abort tries ClaimAnswered atts d = Some (d', atts', dispatched)"
  shows "tracked w atts' d'"
proof -
  have "claim_turn (Suc (length (tasks d))) env env' lk clk types w s False (\<lambda>_. False) (\<lambda>_. TryAnswered) ClaimAnswered atts d
      = Some (d', atts', dispatched)"
    using assms(3) by (simp add: claim_turn_def claim_batch_def Let_def split: if_splits)
  then show ?thesis
    using claim_turn_tracks [OF assms(1,2), where fuel = "Suc (length (tasks d))" and tries = "\<lambda>_. TryAnswered" and j = 0
        and abort = "\<lambda>_. False" and reply = ClaimAnswered and stopping = False and env = env and env' = env' and lk = lk
        and clk = clk and types = types and s = s] by auto
qed

text \<open>
  A claim that the server commits after the release leaves rows that nobody tracks, until a later
  release or the reaper.
\<close>

lemma late_claim_untracked:
  assumes "db_inv d2" "int (length atts) < concurrency s"
    "release_orphans fuel abort tries env' w atts d = Some (d2, y)"
    "claim_turn fuel env env' lk clk types w s stopping abort tries ClaimLate atts d = Some (d', atts', dispatched)"
    "x \<in> set (snd (store_claim env lk clk types w (lease_s s) (poll_interval_s s) (concurrency s - int (length atts)) d2))"
    "t_id x \<notin> set atts"
  shows "\<not> tracked w atts' d'"
proof -
  have "d' = fst (store_claim env lk clk types w (lease_s s) (poll_interval_s s) (concurrency s - int (length atts)) d2)"
    "atts' = atts"
    using assms(2-4) by (auto simp: claim_turn_def claim_batch_def Let_def split: prod.splits)
  then show ?thesis using claimed_runs [OF assms(1) _ assms(5,6)] assms(2) by simp
qed

section \<open>The purge loops\<close>

text \<open>\<open>_purger\<close>: delete batches until one is not full. \<open>busy k\<close> are the rows locked at statement \<open>k\<close>.\<close>

fun purge_loop :: "nat \<Rightarrow> (nat \<Rightarrow> pg) \<Rightarrow> rat \<Rightarrow> nat \<Rightarrow> (nat \<Rightarrow> int \<Rightarrow> bool) \<Rightarrow> nat \<Rightarrow> int \<Rightarrow> db
     \<Rightarrow> (db \<times> int) option" where
  "purge_loop 0 env ret batch busy k deleted d = None"
| "purge_loop (Suc fuel) env ret batch busy k deleted d =
     (case store_purge_tasks (env k) ret batch (busy k) d of (d', n) \<Rightarrow>
        if n < int batch then Some (d', deleted + n)
        else purge_loop fuel env ret batch busy (Suc k) (deleted + n) d')"

fun expire_loop :: "nat \<Rightarrow> (nat \<Rightarrow> pg) \<Rightarrow> (event_row list \<Rightarrow> event_row list) \<Rightarrow> rat \<Rightarrow> nat
     \<Rightarrow> (nat \<Rightarrow> int \<Rightarrow> bool) \<Rightarrow> nat \<Rightarrow> db \<Rightarrow> (db \<times> (ustr \<times> int) list) option" where
  "expire_loop 0 env scan ret batch busy k d = None"
| "expire_loop (Suc fuel) env scan ret batch busy k d =
     (case store_purge_events (env k) scan ret batch (busy k) d of (d', expired) \<Rightarrow>
        if sum_list (map snd expired) < int batch then Some (d', expired)
        else map_option (\<lambda>(d2, later). (d2, expired @ later))
               (expire_loop fuel env scan ret batch busy (Suc k) d'))"

text \<open>A batch that is not full leaves nothing purgeable that is not locked.\<close>

lemma purge_partial_batch:
  assumes "db_inv d" "store_purge_tasks env ret batch busy d = (d', n)" "n < int batch"
  shows "\<forall>r \<in> set (tasks d'). purgeable env ret r \<longrightarrow> busy (t_id r)"
proof -
  let ?P = "\<lambda>r. purgeable env ret r \<and> \<not> busy (t_id r)"
  let ?ch = "order_limit finish_key batch (filter ?P (tasks d))"
  have ids: "distinct (map t_id (tasks d))" by (rule db_inv_ids [OF assms(1)])
  have d': "tasks d' = filter (\<lambda>r. t_id r \<notin> t_id ` set ?ch) (tasks d)"
    and n: "n = int (length (filter (\<lambda>r. t_id r \<in> t_id ` set ?ch) (tasks d)))"
    using assms(2) by (auto simp: store_purge_tasks_def purge_ids_def Let_def)
  have "set ?ch \<subseteq> set (tasks d)" by (auto dest!: in_order_limit)
  moreover have "distinct (map t_id ?ch)" by (intro distinct_map_order_limit distinct_map_filter_key ids)
  ultimately have "n = int (length ?ch)" using length_filter_keys [OF ids] n by simp
  then have "length (filter ?P (tasks d)) \<le> batch"
    using assms(3) by (simp add: length_order_limit_min min_def split: if_splits)
  then have "set ?ch = {r \<in> set (tasks d). ?P r}" by (simp add: order_limit_all)
  then show ?thesis by (auto simp: d')
qed

lemma purge_loop_ends:
  assumes "db_inv d" "batch \<ge> 1" "length (tasks d) < fuel"
  shows "\<exists>d' j. purge_loop fuel env ret batch busy k deleted d = Some (d', deleted + int (length (tasks d) - length (tasks d')))
    \<and> length (tasks d') \<le> length (tasks d)
    \<and> (\<forall>r \<in> set (tasks d'). r \<in> set (tasks d) \<and> (purgeable (env j) ret r \<longrightarrow> busy j (t_id r)))"
  using assms
proof (induction fuel arbitrary: k deleted d)
  case (Suc fuel)
  obtain d1 n where pur: "store_purge_tasks (env k) ret batch (busy k) d = (d1, n)" by fastforce
  have n: "n = int (length (tasks d) - length (tasks d1))" by (rule purge_tasks_removes(2) [OF Suc.prems(1) pur])
  have inv1: "db_inv d1" using db_inv_purge_tasks [OF Suc.prems(1), of "env k" ret batch "busy k"] pur by simp
  have sub: "set (tasks d1) \<subseteq> set (tasks d)" "length (tasks d1) \<le> length (tasks d)"
    using pur by (auto simp: store_purge_tasks_def Let_def)
  show ?case
  proof (cases "n < int batch")
    case True
    then have "purge_loop (Suc fuel) env ret batch busy k deleted d = Some (d1, deleted + n)" using pur by simp
    moreover have "\<forall>r \<in> set (tasks d1). purgeable (env k) ret r \<longrightarrow> busy k (t_id r)"
      by (rule purge_partial_batch [OF Suc.prems(1) pur True])
    ultimately show ?thesis using sub n by blast
  next
    case False
    then have "length (tasks d1) < fuel" using n Suc.prems(2,3) by simp
    from Suc.IH [OF inv1 Suc.prems(2) this, of "Suc k" "deleted + n"] obtain d' j where
      ih: "purge_loop fuel env ret batch busy (Suc k) (deleted + n) d1
          = Some (d', deleted + n + int (length (tasks d1) - length (tasks d')))"
        "length (tasks d') \<le> length (tasks d1)"
        "\<forall>r \<in> set (tasks d'). r \<in> set (tasks d1) \<and> (purgeable (env j) ret r \<longrightarrow> busy j (t_id r))" by blast
    have "purge_loop (Suc fuel) env ret batch busy k deleted d
        = Some (d', deleted + int (length (tasks d) - length (tasks d')))"
      using pur False ih(1,2) n sub(2) by simp
    with ih(2,3) sub show ?thesis by (intro exI [of _ d'] exI [of _ j]) auto
  qed
qed simp

end
