(* ===== verification/WorkerLife.thy ===== *)
theory WorkerLife
  imports Renewal Catalog
begin

text \<open>
  The life of a worker process (\<open>worker.py\<close>): publishing its definitions at the start,
  notifications, shutdown requests and the exit status, draining the attempts, and the watchdog.
\<close>

section \<open>Start\<close>

text \<open>\<open>Worker.__init__\<close>: at least one definition, no name twice.\<close>

fun add_definitions :: "ustr list \<Rightarrow> ustr list \<Rightarrow> exn + ustr list" where
  "add_definitions seen [] = Inr seen"
| "add_definitions seen (name # names) =
     (if name \<in> set seen then Inl ConfigurationError else add_definitions (seen @ [name]) names)"

definition worker_types :: "ustr list \<Rightarrow> exn + ustr list" where
  "worker_types names = (if names = [] then Inl ConfigurationError else add_definitions [] names)"

text \<open>
  \<open>_start_checks\<close>: the schema version, then all definitions in one transaction, then one probe per
  distinct sandbox.
\<close>

fun publish_all :: "pg \<Rightarrow> (json \<Rightarrow> json) \<Rightarrow> (task_type_spec \<Rightarrow> ustr) \<Rightarrow> task_type_spec list \<Rightarrow> db \<Rightarrow> exn + db" where
  "publish_all env jcast fp [] d = Inr d"
| "publish_all env jcast fp (s # ss) d =
     bind_result (store_publish_task_type env jcast fp s d) (\<lambda>(d', _). publish_all env jcast fp ss d')"

definition start_publish ::
  "(ustr \<Rightarrow> exn + int) \<Rightarrow> pg \<Rightarrow> (json \<Rightarrow> json) \<Rightarrow> (task_type_spec \<Rightarrow> ustr) \<Rightarrow> task_type_spec list \<Rightarrow> db
     \<Rightarrow> db \<times> exn option" where
  "start_publish si env jcast fp ss d =
     (case store_check_schema si d of
        Inl e \<Rightarrow> (d, Some e)
      | Inr _ \<Rightarrow> (case publish_all env jcast fp ss d of Inl e \<Rightarrow> (d, Some e) | Inr d' \<Rightarrow> (d', None)))"

fun probe_plan :: "sandbox list \<Rightarrow> sandbox list \<Rightarrow> sandbox list" where
  "probe_plan probed [] = []"
| "probe_plan probed (s # ss) =
     (if sandbox_identity s \<in> sandbox_identity ` set probed then probe_plan probed ss
      else s # probe_plan (s # probed) ss)"

lemma add_definitions_iff:
  "distinct seen \<Longrightarrow> add_definitions seen names = (if distinct (seen @ names) then Inr (seen @ names) else Inl ConfigurationError)"
  by (induction seen names rule: add_definitions.induct) auto

lemma find_published_publish:
  assumes "store_publish_task_type env jcast fp s d = Inr (d', old)"
  shows "find_published d' name = (if name = sp_name s
      then Some (published_row env jcast fp s (case find_published d name of None \<Rightarrow> False | Some ty \<Rightarrow> ty_paused ty))
      else find_published d name)"
proof -
  have upd: "find_row (\<lambda>ty. ty_name ty = name)
      (update_where (\<lambda>ty. ty_name ty = sp_name s) (\<lambda>ty. published_row env jcast fp s (ty_paused ty)) tys)
    = (if name = sp_name s then map_option (\<lambda>ty. published_row env jcast fp s (ty_paused ty)) (find_row (\<lambda>ty. ty_name ty = name) tys)
       else find_row (\<lambda>ty. ty_name ty = name) tys)" for tys
    by (induction tys) (auto simp: update_where_def published_row_def)
  have app: "find_row P (tys @ [r]) = (case find_row P tys of None \<Rightarrow> if P r then Some r else None | Some x \<Rightarrow> Some x)" for P tys and r :: task_type_row
    by (induction tys) auto
  show ?thesis
  proof (cases "find_published d (sp_name s)")
    case None
    then have "d' = d\<lparr>task_types := task_types d @ [published_row env jcast fp s False]\<rparr>"
      using assms by (auto simp: store_publish_task_type_def bind_result_Inr_iff)
    then show ?thesis using None
      by (auto simp: find_published_def app published_row_def split: option.split)
  next
    case (Some o1)
    then have "d' = d\<lparr>task_types := update_where (\<lambda>ty. ty_name ty = sp_name s)
             (\<lambda>ty. published_row env jcast fp s (ty_paused ty)) (task_types d)\<rparr>"
      using assms by (auto simp: store_publish_task_type_def bind_result_Inr_iff)
    then show ?thesis using Some by (auto simp: find_published_def upd)
  qed
qed

text \<open>Publishing all of a worker's definitions leaves each published as it declares it.\<close>

lemma publish_all_published:
  assumes "publish_all env jcast fp ss d = Inr d'" "distinct (map sp_name ss)"
  shows "find_published d' name = (case find_row (\<lambda>s. sp_name s = name) ss of
      None \<Rightarrow> find_published d name
    | Some s \<Rightarrow> Some (published_row env jcast fp s
        (case find_published d name of None \<Rightarrow> False | Some ty \<Rightarrow> ty_paused ty)))"
  using assms
proof (induction ss arbitrary: d)
  case (Cons s ss)
  then obtain d1 old where pub: "store_publish_task_type env jcast fp s d = Inr (d1, old)"
    "publish_all env jcast fp ss d1 = Inr d'" by (auto simp: bind_result_Inr_iff)
  have ih: "find_published d' name = (case find_row (\<lambda>s. sp_name s = name) ss of
      None \<Rightarrow> find_published d1 name
    | Some s \<Rightarrow> Some (published_row env jcast fp s
        (case find_published d1 name of None \<Rightarrow> False | Some ty \<Rightarrow> ty_paused ty)))"
    using Cons.IH [OF pub(2)] Cons.prems(2) by simp
  show ?case
  proof (cases "name = sp_name s")
    case True
    have "sp_name r \<noteq> name" if "r \<in> set ss" for r
      using that True Cons.prems(2) by (metis distinct.simps(2) image_eqI list.set_map list.simps(9))
    then have "find_row (\<lambda>s. sp_name s = name) ss = None"
      by (simp add: find_row_None_iff)
    then show ?thesis using ih find_published_publish [OF pub(1), of name] True by simp
  next
    case False
    then have "sp_name s \<noteq> name" by simp
    then show ?thesis using ih find_published_publish [OF pub(1), of name] False by (simp cong: option.case_cong)
  qed
qed simp

lemma publish_all_inv:
  "publish_all env jcast fp ss d = Inr d' \<Longrightarrow> db_inv d \<Longrightarrow> \<forall>s \<in> set ss. policy_ok (sp_policy s) \<Longrightarrow> db_inv d'"
  by (induction ss arbitrary: d) (auto simp: bind_result_Inr_iff intro: db_inv_publish_task_type)

lemma probe_plan_covers:
  "sandbox_identity ` set (probe_plan probed ss) \<union> sandbox_identity ` set probed
     = sandbox_identity ` set ss \<union> sandbox_identity ` set probed
   \<and> distinct (map sandbox_identity (probe_plan probed ss))
   \<and> sandbox_identity ` set (probe_plan probed ss) \<inter> sandbox_identity ` set probed = {}"
  by (induction probed ss rule: probe_plan.induct) auto

section \<open>Shutdown and exit status\<close>

definition EXIT_FATAL :: int where "EXIT_FATAL = 70"
definition EXIT_LOOP_FAILED :: int where "EXIT_LOOP_FAILED = 71"

record control =
  wc_signals :: nat
  wc_immediate :: bool
  wc_stopping :: bool
  wc_wake :: bool
  wc_exit :: int

definition new_control :: control where
  "new_control = \<lparr>wc_signals = 0, wc_immediate = False, wc_stopping = False, wc_wake = False, wc_exit = 0\<rparr>"

definition request_shutdown :: "control \<Rightarrow> control" where
  "request_shutdown c = c\<lparr>wc_signals := wc_signals c + 1,
     wc_immediate := wc_immediate c \<or> wc_signals c + 1 > 1, wc_stopping := True, wc_wake := True\<rparr>"

text \<open>The exit status that \<open>_attempt_done\<close> and \<open>_loop_ended\<close> set, and the shutdown they request.\<close>

definition shutdown_once :: "control \<Rightarrow> control" where
  "shutdown_once c = (if wc_stopping c then c else request_shutdown c)"

definition attempt_done :: "bool \<Rightarrow> control \<Rightarrow> control" where
  "attempt_done fatal c =
     (if fatal then shutdown_once (c\<lparr>wc_exit := EXIT_FATAL\<rparr>) else c)\<lparr>wc_wake := True\<rparr>"

datatype loop_end = LoopCancelled | LoopReturned | LoopDied

definition loop_ended :: "loop_end \<Rightarrow> control \<Rightarrow> control" where
  "loop_ended e c = (if e \<noteq> LoopDied then c
     else shutdown_once (if wc_exit c = 0 then c\<lparr>wc_exit := EXIT_LOOP_FAILED\<rparr> else c))"

text \<open>\<open>_serve\<close> when it is cancelled or fails: like an immediate shutdown.\<close>

definition serve_failed :: "control \<Rightarrow> control" where
  "serve_failed c = c\<lparr>wc_stopping := True, wc_immediate := True, wc_wake := True\<rparr>"

datatype control_event = Signal | AttemptDone bool | LoopEnded loop_end | ServeFailed | WakeCleared

fun control_step :: "control \<Rightarrow> control_event \<Rightarrow> control" where
  "control_step c Signal = request_shutdown c"
| "control_step c (AttemptDone fatal) = attempt_done fatal c"
| "control_step c (LoopEnded e) = loop_ended e c"
| "control_step c ServeFailed = serve_failed c"
| "control_step c WakeCleared = c\<lparr>wc_wake := False\<rparr>"

definition run_control :: "control_event list \<Rightarrow> control" where
  "run_control es = foldl control_step new_control es"

lemmas control_defs = request_shutdown_def shutdown_once_def attempt_done_def loop_ended_def serve_failed_def
  EXIT_FATAL_def EXIT_LOOP_FAILED_def

lemma run_control_snoc [simp]:
  "run_control [] = new_control" "run_control (es @ [e]) = control_step (run_control es) e"
  by (simp_all add: run_control_def)

definition stop_event :: "control_event \<Rightarrow> bool" where
  "stop_event e \<longleftrightarrow> e \<in> {Signal, AttemptDone True, LoopEnded LoopDied, ServeFailed}"

lemma run_control_exit:
  "wc_exit (run_control es) = (if AttemptDone True \<in> set es then 70 else if LoopEnded LoopDied \<in> set es then 71 else 0)"
proof (induction es rule: rev_induct)
  case (snoc e es)
  then show ?case by (cases e) (auto simp: control_defs)
qed (simp add: new_control_def)

lemma run_control_stopping:
  "wc_stopping (run_control es) \<longleftrightarrow> (\<exists>e \<in> set es. stop_event e)"
proof (induction es rule: rev_induct)
  case (snoc e es)
  then show ?case by (cases e) (auto simp: control_defs stop_event_def)
qed (simp add: new_control_def)

text \<open>One internal failure is one shutdown request: only an operator's signal makes it immediate.\<close>

lemma run_control_immediate:
  "ServeFailed \<notin> set es \<Longrightarrow> Signal \<notin> set es \<Longrightarrow> \<not> wc_immediate (run_control es) \<and> wc_signals (run_control es) \<le> 1
    \<and> (wc_signals (run_control es) = 1 \<longrightarrow> wc_stopping (run_control es))"
proof (induction es rule: rev_induct)
  case (snoc e es)
  then show ?case by (cases e) (auto simp: control_defs le_Suc_eq)
qed (simp add: new_control_def)

section \<open>The watchdog\<close>

text \<open>The stalls it observes, one per tick; the result is the observation it aborts at.\<close>

fun watchdog :: "rat \<Rightarrow> nat \<Rightarrow> rat list \<Rightarrow> nat option" where
  "watchdog lease stalls [] = None"
| "watchdog lease stalls (x # xs) =
     (let n = (if x > lease then stalls + 1 else 0)
      in if n \<ge> 2 then Some 0 else map_option Suc (watchdog lease n xs))"

text \<open>\<open>p\<close> is the observation before the list: the watchdog aborts at the first of two in a row.\<close>

lemma watchdog_iff:
  "watchdog lease (if p > lease then 1 else 0) xs = Some i \<longleftrightarrow> i < length xs \<and> xs ! i > lease \<and> (p # xs) ! i > lease
     \<and> (\<forall>j < i. \<not> (xs ! j > lease \<and> (p # xs) ! j > lease))"
proof (induction xs arbitrary: p i)
  case (Cons x xs)
  show ?case
  proof (cases "x > lease \<and> p > lease")
    case True
    then show ?thesis by (cases i) auto
  next
    case False
    then have "watchdog lease (if p > lease then 1 else 0) (x # xs)
        = map_option Suc (watchdog lease (if x > lease then 1 else 0) xs)" by auto
    with False Cons.IH [of x] show ?thesis by (cases i) (auto simp: All_less_Suc2)
  qed
qed simp

section \<open>Draining\<close>

text \<open>
  \<open>_wait_all\<close>: each entry is the clock and the immediate flag when the loop looks, and the tasks
  that finish before it looks again. The result is what is left when it returns.
\<close>

fun wait_all :: "rat option \<Rightarrow> bool \<Rightarrow> (rat \<times> bool \<times> int list) list \<Rightarrow> int list \<Rightarrow> int list option" where
  "wait_all deadline stop [] left = None"
| "wait_all deadline stop ((now, immediate, finished) # es) left =
     (if left = [] \<or> (stop \<and> immediate) then Some left
      else if (case deadline of None \<Rightarrow> False | Some t \<Rightarrow> t - now \<le> 0) then Some left
      else wait_all deadline stop es (filter (\<lambda>i. i \<notin> set finished) left))"

definition stop_budget_s :: "settings \<Rightarrow> rat" where
  "stop_budget_s s = grace_s s + 6 * kill_timeout_s s + 1"

datatype drain_act = WaitAll "rat option" bool | StopAll cause | CancelAll

text \<open>
  \<open>_drain\<close>: \<open>pend k\<close> says whether attempts are left at its \<open>k\<close>-th look, \<open>imm k\<close> whether an immediate
  shutdown has been requested then.
\<close>

definition drain :: "settings \<Rightarrow> (nat \<Rightarrow> bool) \<Rightarrow> (nat \<Rightarrow> bool) \<Rightarrow> drain_act list" where
  "drain s pend imm =
     (if pend 0 \<and> \<not> imm 0 then [WaitAll (Some (grace_s s)) True] else [])
     @ [StopAll Shutdown]
     @ (if \<not> pend 1 then []
        else (if \<not> imm 1 then [WaitAll None True] else [])
           @ (if pend 2 then [WaitAll (Some (stop_budget_s s)) False] else [])
           @ (if pend 3 then [CancelAll, WaitAll (Some (stop_budget_s s)) False] else []))"

lemma wait_all_unbounded:
  "wait_all None True es left = Some rest \<Longrightarrow> rest = [] \<or> (\<exists>e \<in> set es. fst (snd e))"
  by (induction "None :: rat option" True es left rule: wait_all.induct) (auto split: if_splits)

lemma wait_all_subset: "wait_all deadline stop es left = Some rest \<Longrightarrow> set rest \<subseteq> set left"
  by (induction deadline stop es left rule: wait_all.induct) (fastforce split: if_splits)+

text \<open>
  Attempts are cut loose only after an immediate shutdown: the unbounded wait ends with nothing
  left or with the second signal.
\<close>

lemma drain_cancels:
  assumes "CancelAll \<in> set (drain s pend imm)" "pend 3 \<longrightarrow> pend 2"
    "pend 2 \<and> \<not> imm 1 \<longrightarrow> wait_all None True es left = Some rest \<and> rest \<noteq> []"
  shows "imm 1 \<or> (\<exists>e \<in> set es. fst (snd e))"
  using assms wait_all_unbounded [of es left rest] by (auto simp: drain_def split: if_splits)

section \<open>Notifications\<close>

text \<open>
  \<open>_on_notify\<close>: a wake notice sets the wake event; a cancel notice only asks for a renewal of that
  attempt. \<open>si\<close> is \<open>int(text)\<close>.
\<close>

definition on_notify :: "(ustr \<Rightarrow> exn + int) \<Rightarrow> ustr list \<Rightarrow> ustr \<Rightarrow> ustr \<Rightarrow> attempt list
     \<Rightarrow> bool \<times> bool \<times> attempt list" where
  "on_notify si types channel payload atts =
     (if channel = lit ''fronta_wake'' then (payload = [] \<or> payload \<in> set types, False, atts)
      else if channel = lit ''fronta_cancel'' then
        (case si payload of
           Inl _ \<Rightarrow> (False, False, atts)
         | Inr i \<Rightarrow> (False, i \<in> at_id ` set atts,
             map (\<lambda>a. if at_id a = i then a\<lparr>at_requested := True\<rparr> else a) atts))
      else (False, False, atts))"

lemma on_notify_frame:
  assumes "on_notify si types channel payload atts = (wake, renew_now, atts')"
  shows "map at_cause atts' = map at_cause atts" "map at_id atts' = map at_id atts" "map at_token atts' = map at_token atts"
    "map at_renewed atts' = map at_renewed atts"
  using assms by (auto simp: on_notify_def split: if_splits sum.splits)

lemma renew_attempts_origin:
  assumes "renew_attempts s started (\<lambda>_. if confirmed then Some beats else None) batch atts = (atts', ok)"
    "a' \<in> set atts'"
  shows "\<exists>b \<in> set atts. at_id b = at_id a' \<and> (a' = b \<or> a' = stop_attempt Lost b
    \<or> (renewable s started batch b \<and> filter (renewable s started batch) atts \<noteq> []
       \<and> a' = apply_beat started beats b))"
proof -
  define live where "live = filter (renewable s started batch) atts"
  define f where "f = (\<lambda>b. if live \<noteq> [] \<and> confirmed \<and> renewable s started batch b then apply_beat started beats b
    else if at_id b \<in> set batch \<and> out_of_lease s started b then stop_attempt Lost b else b)"
  have "fst (renew_attempts s started (\<lambda>_. if confirmed then Some beats else None) batch atts) = map f atts"
    by (cases "live = []"; cases confirmed) (simp_all add: renew_attempts_def Let_def f_def flip: live_def)
  then have "atts' = map f atts" by (simp add: assms(1))
  then obtain b where b: "b \<in> set atts" "a' = f b" using assms(2) by auto
  then have "at_id b = at_id a' \<and> (a' = b \<or> a' = stop_attempt Lost b
    \<or> (renewable s started batch b \<and> live \<noteq> [] \<and> a' = apply_beat started beats b))"
    by (simp add: f_def)
  with b(1) show ?thesis unfolding live_def by blast
qed

text \<open>Only the durable flag of the row that carries the attempt's own token cancels it.\<close>

lemma cancelled_by_flag:
  assumes dist: "distinct (map at_id atts)" and a: "a \<in> set atts" "at_cause a = None"
    and beat: "store_heartbeat env (map (\<lambda>a. (at_id a, at_token a)) (filter (renewable s started batch) atts)) (lease_s s) d
      = Inr (d', beats)"
    and run: "renew_attempts s started (\<lambda>_. if confirmed then Some beats else None) batch atts = (atts', ok)"
    and c: "a' \<in> set atts'" "at_id a' = at_id a" "at_cause a' = Some CancelRequested"
  shows "\<exists>r \<in> set (tasks d). t_id r = at_id a \<and> t_token r = Some (at_token a) \<and> t_state r = Running \<and> t_cancel_at r \<noteq> None"
proof -
  let ?live = "filter (renewable s started batch) atts"
  let ?rs = "map (\<lambda>a. (at_id a, at_token a)) ?live"
  have uniq: "b = a" if "b \<in> set atts" "at_id b = at_id a" for b by (rule key_unique [OF dist that(1) a(1) that(2)])
  have no_mark: "at_cause (stop_attempt Lost a) \<noteq> Some CancelRequested" using a(2) by (simp add: stop_attempt_def stop_cause_def)
  have "renewable s started batch a \<and> at_cause (apply_beat started beats a) = Some CancelRequested \<and> ?live \<noteq> []"
  proof -
    have "\<exists>b \<in> set atts. at_id b = at_id a' \<and> (a' = b \<or> a' = stop_attempt Lost b
        \<or> (renewable s started batch b \<and> ?live \<noteq> [] \<and> a' = apply_beat started beats b))"
      using c(1) by (rule renew_attempts_origin [OF run])
    then obtain b where b: "b \<in> set atts" "at_id b = at_id a'" "a' = b \<or> a' = stop_attempt Lost b
        \<or> (renewable s started batch b \<and> ?live \<noteq> [] \<and> a' = apply_beat started beats b)" by blast
    have "b = a" using uniq b(1,2) c(2) by simp
    with b(3) c(3) a(2) no_mark show ?thesis by auto
  qed
  then obtain flag where flag: "map_of beats (at_id a) = Some flag" "flag \<noteq> None" and live: "a \<in> set ?live" "?live \<noteq> []"
    using a no_mark by (auto simp: apply_beat_def Let_def split: option.splits if_splits)
  have "beats = map (\<lambda>r. (t_id r, t_cancel_at r)) (returning (heartbeat_guard ?rs) (heartbeat_upd env (lease_s s)) (tasks d))"
    using beat live(2) by (auto simp: store_heartbeat_def split: if_splits)
  with map_of_SomeD [OF flag(1)] obtain r where r: "r \<in> set (tasks d)" "heartbeat_guard ?rs r" "t_id r = at_id a" "t_cancel_at r = flag"
    by (auto simp: set_returning heartbeat_upd_def)
  then obtain b where b: "b \<in> set ?live" "at_id b = t_id r" "t_token r = Some (at_token b)" "t_state r = Running"
    by (auto simp: heartbeat_guard_def)
  have "b = a" using uniq b(1,2) r(3) by auto
  with b r flag(2) show ?thesis by auto
qed

end
