(* ===== verification/Hints.thy ===== *)
theory Hints
  imports Database Codec Config
begin

text \<open>
  \<open>hints.py\<close>: best-effort notifications sent outside the task commits. A load is what one
  transaction carries: the wake types, cancelled ids and feed states the sender took over. The
  sender task is a machine whose states are its suspension points: waiting for \<open>_ready\<close>,
  inside the transaction, and sleeping after a failure. Python sets are duplicate-free lists.
\<close>

section \<open>Notices\<close>

record load =
  l_wake :: "ustr list"
  l_cancel :: "int list"
  l_feed :: "ustr list"

definition no_load :: load where
  "no_load = \<lparr>l_wake = [], l_cancel = [], l_feed = []\<rparr>"

definition load_join :: "load \<Rightarrow> load \<Rightarrow> load" where
  "load_join a b = \<lparr>l_wake = List.union (l_wake b) (l_wake a), l_cancel = List.union (l_cancel b) (l_cancel a),
     l_feed = List.union (l_feed b) (l_feed a)\<rparr>"

datatype hint = WakeHint ustr | CancelHint int | FeedHint ustr

definition hints_of :: "load \<Rightarrow> hint set" where
  "hints_of l = WakeHint ` set (l_wake l) \<union> CancelHint ` set (l_cancel l) \<union> FeedHint ` set (l_feed l)"

definition notices_of :: "load \<Rightarrow> (ustr \<times> ustr) list" where
  "notices_of l = map (Pair (lit ''fronta_wake'')) (l_wake l)
     @ map (\<lambda>i. (lit ''fronta_cancel'', dec_int i)) (l_cancel l)
     @ (if l_feed l = [] then [] else [(lit ''fronta_feed'', commas (sort (l_feed l)))])"

text \<open>
  The \<open>pg_notify\<close> statement of \<open>_send\<close>: a feed notice goes out, without its payload, if a
  subscription of the table wants one of its states; \<open>string_to_array(p, ',')\<close> is the
  split at commas.
\<close>

definition feed_wanted :: "sub_row list \<Rightarrow> ustr \<Rightarrow> bool" where
  "feed_wanted subs p \<longleftrightarrow> (\<exists>s \<in> set subs. \<exists>st \<in> set (s_states s). state_value st \<in> set (split_on 44 p))"

definition send_notices :: "sub_row list \<Rightarrow> (ustr \<times> ustr) list \<Rightarrow> (ustr \<times> ustr) list" where
  "send_notices subs ns =
     map (\<lambda>(c, p). (c, if c = lit ''fronta_feed'' then [] else p))
       (filter (\<lambda>(c, p). c \<noteq> lit ''fronta_feed'' \<or> feed_wanted subs p) ns)"

section \<open>The sender\<close>

datatype sender =
    SNoTask
  | SWaiting rat
  | SSending load rat
  | SSleeping rat
  | SFinished

record hints =
  hn_pending :: load
  hn_sender :: sender
  hn_ready :: bool
  hn_closing :: bool

definition new_hints :: hints where
  "new_hints = \<lparr>hn_pending = no_load, hn_sender = SNoTask, hn_ready = False, hn_closing = False\<rparr>"

definition schedule :: "hints \<Rightarrow> hints" where
  "schedule h = h\<lparr>hn_ready := True,
     hn_sender := (if hn_sender h \<in> {SNoTask, SFinished} then SWaiting (1 / 10) else hn_sender h)\<rparr>"

text \<open>
  Requests, and what happens at the suspension points: the task resumes from its wait or its
  sleep, the transaction commits, fails with \<open>psycopg.Error\<close> or \<open>OSError\<close>, or raises
  anything else; \<open>close\<close> begins, and ends with the task cancelled (after it returned, after
  five seconds, or at once). \<open>None\<close>: the event cannot happen in this state.
\<close>

datatype hint_event =
    HWake "ustr list"
  | HCancel "int list"
  | HFeed "ustr list"
  | HResumed
  | HCommitted
  | HFailed
  | HRaised
  | HCloseBegun
  | HCloseEnded

fun hints_step :: "hint_event \<Rightarrow> hints \<Rightarrow> hints option" where
  "hints_step (HWake types) h =
     Some (schedule (h\<lparr>hn_pending := (hn_pending h)\<lparr>l_wake := List.union types (l_wake (hn_pending h))\<rparr>\<rparr>))"
| "hints_step (HCancel ids) h =
     Some (schedule (h\<lparr>hn_pending := (hn_pending h)\<lparr>l_cancel := List.union ids (l_cancel (hn_pending h))\<rparr>\<rparr>))"
| "hints_step (HFeed states) h =
     Some (schedule (h\<lparr>hn_pending := (hn_pending h)\<lparr>l_feed := List.union states (l_feed (hn_pending h))\<rparr>\<rparr>))"
| "hints_step HResumed h = (case hn_sender h of
     SWaiting delay \<Rightarrow>
       (if \<not> hn_ready h then None
        else if hn_closing h \<and> hn_pending h = no_load
          then Some (h\<lparr>hn_ready := False, hn_sender := SFinished\<rparr>)
        else Some (h\<lparr>hn_ready := False, hn_pending := no_load, hn_sender := SSending (hn_pending h) delay\<rparr>))
   | SSleeping delay \<Rightarrow> Some (h\<lparr>hn_sender := SWaiting (min 1 (delay * 2))\<rparr>)
   | _ \<Rightarrow> None)"
| "hints_step HCommitted h = (case hn_sender h of
     SSending l delay \<Rightarrow> Some (h\<lparr>hn_sender := SWaiting (1 / 10), hn_ready := hn_ready h \<or> hn_closing h\<rparr>)
   | _ \<Rightarrow> None)"
| "hints_step HFailed h = (case hn_sender h of
     SSending l delay \<Rightarrow>
       Some (h\<lparr>hn_pending := load_join (hn_pending h) l, hn_ready := True, hn_sender := SSleeping delay\<rparr>)
   | _ \<Rightarrow> None)"
| "hints_step HRaised h = (case hn_sender h of
     SSending l delay \<Rightarrow> Some (h\<lparr>hn_sender := SFinished\<rparr>)
   | _ \<Rightarrow> None)"
| "hints_step HCloseBegun h = Some (h\<lparr>hn_closing := True, hn_ready := True\<rparr>)"
| "hints_step HCloseEnded h =
     (if hn_closing h
      then Some (h\<lparr>hn_sender := (if hn_sender h = SNoTask then SNoTask else SFinished), hn_pending := no_load\<rparr>)
      else None)"

definition in_flight :: "hints \<Rightarrow> load" where
  "in_flight h = (case hn_sender h of SSending l _ \<Rightarrow> l | _ \<Rightarrow> no_load)"

text \<open>A history: the final state and the loads whose transactions committed.\<close>

fun run_hints :: "hint_event list \<Rightarrow> hints \<Rightarrow> (hints \<times> load list) option" where
  "run_hints [] h = Some (h, [])"
| "run_hints (e # es) h = (case hints_step e h of
     None \<Rightarrow> None
   | Some h1 \<Rightarrow> (case run_hints es h1 of
       None \<Rightarrow> None
     | Some (h2, sent) \<Rightarrow> Some (h2, (if e = HCommitted then [in_flight h] else []) @ sent)))"

fun requested :: "hint_event \<Rightarrow> hint set" where
  "requested (HWake types) = WakeHint ` set types"
| "requested (HCancel ids) = CancelHint ` set ids"
| "requested (HFeed states) = FeedHint ` set states"
| "requested _ = {}"

fun harmless :: "hint_event \<Rightarrow> bool" where
  "harmless HRaised \<longleftrightarrow> False"
| "harmless HCloseEnded \<longleftrightarrow> False"
| "harmless _ \<longleftrightarrow> True"

section \<open>Conservation\<close>

lemma hints_of_no_load [simp]: "hints_of no_load = {}"
  by (simp add: hints_of_def no_load_def)

lemma hints_of_join [simp]: "hints_of (load_join a b) = hints_of a \<union> hints_of b"
  by (auto simp: hints_of_def load_join_def)

lemma hints_of_empty: "hints_of l = {} \<longleftrightarrow> l = no_load"
  by (cases l) (auto simp: hints_of_def no_load_def)

lemma hints_of_add [simp]:
  "hints_of (l\<lparr>l_wake := List.union ts (l_wake l)\<rparr>) = WakeHint ` set ts \<union> hints_of l"
  "hints_of (l\<lparr>l_cancel := List.union is' (l_cancel l)\<rparr>) = CancelHint ` set is' \<union> hints_of l"
  "hints_of (l\<lparr>l_feed := List.union ts (l_feed l)\<rparr>) = FeedHint ` set ts \<union> hints_of l"
  by (auto simp: hints_of_def)

lemma schedule_frame [simp]:
  "hn_pending (schedule h) = hn_pending h" "hn_closing (schedule h) = hn_closing h"
  "in_flight (schedule h) = in_flight h" "hn_ready (schedule h)"
  by (auto simp: schedule_def in_flight_def)

lemma in_flight_pending [simp]: "in_flight (h\<lparr>hn_pending := l\<rparr>) = in_flight h"
  by (simp add: in_flight_def)

text \<open>
  While hints are pending the event is set and a task is there to take them; a closing sender is
  never left waiting for an event nobody will set; the pause between attempts stays in bounds.
\<close>

definition hints_inv :: "hints \<Rightarrow> bool" where
  "hints_inv h \<longleftrightarrow>
     (hn_pending h \<noteq> no_load \<longrightarrow> hn_ready h \<and> hn_sender h \<notin> {SNoTask, SFinished})
     \<and> (case hn_sender h of
          SWaiting d \<Rightarrow> (hn_closing h \<longrightarrow> hn_ready h) \<and> 1 / 10 \<le> d \<and> d \<le> 1
        | SSending _ d \<Rightarrow> 1 / 10 \<le> d \<and> d \<le> 1
        | SSleeping d \<Rightarrow> hn_ready h \<and> 1 / 10 \<le> d \<and> d \<le> 1
        | _ \<Rightarrow> True)"

lemma hints_inv_new: "hints_inv new_hints"
  by (simp add: hints_inv_def new_hints_def)

lemma hints_inv_schedule:
  "hints_inv h \<Longrightarrow> hints_inv (schedule (h\<lparr>hn_pending := l\<rparr>))"
  by (cases "hn_sender h") (auto simp: hints_inv_def schedule_def)

lemma hints_inv_step:
  assumes "hints_step e h = Some h'" "hints_inv h" "e \<noteq> HRaised"
  shows "hints_inv h'"
proof (cases "\<exists>xs ys zs. e = HWake xs \<or> e = HCancel ys \<or> e = HFeed zs")
  case True
  then show ?thesis using assms(1,2) by (auto simp: hints_inv_schedule)
next
  case False
  then show ?thesis using assms
    by (cases e; cases "hn_sender h") (auto simp: hints_inv_def split: if_splits)
qed

lemma hints_conserved_step:
  assumes "hints_step e h = Some h'" "harmless e" "hints_inv h"
  shows "requested e \<union> hints_of (hn_pending h) \<union> hints_of (in_flight h)
    = (if e = HCommitted then hints_of (in_flight h) else {}) \<union> hints_of (hn_pending h') \<union> hints_of (in_flight h')"
proof (cases e)
  case HResumed
  then show ?thesis using assms by (cases "hn_sender h") (auto simp: in_flight_def split: if_splits)
next
  case HCommitted
  then show ?thesis using assms by (cases "hn_sender h") (auto simp: in_flight_def)
next
  case HFailed
  then show ?thesis using assms by (cases "hn_sender h") (auto simp: in_flight_def)
next
  case HRaised
  then show ?thesis using assms by simp
next
  case HCloseBegun
  then show ?thesis using assms by (auto simp: in_flight_def)
qed (use assms in auto)

lemma union_chain:
  assumes "R \<union> P \<union> F = C \<union> P1 \<union> F1" "Rs \<union> P1 \<union> F1 = S1 \<union> P2 \<union> F2"
  shows "(R \<union> Rs) \<union> P \<union> F = (C \<union> S1) \<union> P2 \<union> F2"
  using assms by blast

text \<open>Nothing requested is lost, and nothing else is sent.\<close>

lemma run_hints_conserved:
  assumes "run_hints es h = Some (h', sent)" "list_all harmless es" "hints_inv h"
  shows "hints_inv h' \<and> (\<Union>e \<in> set es. requested e) \<union> hints_of (hn_pending h) \<union> hints_of (in_flight h)
    = (\<Union>l \<in> set sent. hints_of l) \<union> hints_of (hn_pending h') \<union> hints_of (in_flight h')"
  using assms
proof (induction es arbitrary: h sent)
  case (Cons e es)
  obtain h1 sent1 where 1: "hints_step e h = Some h1" "run_hints es h1 = Some (h', sent1)"
    "sent = (if e = HCommitted then [in_flight h] else []) @ sent1"
    using Cons.prems(1) by (auto split: option.splits)
  have e: "harmless e" "e \<noteq> HRaised" using Cons.prems(2) by auto
  have inv: "hints_inv h1" by (rule hints_inv_step [OF 1(1) Cons.prems(3) e(2)])
  have all: "list_all harmless es" using Cons.prems(2) by simp
  have rest: "hints_inv h' \<and> (\<Union>e \<in> set es. requested e) \<union> hints_of (hn_pending h1) \<union> hints_of (in_flight h1)
    = (\<Union>l \<in> set sent1. hints_of l) \<union> hints_of (hn_pending h') \<union> hints_of (in_flight h')"
    by (rule Cons.IH [OF 1(2) all inv])
  have sent: "(\<Union>l \<in> set sent. hints_of l) = (if e = HCommitted then hints_of (in_flight h) else {}) \<union> (\<Union>l \<in> set sent1. hints_of l)"
    by (simp add: 1(3))
  have req: "(\<Union>e \<in> set (e # es). requested e) = requested e \<union> (\<Union>e \<in> set es. requested e)" by simp
  show ?case
    unfolding sent req
    by (rule conjI [OF conjunct1 [OF rest]
        union_chain [OF hints_conserved_step [OF 1(1) e(1) Cons.prems(3)] conjunct2 [OF rest]]])
qed auto

text \<open>From any such state the sender needs at most one failure-free transaction more.\<close>

definition finish_events :: "hints \<Rightarrow> hint_event list" where
  "finish_events h = (case hn_sender h of
     SWaiting _ \<Rightarrow> [HResumed, HCommitted]
   | SSleeping _ \<Rightarrow> [HResumed, HResumed, HCommitted]
   | SSending _ _ \<Rightarrow> [HCommitted, HResumed, HCommitted]
   | _ \<Rightarrow> [])"

lemma hints_flush:
  assumes "hints_inv h" "hn_pending h \<noteq> no_load"
  shows "\<exists>h' sent. run_hints (finish_events h) h = Some (h', sent) \<and> hn_pending h' = no_load \<and> in_flight h' = no_load
    \<and> (\<Union>l \<in> set sent. hints_of l) = hints_of (hn_pending h) \<union> hints_of (in_flight h)"
  using assms by (cases "hn_sender h") (auto simp: hints_inv_def finish_events_def in_flight_def)

text \<open>A closing sender whose writes succeed returns, having sent everything.\<close>

lemma hints_close:
  assumes "hints_inv h" "hn_closing h" "hn_sender h = SWaiting d"
  shows "\<exists>h' sent. run_hints (if hn_pending h = no_load then [HResumed] else [HResumed, HCommitted, HResumed]) h = Some (h', sent)
    \<and> hn_sender h' = SFinished \<and> (\<Union>l \<in> set sent. hints_of l) = hints_of (hn_pending h)"
  using assms by (auto simp: hints_inv_def in_flight_def)

section \<open>Which notices go out\<close>

lemma split_commas:
  "xs \<noteq> [] \<Longrightarrow> \<forall>x \<in> set xs. 44 \<notin> set x \<Longrightarrow> split_on 44 (commas xs) = xs"
  by (induction xs rule: commas.induct) (auto simp: split_on_append split_on_single)

lemma state_value_comma: "44 \<notin> set (state_value st)"
  by (cases st) (auto simp: lit_def)

text \<open>A feed notice goes out exactly if some subscription covers one of the hinted states.\<close>

lemma send_notices_feed:
  assumes "\<forall>p \<in> set (l_feed l). \<exists>st. p = state_value st"
  shows "(lit ''fronta_feed'', []) \<in> set (send_notices subs (notices_of l))
    \<longleftrightarrow> (\<exists>s \<in> set subs. \<exists>st \<in> set (s_states s). state_value st \<in> set (l_feed l))"
proof (cases "l_feed l = []")
  case True
  then show ?thesis by (auto simp: send_notices_def notices_of_def)
next
  case False
  then have "split_on 44 (commas (sort (l_feed l))) = sort (l_feed l)"
    using assms state_value_comma by (intro split_commas) (auto simp: simp flip: set_empty)
  then have "feed_wanted subs (commas (sort (l_feed l)))
      \<longleftrightarrow> (\<exists>s \<in> set subs. \<exists>st \<in> set (s_states s). state_value st \<in> set (l_feed l))"
    by (simp add: feed_wanted_def)
  then show ?thesis using False by (auto simp: send_notices_def notices_of_def)
qed

lemma send_notices_other:
  "c \<noteq> lit ''fronta_feed'' \<Longrightarrow> (c, p) \<in> set (send_notices subs ns) \<longleftrightarrow> (c, p) \<in> set ns"
  by (fastforce simp: send_notices_def image_iff)

end
