(* ===== verification/TaskDefs.thy ===== *)
theory TaskDefs
  imports Enqueue Transitions Catalog Truncate Hints
begin

text \<open>
  \<open>definitions.py\<close>: task definitions, the encoding of inputs with its round-trip check, and the
  SDK operations. A Pydantic model class is its documented interface: \<open>model_validate\<close>,
  \<open>model_dump\<close> of an instance, \<open>model_validate_json\<close> and the schema it publishes; for a result
  model also the JSON Schema validator built from it.
\<close>

section \<open>Models and definitions\<close>

type_synonym pyobj = "heap \<times> pyval"

record 'm input_api =
  ia_validate :: "pyobj \<Rightarrow> exn + 'm"
  ia_dump :: "'m \<Rightarrow> exn + pyobj"
  ia_load :: "ustr \<Rightarrow> exn + 'm"
  ia_schema :: json

record 'v output_api =
  oa_dump :: "'v \<Rightarrow> exn + pyobj"
  oa_check :: "pyobj \<Rightarrow> exn + unit"
  oa_schema :: json

record ('m, 'v) task_def =
  td_name :: ustr
  td_input :: "'m input_api"
  td_output :: "'v output_api option"
  td_policy :: policy
  td_process :: "(ustr list \<times> sandbox) option"

text \<open>\<open>_seconds\<close>: a duration or what \<open>float\<close> takes; \<open>sf\<close> is \<open>float\<close> of a text.\<close>

datatype span = Delta rat | Number scalar

fun seconds :: "(ustr \<Rightarrow> exn + pyfloat) \<Rightarrow> span \<Rightarrow> exn + scalar" where
  "seconds sf (Delta t) = Inr (SFloat (Fin t))"
| "seconds sf (Number (SBool b)) = Inr (SFloat (Fin (of_bool b)))"
| "seconds sf (Number (SInt i)) =
     (if \<bar>i\<bar> \<ge> FLOAT_OVERFLOW then Inl OverflowError else Inr (SFloat (Fin (of_int i))))"
| "seconds sf (Number (SFloat x)) = Inr (SFloat x)"
| "seconds sf (Number (SStr s)) = map_sum id SFloat (sf s)"
| "seconds sf (Number SNone) = Inl TypeError"

definition def_policy :: "(ustr \<Rightarrow> exn + pyfloat) \<Rightarrow> scalar \<Rightarrow> span \<Rightarrow> backoff option \<Rightarrow> scalar \<Rightarrow> scalar \<Rightarrow> exn + policy" where
  "def_policy sf attempts timeout backoff conc conc_key = bind_result (seconds sf timeout) (\<lambda>t.
     mk_policy attempts t (case backoff of None \<Rightarrow> default_backoff | Some b \<Rightarrow> b) conc conc_key)"

text \<open>The constructors of the two definition classes: a process needs a command before its name is checked.\<close>

definition mk_definition :: "ustr \<Rightarrow> 'm input_api \<Rightarrow> 'v output_api option \<Rightarrow> policy \<Rightarrow> exn + ('m, 'v) task_def" where
  "mk_definition name input output p = bind_result (check_name name) (\<lambda>_.
     Inr \<lparr>td_name = name, td_input = input, td_output = output, td_policy = p, td_process = None\<rparr>)"

definition mk_process_definition :: "ustr \<Rightarrow> ustr list \<Rightarrow> 'm input_api \<Rightarrow> policy \<Rightarrow> sandbox \<Rightarrow> exn + ('m, 'v) task_def" where
  "mk_process_definition name argv input p sb = (if argv = [] then Inl ValueError
     else bind_result (mk_definition name input None p) (\<lambda>td. Inr (td\<lparr>td_process := Some (argv, sb)\<rparr>)))"

text \<open>\<open>task\<close> and \<open>process_task\<close>: the policy is built before the definition checks its name.\<close>

definition new_task_def :: "(ustr \<Rightarrow> exn + pyfloat) \<Rightarrow> ustr \<Rightarrow> 'm input_api \<Rightarrow> 'v output_api option \<Rightarrow> scalar \<Rightarrow> span
     \<Rightarrow> backoff option \<Rightarrow> scalar \<Rightarrow> scalar \<Rightarrow> exn + ('m, 'v) task_def" where
  "new_task_def sf name input output attempts timeout backoff conc conc_key =
     bind_result (def_policy sf attempts timeout backoff conc conc_key) (mk_definition name input output)"

definition new_process_def :: "(ustr \<Rightarrow> exn + pyfloat) \<Rightarrow> ustr \<Rightarrow> ustr list \<Rightarrow> 'm input_api \<Rightarrow> sandbox option \<Rightarrow> scalar
     \<Rightarrow> span \<Rightarrow> backoff option \<Rightarrow> scalar \<Rightarrow> scalar \<Rightarrow> exn + ('m, 'v) task_def" where
  "new_process_def sf name argv input sb attempts timeout backoff conc conc_key =
     bind_result (def_policy sf attempts timeout backoff conc conc_key) (\<lambda>p.
       mk_process_definition name argv input p (case sb of None \<Rightarrow> default_sandbox | Some s \<Rightarrow> s))"

definition definition_spec :: "('m, 'v) task_def \<Rightarrow> task_type_spec" where
  "definition_spec td = \<lparr>sp_name = td_name td,
     sp_executor = (if td_process td = None then Asyncio else Process),
     sp_input_schema = ia_schema (td_input td), sp_output_schema = map_option oa_schema (td_output td),
     sp_policy = td_policy td\<rparr>"

section \<open>Inputs\<close>

datatype 'm task_input = Instance 'm | Plain pyobj

definition dump_input :: "'m input_api \<Rightarrow> 'm \<Rightarrow> exn + pyobj" where
  "dump_input api m = bind_result (ia_dump api m) (\<lambda>(h, v). case v of
     PyRef a \<Rightarrow> (case h a of Some (PyDict _) \<Rightarrow> Inr (h, v) | _ \<Rightarrow> Inl InvalidInput)
   | _ \<Rightarrow> Inl InvalidInput)"

text \<open>The handlers around the capped encoding, shared by inputs and metadata.\<close>

definition storage_error :: "exn \<Rightarrow> exn" where
  "storage_error e = (if e = OverCap then PayloadTooLarge
     else if e = Unstorable \<or> e = TypeError then InvalidInput else e)"

definition encode_model :: "(rat \<Rightarrow> ustr) \<Rightarrow> 'm input_api \<Rightarrow> 'm \<Rightarrow> int \<Rightarrow> exn + ustr" where
  "encode_model fr api m cap =
     map_sum storage_error id (bind_result (dump_input api m) (\<lambda>(h, v). encode_capped fr h v cap))"

text \<open>The second validation, of the text a worker will load.\<close>

definition survives :: "'m input_api \<Rightarrow> ustr \<Rightarrow> exn + ustr" where
  "survives api text = (case ia_load api text of
     Inr _ \<Rightarrow> Inr text
   | Inl e \<Rightarrow> Inl (if e = ValidationError then InvalidInput else e))"

definition encode_input :: "(rat \<Rightarrow> ustr) \<Rightarrow> 'm input_api \<Rightarrow> 'm task_input \<Rightarrow> int \<Rightarrow> exn + ustr" where
  "encode_input fr api inp cap =
     bind_result (case inp of Instance m \<Rightarrow> Inr m | Plain obj \<Rightarrow> ia_validate api obj) (\<lambda>m.
     bind_result (encode_model fr api m cap) (survives api))"

definition encode_metadata :: "(rat \<Rightarrow> ustr) \<Rightarrow> pyobj \<Rightarrow> int \<Rightarrow> exn + ustr option" where
  "encode_metadata fr obj cap = (case obj of (h, v) \<Rightarrow>
     if v = PyNone then Inr None else map_sum storage_error Some (encode_capped fr h v cap))"

section \<open>SDK operations\<close>

text \<open>
  The connection of \<open>enqueue_with\<close>: one of the SDK's own autocommit pool, or the caller's,
  with its autocommit flag and whether it is idle.
\<close>

datatype enqueue_conn = PoolConn | CallerConn bool bool

fun in_transaction :: "enqueue_conn \<Rightarrow> bool" where
  "in_transaction PoolConn \<longleftrightarrow> False"
| "in_transaction (CallerConn autocommit idle) \<longleftrightarrow> \<not> (autocommit \<and> idle)"

definition queued_hints :: "ustr \<Rightarrow> hint_event list" where
  "queued_hints ty = [HWake [ty], HFeed [state_value Queued]]"

definition prepared_task :: "(rat \<Rightarrow> ustr) \<Rightarrow> settings \<Rightarrow> ('m, 'v) task_def \<Rightarrow> 'm task_input \<Rightarrow> scalar
     \<Rightarrow> (time \<times> bool) option \<Rightarrow> ustr option \<Rightarrow> ustr option \<Rightarrow> pyobj \<Rightarrow> exn + new_task" where
  "prepared_task fr s td inp prio run_at key ckey md =
     bind_result (encode_input fr (td_input td) inp (payload_cap s)) (\<lambda>text.
     bind_result (encode_metadata fr md (progress_cap s)) (\<lambda>m.
       Inr \<lparr>n_type = td_name td, n_input = text, n_policy = td_policy td, n_priority = prio,
            n_run_at = run_at, n_key = key, n_ckey = ckey, n_metadata = m\<rparr>))"

text \<open>
  The result is paired with the hints scheduled after the commit. The arguments up to
  \<open>start\<close> are those of \<open>store_enqueue\<close>.
\<close>

definition enqueue_with ::
  "nat \<Rightarrow> (nat \<Rightarrow> pg) \<Rightarrow> (nat \<Rightarrow> db \<Rightarrow> db) \<Rightarrow> (nat \<Rightarrow> rat) \<Rightarrow> rat \<Rightarrow> (rat \<Rightarrow> ustr) \<Rightarrow> settings \<Rightarrow> ('m, 'v) task_def
     \<Rightarrow> enqueue_conn \<Rightarrow> 'm task_input \<Rightarrow> scalar \<Rightarrow> (time \<times> bool) option \<Rightarrow> ustr option \<Rightarrow> ustr option \<Rightarrow> pyobj \<Rightarrow> db
     \<Rightarrow> ((exn + db \<times> int \<times> (ustr \<times> ustr) list) \<times> hint_event list) option" where
  "enqueue_with fuel env others ticks start fr s td conn inp prio run_at key ckey md d =
     (case prepared_task fr s td inp prio run_at key ckey md of
        Inl e \<Rightarrow> Some (Inl e, [])
      | Inr nt \<Rightarrow>
          (case store_enqueue fuel env others ticks start (statement_timeout_s s) (in_transaction conn) nt d of
             None \<Rightarrow> None
           | Some (Inl e) \<Rightarrow> Some (Inl e, [])
           | Some (Inr r) \<Rightarrow> Some (Inr r, if in_transaction conn then [] else queued_hints (td_name td))))"

definition sdk_get_task :: "int \<Rightarrow> db \<Rightarrow> exn + task_row" where
  "sdk_get_task tid d = (case store_get_task d tid of None \<Rightarrow> Inl TaskNotFound | Some r \<Rightarrow> Inr r)"

definition sdk_set_paused :: "ustr \<Rightarrow> bool \<Rightarrow> db \<Rightarrow> exn + db \<times> hint_event list" where
  "sdk_set_paused ty paused d =
     bind_result (store_set_paused ty paused d) (\<lambda>d'. Inr (d', if paused then [] else [HWake [ty]]))"

definition sdk_requeue :: "pg \<Rightarrow> int \<Rightarrow> db \<Rightarrow> exn + db \<times> hint_event list" where
  "sdk_requeue env tid d = bind_result (store_requeue env tid d) (\<lambda>(d', ty). Inr (d', queued_hints ty))"

section \<open>What a worker reads back\<close>

text \<open>\<open>validate_input\<close> of \<open>executors.py\<close>, on the decoded column.\<close>

definition validate_input :: "(rat \<Rightarrow> ustr) \<Rightarrow> 'm input_api \<Rightarrow> task_row \<Rightarrow> exn + 'm" where
  "validate_input fr api r = (case bind_result (encode_tree fr (t_input r)) (ia_load api) of
     Inr m \<Rightarrow> Inr m
   | Inl e \<Rightarrow> Inl (if is_value_error e \<or> e = TypeError then InputValidationError else e))"

section \<open>Facts\<close>

lemma definition_spec_ok:
  assumes "new_task_def sf name input output attempts timeout backoff conc conc_key = Inr td
      \<or> new_process_def sf name argv input sb attempts timeout backoff conc conc_key = Inr td"
    "\<forall>b. backoff = Some b \<longrightarrow> backoff_ok b"
  shows "check_name (sp_name (definition_spec td)) = Inr () \<and> policy_ok (sp_policy (definition_spec td))"
proof -
  have pol: "policy_ok p" if "def_policy sf attempts timeout backoff conc conc_key = Inr p" for p
    using that assms(2) default_backoff_ok mk_policy_ok
    by (auto simp: def_policy_def bind_result_Inr_iff split: option.splits)
  from assms(1) obtain p where "def_policy sf attempts timeout backoff conc conc_key = Inr p" "td_policy td = p"
    "check_name (td_name td) = Inr ()"
    by (auto simp: new_task_def_def new_process_def_def mk_definition_def mk_process_definition_def
        bind_result_Inr_iff split: if_splits)
  then show ?thesis using pol by (simp add: definition_spec_def)
qed

lemma encode_capped_Inl:
  "encode_capped fr h v cap = Inl e \<Longrightarrow> e = Unstorable \<or> e = TypeError \<or> e = OverCap"
  by (auto simp: encode_capped_def dest!: bind_result_Inl encode_Inl_aux split: if_splits)

lemma encode_capped_InrD:
  "encode_capped fr h v cap = Inr s \<Longrightarrow> encode fr h v = Inr s \<and> int (utf8_len s) \<le> cap"
  by (auto simp: encode_capped_def bind_result_Inr_iff split: if_splits)

lemma encode_model_InrD:
  assumes "encode_model fr api m cap = Inr text"
  shows "(\<exists>h v. encode fr h v = Inr text) \<and> int (utf8_len text) \<le> cap"
proof -
  from assms obtain h v where "encode_capped fr h v cap = Inr text"
    unfolding encode_model_def map_sum_def by (auto simp: bind_result_Inr_iff split: sum.splits)
  then show ?thesis using encode_capped_InrD by blast
qed

lemma dump_input_Inl: "dump_input api m = Inl e \<Longrightarrow> e = InvalidInput \<or> ia_dump api m = Inl e"
  by (auto simp: dump_input_def dest!: bind_result_Inl split: pyval.splits option.splits pycell.splits)

lemma encode_model_Inl:
  assumes "encode_model fr api m cap = Inl e"
  shows "e = PayloadTooLarge \<or> e = InvalidInput \<or> ia_dump api m = Inl e"
proof -
  from assms obtain x where x: "bind_result (dump_input api m) (\<lambda>(h, v). encode_capped fr h v cap) = Inl x"
    and e: "e = storage_error x"
    unfolding encode_model_def map_sum_def by (auto split: sum.splits)
  from bind_result_Inl [OF x] have "x = InvalidInput \<or> ia_dump api m = Inl x \<or> x = Unstorable \<or> x = TypeError \<or> x = OverCap"
    by (auto dest: dump_input_Inl encode_capped_Inl)
  then show ?thesis unfolding e storage_error_def by auto
qed

lemma survives_InrD: "survives api t = Inr s \<Longrightarrow> s = t \<and> (\<exists>m. ia_load api t = Inr m)"
  by (cases "ia_load api t") (auto simp: survives_def)

lemma survives_Inl: "survives api t = Inl e \<Longrightarrow> e = InvalidInput \<or> ia_load api t = Inl e"
  by (cases "ia_load api t") (auto simp: survives_def split: if_splits)

lemma encode_input_InrD:
  assumes "encode_input fr api inp cap = Inr text"
  shows "\<exists>h v. encode fr h v = Inr text" "int (utf8_len text) \<le> cap" "\<exists>m. ia_load api text = Inr m"
proof -
  from assms obtain m t where m: "encode_model fr api m cap = Inr t" and l: "survives api t = Inr text"
    unfolding encode_input_def bind_result_Inr_iff by blast
  note t = survives_InrD [OF l]
  show "\<exists>h v. encode fr h v = Inr text" "int (utf8_len text) \<le> cap" "\<exists>m. ia_load api text = Inr m"
    using encode_model_InrD [OF m] t by auto
qed

text \<open>Only errors of the library, or what the model itself raises, leave \<open>encode_input\<close>.\<close>

lemma encode_input_Inl:
  assumes "encode_input fr api inp cap = Inl e"
  shows "e = PayloadTooLarge \<or> e = InvalidInput \<or> (\<exists>obj. inp = Plain obj \<and> ia_validate api obj = Inl e)
    \<or> (\<exists>m. ia_dump api m = Inl e) \<or> (\<exists>t. ia_load api t = Inl e)"
proof -
  let ?m = "case inp of Instance m \<Rightarrow> Inr m | Plain obj \<Rightarrow> ia_validate api obj"
  from bind_result_Inl [OF assms [unfolded encode_input_def]] show ?thesis
  proof
    assume "?m = Inl e"
    then show ?thesis by (cases inp) auto
  next
    assume "\<exists>m. ?m = Inr m \<and> bind_result (encode_model fr api m cap) (survives api) = Inl e"
    then obtain m where "bind_result (encode_model fr api m cap) (survives api) = Inl e" by blast
    from bind_result_Inl [OF this] show ?thesis
    proof (elim disjE exE conjE)
      assume "encode_model fr api m cap = Inl e"
      from encode_model_Inl [OF this] show ?thesis by fast
    next
      fix t assume "survives api t = Inl e"
      from survives_Inl [OF this] show ?thesis by fast
    qed
  qed
qed

text \<open>
  An input accepted at enqueue validates at claim: the stored document prints to a text with
  the same document, and the model's answer depends only on the document.
\<close>

lemma validate_stored_input:
  assumes acc: "encode_input fr api inp cap = Inr text" and row: "t_input r = cast text"
    and print: "encode_tree fr (cast text) = Inr text'" "cast text' = cast text"
    and doc: "\<And>s s'. cast s = cast s' \<Longrightarrow> ia_load api s = ia_load api s'"
  shows "\<exists>m. validate_input fr api r = Inr m \<and> ia_load api text = Inr m"
proof -
  obtain m where m: "ia_load api text = Inr m" using encode_input_InrD(3) [OF acc] by blast
  then have "ia_load api text' = Inr m" using doc [OF print(2)] by simp
  then show ?thesis using m row print(1) by (simp add: validate_input_def)
qed

text \<open>Hints go out exactly when the task was stored outside the caller's transaction.\<close>

lemma enqueue_with_hints:
  assumes "enqueue_with fuel env others ticks start fr s td conn inp prio run_at key ckey md d = Some (res, hs)"
  shows "hs = (if (\<exists>r. res = Inr r) \<and> \<not> in_transaction conn then queued_hints (td_name td) else [])"
  using assms by (auto simp: enqueue_with_def prepared_task_def split: sum.splits option.splits if_splits)

lemma enqueue_with_InrD:
  assumes "enqueue_with fuel env others ticks start fr s td conn inp prio run_at key ckey md d = Some (Inr r, hs)"
  shows "\<exists>text m. encode_input fr (td_input td) inp (payload_cap s) = Inr text
    \<and> encode_metadata fr md (progress_cap s) = Inr m
    \<and> store_enqueue fuel env others ticks start (statement_timeout_s s) (in_transaction conn)
        \<lparr>n_type = td_name td, n_input = text, n_policy = td_policy td, n_priority = prio,
         n_run_at = run_at, n_key = key, n_ckey = ckey, n_metadata = m\<rparr> d = Some (Inr r)"
  using assms by (auto simp: enqueue_with_def prepared_task_def bind_result_Inr_iff split: sum.splits option.splits)

end
