(* ===== verification/Decode.thy ===== *)
theory Decode
  imports Codec
begin

text \<open>
  \<open>bytes.decode(errors="replace")\<close> as the program applies it to process output and
  environments: each maximal prefix of a UTF-8 sequence that cannot be continued becomes one
  \<open>U+FFFD\<close>. On top of it, \<open>_text\<close> of \<open>sandbox.py\<close>.
\<close>

definition text_bytes :: "ustr \<Rightarrow> nat list" where
  "text_bytes s = concat (map utf8_bytes s)"

text \<open>Which second bytes may follow a lead byte.\<close>

definition second_ok :: "nat \<Rightarrow> nat \<Rightarrow> bool" where
  "second_ok a b \<longleftrightarrow> cont b \<and> (a = 0xE0 \<longrightarrow> 0xA0 \<le> b) \<and> (a = 0xED \<longrightarrow> b < 0xA0)
     \<and> (a = 0xF0 \<longrightarrow> 0x90 \<le> b) \<and> (a = 0xF4 \<longrightarrow> b < 0x90)"

text \<open>The first code point of \<open>a # bs\<close> and the bytes after it.\<close>

definition decode_head :: "nat \<Rightarrow> nat list \<Rightarrow> nat \<times> nat list" where
  "decode_head a bs =
     (if a < 0x80 then (a, bs)
      else if 0xC2 \<le> a \<and> a < 0xE0 then
        (case bs of
           [] \<Rightarrow> (REPLACEMENT, [])
         | b # bs1 \<Rightarrow> if cont b then ((a - 0xC0) * 64 + (b - 0x80), bs1) else (REPLACEMENT, bs))
      else if 0xE0 \<le> a \<and> a < 0xF0 then
        (case bs of
           [] \<Rightarrow> (REPLACEMENT, [])
         | b # bs1 \<Rightarrow> if \<not> second_ok a b then (REPLACEMENT, bs)
             else (case bs1 of
               [] \<Rightarrow> (REPLACEMENT, [])
             | c # bs2 \<Rightarrow> if cont c then ((a - 0xE0) * 4096 + (b - 0x80) * 64 + (c - 0x80), bs2)
                 else (REPLACEMENT, bs1)))
      else if 0xF0 \<le> a \<and> a < 0xF5 then
        (case bs of
           [] \<Rightarrow> (REPLACEMENT, [])
         | b # bs1 \<Rightarrow> if \<not> second_ok a b then (REPLACEMENT, bs)
             else (case bs1 of
               [] \<Rightarrow> (REPLACEMENT, [])
             | c # bs2 \<Rightarrow> if \<not> cont c then (REPLACEMENT, bs1)
                 else (case bs2 of
                   [] \<Rightarrow> (REPLACEMENT, [])
                 | e # bs3 \<Rightarrow> if cont e
                     then ((a - 0xF0) * 262144 + (b - 0x80) * 4096 + (c - 0x80) * 64 + (e - 0x80), bs3)
                     else (REPLACEMENT, bs2))))
      else (REPLACEMENT, bs))"

lemma decode_head_shorter: "decode_head a bs = (cp, rest) \<Longrightarrow> length rest \<le> length bs"
  by (auto simp: decode_head_def split: if_splits list.splits)

function utf8_decode_replace :: "nat list \<Rightarrow> ustr" where
  "utf8_decode_replace [] = []"
| "utf8_decode_replace (a # bs) =
     (case decode_head a bs of (cp, rest) \<Rightarrow> cp # utf8_decode_replace rest)"
  by pat_completeness auto
termination
  by (relation "measure length") (auto dest: decode_head_shorter [OF sym])

text \<open>\<open>_text\<close>: NUL cannot be stored in \<open>jsonb\<close>.\<close>

definition stream_text :: "nat list \<Rightarrow> ustr" where
  "stream_text data = map (\<lambda>cp. if cp = 0 then REPLACEMENT else cp) (utf8_decode_replace data)"

section \<open>Facts\<close>

lemma utf8_decode_head:
  assumes "utf8_decode (a # bs) = Some s"
  shows "\<exists>cp rest s'. decode_head a bs = (cp, rest) \<and> utf8_decode rest = Some s' \<and> s = cp # s'"
  using assms unfolding utf8_decode.simps(2) decode_head_def
  by (auto simp: second_ok_def split: if_splits list.splits)

text \<open>On well-formed input nothing is replaced.\<close>

lemma decode_replace_exact: "utf8_decode bs = Some s \<Longrightarrow> utf8_decode_replace bs = s"
proof (induction bs arbitrary: s rule: utf8_decode_replace.induct)
  case (2 a bs)
  from utf8_decode_head [OF "2.prems"] obtain cp rest s' where
    h: "decode_head a bs = (cp, rest)" "utf8_decode rest = Some s'" "s = cp # s'" by blast
  show ?case using "2.IH" [OF h(1) [symmetric] h(2)] h(1,3) by simp
qed simp

lemma replacement_not_surrogate [simp]: "\<not> is_surrogate REPLACEMENT" "REPLACEMENT \<noteq> 0" "utf8_size REPLACEMENT = 3"
  by (simp_all add: REPLACEMENT_def is_surrogate_def utf8_size_def)

lemma cont_digit: "cont b \<Longrightarrow> \<exists>n < 64. b = 0x80 + n"
  by (rule exI [of _ "b - 0x80"]) (auto simp: cont_def)

lemma decode_head_not_surrogate: "decode_head a bs = (cp, rest) \<Longrightarrow> \<not> is_surrogate cp"
proof -
  assume h: "decode_head a bs = (cp, rest)"
  have three: "\<not> is_surrogate ((a - 0xE0) * 4096 + (b - 0x80) * 64 + (c - 0x80))"
    if "0xE0 \<le> a" "second_ok a b" "cont c" for b c
    using that unfolding second_ok_def cont_def is_surrogate_def
    by (cases "a = 0xED"; cases "a < 0xED") auto
  have four: "\<not> is_surrogate ((a - 0xF0) * 262144 + (b - 0x80) * 4096 + (c - 0x80) * 64 + (e - 0x80))"
    if "0xF0 \<le> a" "second_ok a b" for b c e
    using that unfolding second_ok_def cont_def is_surrogate_def
    by (cases "a = 0xF0") auto
  have two: "\<not> is_surrogate ((a - 0xC0) * 64 + (b - 0x80))" if "a < 0xE0" "cont b" for b
    using that unfolding cont_def is_surrogate_def by auto
  have one: "a < 0x80 \<Longrightarrow> \<not> is_surrogate a" by (simp add: is_surrogate_def)
  show ?thesis
    using h one two three four unfolding decode_head_def
    by (auto split: if_splits list.splits)
qed

lemma decode_replace_no_surrogate: "\<not> has_surrogate (utf8_decode_replace bs)"
proof (induction bs rule: utf8_decode_replace.induct)
  case (2 a bs)
  obtain cp rest where h: "decode_head a bs = (cp, rest)" by fastforce
  then show ?case using "2.IH" decode_head_not_surrogate [OF h] by (auto simp: has_surrogate_def)
qed (simp add: has_surrogate_def)

lemma stream_text_storable: "storable (stream_text data)"
  using decode_replace_no_surrogate [of data]
  by (auto simp: stream_text_def storable_def has_surrogate_def)

lemma decode_head_size:
  assumes "decode_head a bs = (cp, rest)"
  shows "utf8_size cp + 3 * length rest \<le> 3 * Suc (length bs)"
proof -
  have "a < 0x80 \<Longrightarrow> utf8_size a \<le> 3" by (simp add: utf8_size_def)
  then show ?thesis
    using assms unfolding decode_head_def
    by (auto split: if_splits list.splits intro: order.trans [OF utf8_size_bounds(2)])
qed

text \<open>A stream of \<open>n\<close> bytes takes at most \<open>3 n\<close> bytes once decoded.\<close>

lemma stream_text_len: "utf8_len (stream_text data) \<le> 3 * length data"
proof (induction data rule: utf8_decode_replace.induct)
  case 1
  then show ?case by (simp add: stream_text_def)
next
  case (2 a bs)
  obtain cp rest where h: "decode_head a bs = (cp, rest)" by fastforce
  have IH: "utf8_len (stream_text rest) \<le> 3 * length rest" using "2.IH" h by simp
  have zero: "utf8_size REPLACEMENT + 3 * length rest \<le> 3 * Suc (length bs)"
    using decode_head_shorter [OF h] by simp
  have "stream_text (a # bs) = (if cp = 0 then REPLACEMENT else cp) # stream_text rest"
    by (simp add: stream_text_def h)
  then show ?case using IH decode_head_size [OF h] zero by (cases "cp = 0") auto
qed

end
