(* ===== verification/Processes.thy ===== *)
theory Processes
  imports Decode Catalog Config
begin

text \<open>
  Process identity in \<open>sandbox.py\<close>: worker ids and whether their process lives, the walk
  over \<open>/proc\<close>, and signals that go through a pidfd whose target is re-checked. The host
  is a timeline: which process holds a pid at each instant, what its environment reads as, and
  which system calls fail. A process keeps one pid for its life and a pid is recycled only
  after its holder is gone; that is what the safety lemmas assume of the kernel.
\<close>

section \<open>Worker ids\<close>

text \<open>What one look at the host answers: its name, \<open>/proc/<pid>/stat\<close>, \<open>kill(pid, 0)\<close>.\<close>

record host =
  host_name :: ustr
  proc_stat :: "int \<Rightarrow> ustr option"
  kill_zero :: "int \<Rightarrow> exn + unit"

text \<open>\<open>s.rsplit(sep, 1)\<close> and \<open>s.split()\<close>.\<close>

definition rsplit_once :: "nat \<Rightarrow> ustr \<Rightarrow> (ustr \<times> ustr) option" where
  "rsplit_once sep s =
     (if sep \<in> set s
      then Some (rev (tl (dropWhile (\<lambda>c. c \<noteq> sep) (rev s))), rev (takeWhile (\<lambda>c. c \<noteq> sep) (rev s)))
      else None)"

definition py_split :: "ustr \<Rightarrow> ustr list" where
  "py_split s = filter (\<lambda>w. w \<noteq> []) (split_on 32 (map (\<lambda>c. if py_space c then 32 else c) s))"

definition starttime_of :: "ustr \<Rightarrow> exn + ustr" where
  "starttime_of stat = (case rsplit_once 41 stat of
     None \<Rightarrow> Inl IndexError
   | Some (_, rest) \<Rightarrow>
       (if 19 < length (py_split rest) then Inr (py_split rest ! 19) else Inl IndexError))"

definition starttime :: "host \<Rightarrow> int \<Rightarrow> exn + ustr option" where
  "starttime v pid = (case proc_stat v pid of
     None \<Rightarrow> Inr None
   | Some stat \<Rightarrow> map_sum id Some (starttime_of stat))"

definition worker_id :: "host \<Rightarrow> int \<Rightarrow> ustr \<Rightarrow> exn + ustr" where
  "worker_id v pid hex =
     bind_result (starttime v pid) (\<lambda>st.
       Inr (host_name v @ 58 # dec_int pid @ 58 #
            (case st of None \<Rightarrow> lit ''nonce'' | Some t \<Rightarrow> if t = [] then lit ''nonce'' else t) @ 45 # hex))"

definition worker_parts :: "ustr \<Rightarrow> (ustr \<times> ustr \<times> ustr) option" where
  "worker_parts w = (case rsplit_once 58 w of
     None \<Rightarrow> None
   | Some (a, ident) \<Rightarrow> (case rsplit_once 58 a of
       None \<Rightarrow> None
     | Some (h, p) \<Rightarrow> Some (h, p, ident)))"

text \<open>\<open>is_worker_alive\<close>; \<open>si\<close> is \<open>int(text)\<close>, which raises only \<open>ValueError\<close>.\<close>

definition is_worker_alive :: "host \<Rightarrow> (ustr \<Rightarrow> exn + int) \<Rightarrow> ustr \<Rightarrow> exn + bool option" where
  "is_worker_alive v si w = (case worker_parts w of
     None \<Rightarrow> Inr None
   | Some (h, p, ident) \<Rightarrow>
       if h \<noteq> host_name v then Inr None
       else (case si p of
         Inl _ \<Rightarrow> Inr None
       | Inr pid \<Rightarrow>
           if pid \<le> 0 \<or> starts_with (lit ''nonce-'') ident then Inr None
           else bind_result (starttime v pid) (\<lambda>st. case st of
             Some t \<Rightarrow> Inr (Some (t = hd (split_on 45 ident)))
           | None \<Rightarrow> (case kill_zero v pid of
               Inr _ \<Rightarrow> Inr None
             | Inl e \<Rightarrow> if e = ProcessLookupError then Inr (Some False)
                 else if e = OSError then Inr None else Inl e))))"

section \<open>Processes and pidfds\<close>

text \<open>
  A process is known by a number no other process ever has; \<open>ps_environ\<close> is what reading its
  \<open>/proc\<close> entry at an instant gives (\<open>None\<close>: an \<open>OSError\<close>).
\<close>

record process =
  ps_uid :: nat
  ps_environ :: "nat \<Rightarrow> nat list option"

record os =
  os_proc :: "nat \<Rightarrow> int \<Rightarrow> process option"
  open_error :: "nat \<Rightarrow> int \<Rightarrow> bool"
  signal_error :: "nat \<Rightarrow> int \<Rightarrow> bool"

fun occurs :: "nat list \<Rightarrow> nat list \<Rightarrow> bool" where
  "occurs m [] \<longleftrightarrow> m = []"
| "occurs m (b # bs) \<longleftrightarrow> take (length m) (b # bs) = m \<or> occurs m bs"

text \<open>The marker \<open>name=value\<close> with its NUL; the texts have no surrogates.\<close>

definition marker :: "ustr \<Rightarrow> ustr \<Rightarrow> nat list" where
  "marker name value = text_bytes (name @ 61 # value) @ [0]"

definition environ_has :: "os \<Rightarrow> nat \<Rightarrow> int \<Rightarrow> nat list \<Rightarrow> bool" where
  "environ_has w t pid m = (case os_proc w t pid of
     None \<Rightarrow> False
   | Some p \<Rightarrow> (case ps_environ p t of None \<Rightarrow> False | Some e \<Rightarrow> occurs m e))"

text \<open>\<open>Pidfd.open\<close> and \<open>Pidfd.send_signal\<close>: the handle is the process, whatever its pid becomes.\<close>

definition pidfd_open :: "os \<Rightarrow> nat \<Rightarrow> int \<Rightarrow> exn + nat option" where
  "pidfd_open w t pid =
     (if open_error w t pid then Inl OSError else Inr (map_option ps_uid (os_proc w t pid)))"

definition alive_as :: "os \<Rightarrow> nat \<Rightarrow> int \<Rightarrow> nat \<Rightarrow> bool" where
  "alive_as w t pid u \<longleftrightarrow> map_option ps_uid (os_proc w t pid) = Some u"

definition pidfd_send :: "os \<Rightarrow> nat \<Rightarrow> int \<Rightarrow> nat \<Rightarrow> exn + bool" where
  "pidfd_send w t pid u =
     (if \<not> alive_as w t pid u then Inr False else if signal_error w t pid then Inl OSError else Inr True)"

text \<open>
  \<open>_open_marked\<close> opens at one instant and reads the environment at the next;
  \<open>_kill_marked\<close> signals at the one after. Its result names the process that received the
  signal where the code returns \<open>True\<close>.
\<close>

definition open_marked :: "os \<Rightarrow> nat \<Rightarrow> int \<Rightarrow> nat list \<Rightarrow> nat option" where
  "open_marked w t pid m = (case pidfd_open w t pid of
     Inl _ \<Rightarrow> None
   | Inr None \<Rightarrow> None
   | Inr (Some u) \<Rightarrow> if \<not> environ_has w (t + 1) pid m then None else Some u)"

definition kill_marked :: "os \<Rightarrow> nat \<Rightarrow> int \<Rightarrow> nat list \<Rightarrow> nat option" where
  "kill_marked w t pid m = (case open_marked w t pid m of
     None \<Rightarrow> None
   | Some u \<Rightarrow> (case pidfd_send w (t + 2) pid u of
       Inl _ \<Rightarrow> None
     | Inr sent \<Rightarrow> if sent then Some u else None))"

section \<open>The walk over /proc\<close>

text \<open>
  \<open>_proc_environs\<close> over what the walk read: entry names with their environments
  (\<open>None\<close>: unreadable), or nothing at all.
\<close>

definition digits_value :: "ustr \<Rightarrow> int" where
  "digits_value s = foldl (\<lambda>n c. 10 * n + (int c - 48)) 0 s"

definition proc_environs :: "(ustr \<times> nat list option) list option \<Rightarrow> (int \<times> nat list) list" where
  "proc_environs walk = (case walk of
     None \<Rightarrow> []
   | Some entries \<Rightarrow> concat (map (\<lambda>(name, env).
       if name = [] \<or> \<not> list_all is_digit name then []
       else (case env of None \<Rightarrow> [] | Some e \<Rightarrow> [(digits_value name, e)])) entries))"

definition find_marked :: "(ustr \<times> nat list option) list option \<Rightarrow> ustr \<Rightarrow> ustr \<Rightarrow> int list" where
  "find_marked walk name value = map fst (filter (\<lambda>(pid, e). occurs (marker name value) e) (proc_environs walk))"

text \<open>One kill after the other, three instants each; the processes that got the signal.\<close>

fun kill_each :: "os \<Rightarrow> nat \<Rightarrow> int list \<Rightarrow> nat list \<Rightarrow> nat list" where
  "kill_each w t [] m = []"
| "kill_each w t (pid # pids) m =
     (case kill_marked w t pid m of None \<Rightarrow> [] | Some u \<Rightarrow> [u]) @ kill_each w (t + 3) pids m"

definition signal_marked ::
  "os \<Rightarrow> nat \<Rightarrow> (ustr \<times> nat list option) list option \<Rightarrow> ustr \<Rightarrow> ustr \<Rightarrow> int list \<Rightarrow> nat list" where
  "signal_marked w t walk name value exclude =
     kill_each w t (filter (\<lambda>pid. pid \<notin> set exclude) (find_marked walk name value)) (marker name value)"

section \<open>The scavenger\<close>

definition WORKER_ENV :: ustr where "WORKER_ENV = lit ''FRONTA_WORKER_ID''"
definition SANDBOX_ENV :: ustr where "SANDBOX_ENV = lit ''FRONTA_SANDBOX_ID''"

definition owner_of :: "nat list \<Rightarrow> ustr option" where
  "owner_of env =
     (let prefix = text_bytes (WORKER_ENV @ [61])
      in map_option (\<lambda>entry. utf8_decode_replace (drop (length prefix) entry))
           (find (starts_with prefix) (split_on 0 env)))"

text \<open>
  The loop of \<open>scavenge_orphans\<close> with its two memos; the result pairs each process that got
  \<open>SIGKILL\<close> with the owner it was killed for.
\<close>

fun scavenge_loop :: "os \<Rightarrow> (nat \<Rightarrow> host) \<Rightarrow> (ustr \<Rightarrow> exn + int) \<Rightarrow> nat \<Rightarrow> ustr list \<Rightarrow> ustr list
     \<Rightarrow> (int \<times> nat list) list \<Rightarrow> exn + (nat \<times> ustr) list" where
  "scavenge_loop w hv si t dead alive [] = Inr []"
| "scavenge_loop w hv si t dead alive ((pid, env) # procs) = (case owner_of env of
     None \<Rightarrow> scavenge_loop w hv si (t + 4) dead alive procs
   | Some owner \<Rightarrow>
       if owner \<in> set alive then scavenge_loop w hv si (t + 4) dead alive procs
       else bind_result (if owner \<in> set dead then Inr (Some False) else is_worker_alive (hv t) si owner) (\<lambda>judged.
         if judged \<noteq> Some False then scavenge_loop w hv si (t + 4) dead (owner # alive) procs
         else map_sum id (\<lambda>killed. (case kill_marked w (t + 1) pid (marker WORKER_ENV owner) of
                 None \<Rightarrow> [] | Some u \<Rightarrow> [(u, owner)]) @ killed)
               (scavenge_loop w hv si (t + 4) (owner # dead) alive procs)))"

definition scavenge_orphans :: "os \<Rightarrow> (nat \<Rightarrow> host) \<Rightarrow> (ustr \<Rightarrow> exn + int) \<Rightarrow> nat \<Rightarrow> int \<Rightarrow> ustr
     \<Rightarrow> (ustr \<times> nat list option) list option \<Rightarrow> exn + (nat \<times> ustr) list" where
  "scavenge_orphans w hv si t self hex walk =
     bind_result (worker_id (hv t) self hex) (\<lambda>own. scavenge_loop w hv si t [] [own] (proc_environs walk))"

section \<open>Parsing\<close>

lemma rsplit_once_append:
  assumes "sep \<notin> set b"
  shows "rsplit_once sep (a @ sep # b) = Some (a, b)"
proof -
  have "\<forall>c \<in> set (rev b). c \<noteq> sep" using assms by auto
  then have "takeWhile (\<lambda>c. c \<noteq> sep) (rev b @ ys) = rev b @ takeWhile (\<lambda>c. c \<noteq> sep) ys"
    "dropWhile (\<lambda>c. c \<noteq> sep) (rev b @ ys) = dropWhile (\<lambda>c. c \<noteq> sep) ys" for ys
    using takeWhile_append2 [of "rev b" "\<lambda>c. c \<noteq> sep"] dropWhile_append2 [of "rev b" "\<lambda>c. c \<noteq> sep"] by blast+
  then show ?thesis by (simp add: rsplit_once_def)
qed

lemma worker_parts_id: "58 \<notin> set p \<Longrightarrow> 58 \<notin> set c \<Longrightarrow> worker_parts (h @ 58 # p @ 58 # c) = Some (h, p, c)"
  using rsplit_once_append [of 58 c "h @ 58 # p"] rsplit_once_append [of 58 p h]
  by (simp add: worker_parts_def)

lemma dec_nat_all_digits: "list_all is_digit (dec_nat n)"
proof (induction n rule: dec_nat.induct)
  case (1 n)
  show ?case
  proof (cases "n < 10")
    case True
    then show ?thesis by (subst dec_nat.simps) (simp add: is_digit_def)
  next
    case False
    then have "dec_nat n = dec_nat (n div 10) @ [48 + n mod 10]" by (subst dec_nat.simps) simp
    then show ?thesis using 1 [OF False] by (simp add: is_digit_def)
  qed
qed

lemma digits_value_dec_nat: "digits_value (dec_nat n) = int n"
proof (induction n rule: dec_nat.induct)
  case (1 n)
  show ?case
  proof (cases "n < 10")
    case True
    then show ?thesis by (subst dec_nat.simps) (simp add: digits_value_def)
  next
    case False
    then have "dec_nat n = dec_nat (n div 10) @ [48 + n mod 10]" by (subst dec_nat.simps) simp
    then have "digits_value (dec_nat n) = 10 * digits_value (dec_nat (n div 10)) + int (n mod 10)"
      by (simp add: digits_value_def)
    moreover have "int n = 10 * int (n div 10) + int (n mod 10)" by (simp add: zdiv_int zmod_int)
    ultimately show ?thesis by (simp only: 1 [OF False])
  qed
qed

lemma digits_no: "list_all is_digit s \<Longrightarrow> \<not> is_digit c \<Longrightarrow> c \<notin> set s"
  by (auto simp: list_all_iff)

lemma py_split_Nil [simp]: "py_split [] = []"
  by (simp add: py_split_def)

lemma py_split_word:
  assumes "w \<noteq> []" "\<forall>c \<in> set w. \<not> py_space c" "rest = [] \<or> (\<exists>s. rest = 32 # s)"
  shows "py_split (32 # w @ rest) = w # py_split rest"
proof -
  have 32: "py_space 32" by (simp add: py_space_def)
  have w: "map (\<lambda>c. if py_space c then 32 else c) w = w" using assms(2) by (auto intro: map_idI)
  have no: "32 \<notin> set w" using assms(2) 32 by auto
  show ?thesis
  proof (cases "rest = []")
    case True
    then show ?thesis using w no assms(1) 32 by (simp add: py_split_def split_on_single)
  next
    case False
    then obtain s where "rest = 32 # s" using assms(3) by blast
    then show ?thesis using w no assms(1) 32 by (simp add: py_split_def split_on_append)
  qed
qed

lemma py_split_words:
  "\<forall>w \<in> set ws. w \<noteq> [] \<and> (\<forall>c \<in> set w. \<not> py_space c) \<Longrightarrow> py_split (concat (map ((#) 32) ws)) = ws"
proof (induction ws)
  case (Cons w ws)
  have "concat (map ((#) 32) ws) = [] \<or> (\<exists>s. concat (map ((#) 32) ws) = 32 # s)" by (cases ws) auto
  then show ?case using Cons py_split_word [of w "concat (map ((#) 32) ws)"] by simp
qed simp

text \<open>Field 22 of \<open>stat\<close>, whatever the command name contains.\<close>

lemma starttime_field:
  assumes "\<forall>w \<in> set ws. w \<noteq> [] \<and> 41 \<notin> set w \<and> (\<forall>c \<in> set w. \<not> py_space c)" "19 < length ws"
  shows "starttime_of (pid @ 32 # 40 # comm @ 41 # concat (map ((#) 32) ws)) = Inr (ws ! 19)"
proof -
  have "41 \<notin> set (concat (map ((#) 32) ws))" using assms(1) by auto
  from rsplit_once_append [OF this, of "pid @ 32 # 40 # comm"] show ?thesis
    using assms py_split_words [of ws] by (simp add: starttime_of_def)
qed

text \<open>An id is recognised as the worker that made it, on its host, from its start time.\<close>

lemma worker_identity:
  assumes made: "worker_id v pid hex = Inr w" "0 < pid" "58 \<notin> set hex" "si (dec_int pid) = Inr pid"
    and st: "starttime v pid = Inr (Some st)" "st \<noteq> []" "list_all is_digit st"
    and host: "host_name v' = host_name v"
  shows "starttime v' pid = Inr (Some st') \<Longrightarrow> is_worker_alive v' si w = Inr (Some (st' = st))"
    and "starttime v' pid = Inr None \<Longrightarrow> kill_zero v' pid = Inl ProcessLookupError
      \<Longrightarrow> is_worker_alive v' si w = Inr (Some False)"
    and "starttime v' pid = Inr None \<Longrightarrow> kill_zero v' pid \<in> {Inr (), Inl OSError}
      \<Longrightarrow> is_worker_alive v' si w = Inr None"
proof -
  have w: "w = host_name v @ 58 # dec_int pid @ 58 # st @ 45 # hex"
    using made(1) st(1,2) by (simp add: worker_id_def)
  have dig: "list_all is_digit (dec_int pid)" using made(2) dec_nat_all_digits by (simp add: dec_int_def)
  have p: "58 \<notin> set (dec_int pid)" using digits_no [OF dig] by (simp add: is_digit_def)
  have c: "58 \<notin> set (st @ 45 # hex)" using digits_no [OF st(3)] made(3) by (simp add: is_digit_def)
  have parts: "worker_parts w = Some (host_name v, dec_int pid, st @ 45 # hex)"
    unfolding w by (rule worker_parts_id [OF p c])
  have nonce: "\<not> starts_with (lit ''nonce-'') (st @ 45 # hex)"
    using st(2,3) by (cases st) (auto simp: starts_with_def is_digit_def)
  have hd45: "hd (split_on 45 (st @ 45 # hex)) = st"
    using digits_no [OF st(3), of 45] by (simp add: split_on_append is_digit_def)
  note facts = is_worker_alive_def parts host made(2,4) nonce [simplified] hd45 not_le
  show "starttime v' pid = Inr (Some st') \<Longrightarrow> is_worker_alive v' si w = Inr (Some (st' = st))"
    by (simp add: facts)
  show "starttime v' pid = Inr None \<Longrightarrow> kill_zero v' pid = Inl ProcessLookupError
      \<Longrightarrow> is_worker_alive v' si w = Inr (Some False)"
    by (simp add: facts)
  show "starttime v' pid = Inr None \<Longrightarrow> kill_zero v' pid \<in> {Inr (), Inl OSError}
      \<Longrightarrow> is_worker_alive v' si w = Inr None"
    by (auto simp: facts)
qed

section \<open>Who receives a signal\<close>

text \<open>A pid is not recycled while its holder lives, and a process does not come back.\<close>

definition lawful :: "os \<Rightarrow> bool" where
  "lawful w \<longleftrightarrow> (\<forall>pid t1 t2 t3 u. t1 \<le> t2 \<and> t2 \<le> t3 \<and> alive_as w t1 pid u \<and> alive_as w t3 pid u
     \<longrightarrow> alive_as w t2 pid u)"

definition carried :: "os \<Rightarrow> nat \<Rightarrow> int \<Rightarrow> nat \<Rightarrow> nat list \<Rightarrow> bool" where
  "carried w t pid u m \<longleftrightarrow> (\<exists>p e. os_proc w t pid = Some p \<and> ps_uid p = u \<and> ps_environ p t = Some e \<and> occurs m e)"

lemma kill_marked_only:
  assumes "lawful w" "kill_marked w t pid m = Some u"
  shows "carried w (t + 1) pid u m \<and> alive_as w (t + 2) pid u"
proof -
  have o: "open_marked w t pid m = Some u" "pidfd_send w (t + 2) pid u = Inr True"
    using assms(2) by (auto simp: kill_marked_def split: option.splits sum.splits if_splits)
  have a: "alive_as w t pid u" "environ_has w (t + 1) pid m"
    using o(1) by (auto simp: open_marked_def pidfd_open_def alive_as_def split: option.splits sum.splits if_splits)
  have b: "alive_as w (t + 2) pid u" using o(2) by (simp add: pidfd_send_def split: if_splits)
  have "t \<le> t + 1" "t + 1 \<le> t + 2" by simp_all
  then have "alive_as w (t + 1) pid u" using assms(1) a(1) b unfolding lawful_def by blast
  then show ?thesis using a(2) b
    by (auto simp: carried_def alive_as_def environ_has_def split: option.splits)
qed

lemma kill_each_only:
  "lawful w \<Longrightarrow> u \<in> set (kill_each w t pids m)
    \<Longrightarrow> \<exists>pid \<in> set pids. \<exists>t' \<ge> t. carried w t' pid u m \<and> alive_as w (t' + 1) pid u"
proof (induction w t pids m rule: kill_each.induct)
  case (2 w t pid pids m)
  show ?case
  proof (cases "u \<in> set (kill_each w (t + 3) pids m)")
    case True
    from "2.IH" [OF "2.prems"(1) this] show ?thesis by (meson add_leD1 list.set_intros(2))
  next
    case False
    then have "kill_marked w t pid m = Some u" using "2.prems"(2) by (auto split: option.splits)
    from kill_marked_only [OF "2.prems"(1) this] have "carried w (t + 1) pid u m \<and> alive_as w ((t + 1) + 1) pid u" by simp
    moreover have "t \<le> t + 1" by simp
    ultimately show ?thesis by (metis list.set_intros(1))
  qed
qed simp

lemma set_find_marked:
  "pid \<in> set (find_marked walk name value)
    \<longleftrightarrow> (\<exists>e. (pid, e) \<in> set (proc_environs walk) \<and> occurs (marker name value) e)"
  by (force simp: find_marked_def)

lemma signal_marked_only:
  assumes "lawful w" "u \<in> set (signal_marked w t walk name value exclude)"
  shows "\<exists>pid e t'. (pid, e) \<in> set (proc_environs walk) \<and> pid \<notin> set exclude \<and> t' \<ge> t
    \<and> carried w t' pid u (marker name value) \<and> alive_as w (t' + 1) pid u"
  using kill_each_only [OF assms(1) assms(2) [unfolded signal_marked_def]]
  by (auto simp: set_find_marked)

text \<open>The scavenger kills for owners judged dead, and only processes that carry their marker.\<close>

lemma scavenge_loop_only:
  "scavenge_loop w hv si t dead alive procs = Inr killed \<Longrightarrow> lawful w
    \<Longrightarrow> \<forall>o' \<in> set dead. \<exists>t'. is_worker_alive (hv t') si o' = Inr (Some False)
    \<Longrightarrow> (u, owner) \<in> set killed
    \<Longrightarrow> (\<exists>t'. is_worker_alive (hv t') si owner = Inr (Some False)) \<and> owner \<notin> set alive
      \<and> (\<exists>pid t'. carried w t' pid u (marker WORKER_ENV owner))"
proof (induction w hv si t dead alive procs arbitrary: killed rule: scavenge_loop.induct)
  case (2 w hv si t dead alive pid env procs)
  show ?case
  proof (cases "owner_of env")
    case None
    then show ?thesis using "2.IH"(1) "2.prems" by simp
  next
    case own: (Some o1)
    show ?thesis
    proof (cases "o1 \<in> set alive")
      case True
      then show ?thesis using "2.IH"(2) "2.prems" own by simp
    next
      case False
      let ?j = "if o1 \<in> set dead then Inr (Some False) else is_worker_alive (hv t) si o1"
      obtain judged where j: "?j = Inr judged" using "2.prems"(1) own False by (auto simp: bind_result_Inr_iff)
      show ?thesis
      proof (cases "judged = Some False")
        case alive: False
        have run: "scavenge_loop w hv si (t + 4) dead (o1 # alive) procs = Inr killed"
          using "2.prems"(1) own False j alive by simp
        show ?thesis using "2.IH"(3) [OF own False j alive run "2.prems"(2,3,4)] by simp
      next
        case True
        obtain k where k: "scavenge_loop w hv si (t + 4) (o1 # dead) alive procs = Inr k"
          and killed: "killed = (case kill_marked w (t + 1) pid (marker WORKER_ENV o1) of None \<Rightarrow> [] | Some u \<Rightarrow> [(u, o1)]) @ k"
          using "2.prems"(1) own False j True
          by (cases "scavenge_loop w hv si (t + 4) (o1 # dead) alive procs") auto
        have d1: "\<exists>t'. is_worker_alive (hv t') si o1 = Inr (Some False)"
          using j True "2.prems"(3) by (auto split: if_splits)
        show ?thesis
        proof (cases "(u, owner) \<in> set k")
          case True
          then show ?thesis using "2.IH"(4) [OF own False j _ k "2.prems"(2)] d1 "2.prems"(3) \<open>judged = Some False\<close> by auto
        next
          case new: False
          then have "kill_marked w (t + 1) pid (marker WORKER_ENV o1) = Some u" "owner = o1"
            using "2.prems"(4) killed by (auto split: option.splits)
          then show ?thesis using kill_marked_only [OF "2.prems"(2)] d1 False by blast
        qed
      qed
    qed
  qed
qed simp

section \<open>What a marker matches\<close>

lemma occurs_iff: "occurs m e \<longleftrightarrow> (\<exists>p q. e = p @ m @ q)"
proof (induction e)
  case (Cons b bs)
  have "(\<exists>p q. b # bs = p @ m @ q) \<longleftrightarrow> (\<exists>q. b # bs = m @ q) \<or> (\<exists>p q. bs = p @ m @ q)"
    by (metis append_Cons append_Nil append_eq_Cons_conv)
  moreover have "take (length m) (b # bs) = m \<longleftrightarrow> (\<exists>q. b # bs = m @ q)"
    by (metis append_eq_conv_conj append_take_drop_id)
  ultimately show ?case using Cons.IH by simp
qed simp

lemma first_zero_unique:
  "0 \<notin> set a \<Longrightarrow> 0 \<notin> set b \<Longrightarrow> a @ (0::nat) # c = b @ 0 # d \<Longrightarrow> a = b \<and> c = d"
proof (induction a arbitrary: b)
  case (Cons x a)
  then show ?case by (cases b) auto
next
  case Nil
  then show ?case by (cases b) auto
qed

text \<open>An environment of NUL-terminated entries.\<close>

definition environ_bytes :: "nat list list \<Rightarrow> nat list" where
  "environ_bytes entries = concat (map (\<lambda>e. e @ [0]) entries)"

text \<open>The search finds the marker in any entry that ends with it, whatever precedes it there.\<close>

lemma occurs_environ:
  assumes "\<forall>e \<in> set entries. 0 \<notin> set e" "0 \<notin> set m"
  shows "occurs (m @ [0]) (environ_bytes entries) \<longleftrightarrow> (\<exists>e \<in> set entries. \<exists>pre. e = pre @ m)"
  using assms(1)
proof (induction entries)
  case Nil
  then show ?case by (simp add: environ_bytes_def)
next
  case (Cons e es)
  have 0: "0 \<notin> set e" using Cons.prems by simp
  have "(\<exists>p q. e @ 0 # environ_bytes es = p @ m @ 0 # q)
    \<longleftrightarrow> (\<exists>pre. e = pre @ m) \<or> (\<exists>p q. environ_bytes es = p @ m @ 0 # q)" (is "?L \<longleftrightarrow> ?R")
  proof
    assume ?L
    then obtain p q where pq: "e @ 0 # environ_bytes es = (p @ m) @ 0 # q" by auto
    show ?R
    proof (cases "0 \<in> set p")
      case True
      then obtain p1 p2 where p: "p = p1 @ 0 # p2" "0 \<notin> set p1" by (meson split_list_first)
      then have "e @ 0 # environ_bytes es = p1 @ 0 # (p2 @ m @ 0 # q)" using pq by simp
      then have "environ_bytes es = p2 @ m @ 0 # q" using first_zero_unique [OF 0 p(2)] by blast
      then show ?thesis by blast
    next
      case False
      then have "0 \<notin> set (p @ m)" using assms(2) by simp
      then have "e = p @ m" using first_zero_unique [OF 0 _ pq] by blast
      then show ?thesis by blast
    qed
  next
    assume ?R
    then show ?L
    proof
      assume "\<exists>pre. e = pre @ m"
      then obtain pre where "e = pre @ m" by blast
      then have "e @ 0 # environ_bytes es = pre @ m @ 0 # environ_bytes es" by simp
      then show ?L by blast
    next
      assume "\<exists>p q. environ_bytes es = p @ m @ 0 # q"
      then obtain p q where "environ_bytes es = p @ m @ 0 # q" by blast
      then have "e @ 0 # environ_bytes es = (e @ 0 # p) @ m @ 0 # q" by simp
      then show ?L by blast
    qed
  qed
  then show ?case using Cons by (simp add: environ_bytes_def occurs_iff)
qed

end
