(* ===== verification/Sandboxes.thy ===== *)
theory Sandboxes
  imports Processes "HOL-Library.AList"
begin

text \<open>
  \<open>sandbox.py\<close>: the bubblewrap command line and the command's environment, the capped
  streams and the result of a process, the launch barrier, the kill protocol and the deferred
  close of a pidfd. \<open>loads\<close> is \<open>json.loads\<close> on bytes and \<open>si\<close> is \<open>int(text)\<close>.
\<close>

section \<open>Command line and environment\<close>

definition MERGED_USR_DIRS :: "ustr list" where
  "MERGED_USR_DIRS = map lit [''/bin'', ''/sbin'', ''/lib'', ''/lib64'', ''/lib32'', ''/libx32'']"

definition limit_args :: "sandbox \<Rightarrow> ustr list" where
  "limit_args sb =
     (case sb_cpu_time sb of None \<Rightarrow> [] | Some c \<Rightarrow> [lit ''--cpu='' @ dec_int (max 1 \<lfloor>c\<rfloor>)])
     @ (case sb_memory sb of None \<Rightarrow> [] | Some m \<Rightarrow> [lit ''--as='' @ dec_int m])
     @ (case sb_max_pids sb of None \<Rightarrow> [] | Some n \<Rightarrow> [lit ''--nproc='' @ dec_int n])"

text \<open>\<open>build_argv\<close>; \<open>links\<close> gives the target of a merged directory that is a symbolic link.\<close>

definition option_args :: "ustr \<Rightarrow> sandbox \<Rightarrow> int \<Rightarrow> (ustr \<Rightarrow> ustr option) \<Rightarrow> (ustr \<times> ustr) list \<Rightarrow> ustr list" where
  "option_args bwrap sb status_fd links env =
     [bwrap] @ map lit [''--unshare-user'', ''--unshare-all'', ''--disable-userns'', ''--die-with-parent'',
        ''--new-session'', ''--json-status-fd''] @ [dec_int status_fd]
     @ concat (map (\<lambda>path. [if path \<in> set DEFAULT_RO_BINDS then lit ''--ro-bind-try'' else lit ''--ro-bind'',
        path, path]) (sb_ro_binds sb))
     @ concat (map (\<lambda>path. case links path of None \<Rightarrow> [] | Some target \<Rightarrow> [lit ''--symlink'', target, path])
        MERGED_USR_DIRS)
     @ map lit [''--proc'', ''/proc'', ''--dev'', ''/dev'']
     @ [lit ''--size'', dec_int (sb_tmpfs sb), lit ''--tmpfs'', lit ''/tmp'']
     @ [lit ''--size'', dec_int (sb_tmpfs sb), lit ''--tmpfs'', lit ''/work'', lit ''--chdir'', lit ''/work'',
        lit ''--clearenv'']
     @ concat (map (\<lambda>(key, value). [lit ''--setenv'', key, value]) env)"

definition build_argv :: "ustr \<Rightarrow> sandbox \<Rightarrow> ustr list \<Rightarrow> int \<Rightarrow> (ustr \<Rightarrow> ustr option) \<Rightarrow> (ustr \<times> ustr) list
     \<Rightarrow> ustr list" where
  "build_argv bwrap sb argv status_fd links env =
     option_args bwrap sb status_fd links env @ [lit ''--'']
     @ (if limit_args sb = [] then [] else [lit ''prlimit''] @ limit_args sb @ [lit ''--'']) @ argv"

text \<open>A dictionary display: later entries replace earlier ones in place.\<close>

definition dict_of :: "(ustr \<times> ustr) list \<Rightarrow> (ustr \<times> ustr) list" where
  "dict_of kvs = fold (\<lambda>(k, v) d. AList.update k v d) kvs []"

definition command_env :: "sandbox \<Rightarrow> ustr \<Rightarrow> ustr \<Rightarrow> (ustr \<times> ustr) list \<Rightarrow> (ustr \<times> ustr) list" where
  "command_env sb worker sandbox_id task_env = dict_of
     ([(lit ''PATH'', lit ''/usr/local/bin:/usr/bin:/bin''), (lit ''HOME'', lit ''/work''), (lit ''LANG'', lit ''C.UTF-8'')]
      @ sb_env sb @ [(WORKER_ENV, worker), (SANDBOX_ENV, sandbox_id)] @ task_env)"

section \<open>Output and result\<close>

record process_result =
  exit_code :: int
  p_stdout :: ustr
  p_stderr :: ustr
  p_truncated :: bool

definition result_json :: "process_result \<Rightarrow> json" where
  "result_json r = JObj [(lit ''exit_code'', JInt (exit_code r)), (lit ''stdout'', JStr (p_stdout r)),
     (lit ''stderr'', JStr (p_stderr r)), (lit ''truncated'', JBool (p_truncated r))]"

text \<open>\<open>drain\<close>: the kept bytes and whether any were dropped; an empty chunk is the end of the stream.\<close>

fun drain_stream :: "int \<Rightarrow> nat list \<Rightarrow> bool \<Rightarrow> nat list list \<Rightarrow> nat list \<times> bool" where
  "drain_stream cap kept trunc [] = (kept, trunc)"
| "drain_stream cap kept trunc (chunk # chunks) =
     (if chunk = [] then (kept, trunc)
      else let room = cap - int (length kept)
           in drain_stream cap (if room > 0 then kept @ take (nat room) chunk else kept)
                (trunc \<or> int (length chunk) > room) chunks)"

fun split_lines :: "nat list \<Rightarrow> nat list \<Rightarrow> nat list list" where
  "split_lines cur [] = (if cur = [] then [] else [rev cur])"
| "split_lines cur (b # bs) =
     (if b = 10 then rev cur # split_lines [] bs
      else if b = 13 then rev cur # (case bs of c # bs' \<Rightarrow> if c = 10 then split_lines [] bs' else split_lines [] bs
                                     | [] \<Rightarrow> split_lines [] bs)
      else split_lines (b # cur) bs)"

text \<open>The exit code bwrap reports: the last status line that has one wins.\<close>

definition line_code :: "(nat list \<Rightarrow> exn + json) \<Rightarrow> (ustr \<Rightarrow> exn + int) \<Rightarrow> int \<Rightarrow> nat list \<Rightarrow> exn + int" where
  "line_code loads si code line = bind_result (loads line) (\<lambda>v. case v of
     JObj kvs \<Rightarrow> (case obj_get kvs (lit ''exit-code'') of None \<Rightarrow> Inr code | Some j \<Rightarrow> py_int si j)
   | _ \<Rightarrow> Inl AttributeError)"

fun status_code :: "(nat list \<Rightarrow> exn + json) \<Rightarrow> (ustr \<Rightarrow> exn + int) \<Rightarrow> int \<Rightarrow> nat list list \<Rightarrow> exn + int" where
  "status_code loads si code [] = Inr code"
| "status_code loads si code (line # rest) = (case line_code loads si code line of
     Inr c \<Rightarrow> status_code loads si c rest
   | Inl e \<Rightarrow> if is_value_error e \<or> e = AttributeError then status_code loads si code rest else Inl e)"

definition run_result :: "(nat list \<Rightarrow> exn + json) \<Rightarrow> (ustr \<Rightarrow> exn + int) \<Rightarrow> int \<Rightarrow> nat list list \<Rightarrow> nat list list
     \<Rightarrow> int option \<Rightarrow> nat list \<Rightarrow> exn + process_result" where
  "run_result loads si cap out err returncode status_rest =
     (let (kept_out, cut_out) = drain_stream cap [] False out;
          (kept_err, cut_err) = drain_stream cap [] False err
      in bind_result (status_code loads si (case returncode of None \<Rightarrow> - 1 | Some c \<Rightarrow> c) (split_lines [] status_rest))
          (\<lambda>code. Inr \<lparr>exit_code = code, p_stdout = stream_text kept_out, p_stderr = stream_text kept_err,
             p_truncated = (cut_out \<or> cut_err)\<rparr>))"

section \<open>The sandbox process\<close>

text \<open>Pidfds are the pid and the process they were opened on.\<close>

record sandbox_process =
  sx_pid :: int
  sx_returncode :: "int option"
  sx_sandbox_id :: ustr
  sx_init_pid :: int
  sx_init :: "nat option"
  sx_outer :: "nat option"
  sx_dead :: bool

definition try_send :: "os \<Rightarrow> nat \<Rightarrow> int \<Rightarrow> nat option \<Rightarrow> nat list" where
  "try_send w t pid handle = (case handle of
     None \<Rightarrow> []
   | Some u \<Rightarrow> (case pidfd_send w t pid u of Inl _ \<Rightarrow> [] | Inr sent \<Rightarrow> if sent then [u] else []))"

definition sx_terminate :: "os \<Rightarrow> nat \<Rightarrow> (ustr \<times> nat list option) list option \<Rightarrow> sandbox_process \<Rightarrow> nat list" where
  "sx_terminate w t walk s =
     (if sx_returncode s \<noteq> None then []
      else signal_marked w t walk SANDBOX_ENV (sx_sandbox_id s) [sx_pid s, sx_init_pid s])"

definition close_fds :: "sandbox_process \<Rightarrow> sandbox_process" where
  "close_fds s = (let s1 = s\<lparr>sx_outer := None\<rparr> in if sx_dead s then s1\<lparr>sx_init := None\<rparr> else s1)"

text \<open>
  \<open>kill\<close>: the new state, the processes that got \<open>SIGKILL\<close>, and the answer. The wait
  ends at \<open>deadline\<close>: by then the init has exited or the wait has timed out.
\<close>

definition sx_kill :: "os \<Rightarrow> nat \<Rightarrow> nat \<Rightarrow> sandbox_process \<Rightarrow> sandbox_process \<times> nat list \<times> bool" where
  "sx_kill w t deadline s =
     (if sx_dead s then (s, [], True)
      else let sent = try_send w t (sx_pid s) (sx_outer s)
           in case sx_init s of
                None \<Rightarrow> (s\<lparr>sx_dead := True\<rparr>, sent, True)
              | Some u \<Rightarrow>
                  let dead = \<not> alive_as w deadline (sx_init_pid s) u;
                      s1 = s\<lparr>sx_dead := dead\<rparr>
                  in (if dead then close_fds s1 else s1,
                      sent @ try_send w (t + 1) (sx_init_pid s) (Some u), dead))"

text \<open>\<open>run\<close>: both outputs drained and the process waited for, or interrupted before that.\<close>

definition sx_run_end :: "os \<Rightarrow> nat \<Rightarrow> nat \<Rightarrow> bool \<Rightarrow> sandbox_process \<Rightarrow> sandbox_process" where
  "sx_run_end w t deadline finished s =
     close_fds (if finished then s\<lparr>sx_dead := True\<rparr> else fst (sx_kill w t deadline s))"

section \<open>The launch barrier\<close>

datatype spawn_step =
    ProcessStarted
  | ReadEndClosed
  | ReadEndHandedOver
  | WriteEndClosed
  | AbortRun
  | OuterClosed

text \<open>
  What happens to a launch: the subprocess call starts bwrap or raises (cancellation included),
  an exception arrives while the barrier waits, and the status line, empty on a timeout or at
  the end of the stream. The reading end of the status pipe is handed to the stream reader.
\<close>

record launch =
  la_start :: "exn + unit"
  la_interrupt :: "exn option"
  la_line :: "nat list"

definition child_pid :: "(nat list \<Rightarrow> exn + json) \<Rightarrow> (ustr \<Rightarrow> exn + int) \<Rightarrow> nat list \<Rightarrow> exn + int" where
  "child_pid loads si line = bind_result (loads line) (\<lambda>v. case v of
     JObj kvs \<Rightarrow> bind_result (obj_item kvs (lit ''child-pid'')) (py_int si)
   | _ \<Rightarrow> Inl TypeError)"

definition spawn :: "os \<Rightarrow> nat \<Rightarrow> (nat list \<Rightarrow> exn + json) \<Rightarrow> (ustr \<Rightarrow> exn + int) \<Rightarrow> ustr \<Rightarrow> int \<Rightarrow> launch
     \<Rightarrow> (exn + sandbox_process) \<times> spawn_step list" where
  "spawn w t loads si sandbox_id pid la =
     (case la_start la of
        Inl e \<Rightarrow> if e = OSError \<or> e = ProcessLookupError
          then (Inl SandboxError, [ReadEndClosed, WriteEndClosed]) else (Inl e, [WriteEndClosed])
      | Inr _ \<Rightarrow>
           let m = marker SANDBOX_ENV sandbox_id;
               outer = open_marked w t pid m;
               begun = [ProcessStarted, WriteEndClosed, ReadEndHandedOver];
               aborted = begun @ [AbortRun] @ (if outer = None then [] else [OuterClosed])
           in case la_interrupt la of
                Some e \<Rightarrow> (Inl e, aborted)
              | None \<Rightarrow>
                  if la_line la = [] then (Inl SandboxError, aborted)
                  else (case child_pid loads si (la_line la) of
                    Inl e \<Rightarrow> (Inl e, aborted)
                  | Inr init_pid \<Rightarrow> (Inr \<lparr>sx_pid = pid, sx_returncode = None, sx_sandbox_id = sandbox_id,
                      sx_init_pid = init_pid, sx_init = open_marked w (t + 2) init_pid m, sx_outer = outer,
                      sx_dead = False\<rparr>, begun)))"

text \<open>\<open>_abort\<close>: who gets \<open>SIGKILL\<close> while a start is undone, apart from the child itself.\<close>

definition abort_signals :: "os \<Rightarrow> nat \<Rightarrow> (ustr \<times> nat list option) list option \<Rightarrow> ustr \<Rightarrow> int \<Rightarrow> nat option \<Rightarrow> nat list" where
  "abort_signals w t walk sandbox_id pid outer =
     try_send w t pid outer @ signal_marked w (t + 1) walk SANDBOX_ENV sandbox_id []"

section \<open>Deferred close of a pidfd\<close>

record pidfd =
  pf_fd :: int
  pf_waiting :: bool
  pf_close_requested :: bool

datatype pidfd_event = WaitBegun | WaitEnded | CloseAsked

text \<open>The new state and the descriptors handed to \<open>os.close\<close>.\<close>

definition pidfd_close :: "pidfd \<Rightarrow> pidfd \<times> int list" where
  "pidfd_close p =
     (if pf_waiting p then (p\<lparr>pf_close_requested := True\<rparr>, [])
      else if pf_fd p \<ge> 0 then (p\<lparr>pf_fd := - 1\<rparr>, [pf_fd p]) else (p, []))"

fun pidfd_step :: "pidfd_event \<Rightarrow> pidfd \<Rightarrow> pidfd \<times> int list" where
  "pidfd_step WaitBegun p = (if pf_fd p < 0 then (p, []) else (p\<lparr>pf_waiting := True\<rparr>, []))"
| "pidfd_step WaitEnded p =
     (if \<not> pf_waiting p then (p, [])
      else let p1 = p\<lparr>pf_waiting := False\<rparr> in if pf_close_requested p then pidfd_close p1 else (p1, []))"
| "pidfd_step CloseAsked p = pidfd_close p"

fun run_pidfd :: "pidfd_event list \<Rightarrow> pidfd \<Rightarrow> pidfd \<times> int list" where
  "run_pidfd [] p = (p, [])"
| "run_pidfd (e # es) p = (case pidfd_step e p of (p1, c1) \<Rightarrow>
     (case run_pidfd es p1 of (p2, c2) \<Rightarrow> (p2, c1 @ c2)))"

section \<open>Facts\<close>

subsection \<open>Environment and command line\<close>

lemma map_of_dict: "map_of (dict_of kvs) = map_of (rev kvs)"
proof -
  have "map_of (fold (\<lambda>(k, v) d. AList.update k v d) kvs d) = map_of d ++ map_of (rev kvs)" for d
    by (induction kvs arbitrary: d) (auto simp: update_conv' map_add_def fun_eq_iff split: option.split)
  from this [of "[]"] show ?thesis by (simp add: dict_of_def)
qed

text \<open>Both markers reach the command, whatever the declaration sets.\<close>

lemma command_env_markers:
  assumes "WORKER_ENV \<notin> fst ` set task_env" "SANDBOX_ENV \<notin> fst ` set task_env"
  shows "map_of (command_env sb worker sid task_env) WORKER_ENV = Some worker"
    "map_of (command_env sb worker sid task_env) SANDBOX_ENV = Some sid"
proof -
  have "map_of (rev task_env) WORKER_ENV = None" "map_of (rev task_env) SANDBOX_ENV = None"
    using assms by (auto simp: map_of_eq_None_iff)
  moreover have "SANDBOX_ENV \<noteq> WORKER_ENV" by (simp add: SANDBOX_ENV_def WORKER_ENV_def)
  ultimately show "map_of (command_env sb worker sid task_env) WORKER_ENV = Some worker"
    "map_of (command_env sb worker sid task_env) SANDBOX_ENV = Some sid"
    by (simp_all add: command_env_def map_of_dict map_add_def)
qed

lemma command_env_declared:
  assumes "sandbox_ok sb" "map_of (rev (sb_env sb)) k = Some v" "k \<notin> fst ` set task_env"
  shows "map_of (command_env sb worker sid task_env) k = Some v"
proof -
  have "\<not> env_name_bad k" using assms(1,2) sandbox_ok_env by (metis map_of_SomeD set_rev)
  then have "k \<noteq> WORKER_ENV" "k \<noteq> SANDBOX_ENV"
    by (auto simp: env_name_bad_def starts_with_def WORKER_ENV_def SANDBOX_ENV_def)
  moreover have "map_of (rev task_env) k = None" using assms(3) by (auto simp: map_of_eq_None_iff)
  ultimately show ?thesis using assms(2) by (simp add: command_env_def map_of_dict map_add_def)
qed

lemma build_argv_command:
  "\<exists>opts. build_argv bwrap sb argv fd links env = opts @ lit ''--'' # (if limit_args sb = [] then argv
      else lit ''prlimit'' # limit_args sb @ lit ''--'' # argv)"
  by (simp add: build_argv_def)

subsection \<open>Streams\<close>

lemma drain_stream_general:
  assumes "0 \<le> cap" "\<forall>c \<in> set chunks. c \<noteq> []" "kept = take (nat cap) before" "trunc \<longleftrightarrow> int (length before) > cap"
  shows "drain_stream cap kept trunc chunks
    = (take (nat cap) (before @ concat chunks), int (length (before @ concat chunks)) > cap)"
  using assms(2-)
proof (induction chunks arbitrary: kept trunc before)
  case (Cons c cs)
  let ?room = "cap - int (length kept)"
  let ?kept = "if ?room > 0 then kept @ take (nat ?room) c else kept"
  have k: "?kept = take (nat cap) (before @ c)"
    using Cons.prems(2) assms(1) by (auto simp: take_append nat_diff_distrib)
  have trunc: "(trunc \<or> int (length c) > ?room) \<longleftrightarrow> int (length (before @ c)) > cap"
    using Cons.prems(1-3) assms(1) by (cases "int (length before) > cap") auto
  have "drain_stream cap kept trunc (c # cs) = drain_stream cap ?kept (trunc \<or> int (length c) > ?room) cs"
    using Cons.prems(1) by (simp add: Let_def)
  also have "\<dots> = (take (nat cap) ((before @ c) @ concat cs), int (length ((before @ c) @ concat cs)) > cap)"
    by (rule Cons.IH [OF _ k trunc]) (use Cons.prems(1) in simp)
  finally show ?case by simp
qed simp

lemma drain_stream_caps:
  assumes "0 \<le> cap" "\<forall>c \<in> set chunks. c \<noteq> []"
  shows "drain_stream cap [] False chunks = (take (nat cap) (concat chunks), int (length (concat chunks)) > cap)"
  using drain_stream_general [OF assms, of "[]" "[]" False] assms(1) by simp

text \<open>A process result can always be stored, and its size is bounded by the output cap.\<close>

lemma run_result_ok:
  assumes "run_result loads si cap out err returncode status = Inr r" "0 \<le> cap"
    "\<forall>c \<in> set out \<union> set err. c \<noteq> []"
  shows "p_stdout r = stream_text (take (nat cap) (concat out))"
    "p_stderr r = stream_text (take (nat cap) (concat err))"
    "p_truncated r \<longleftrightarrow> int (length (concat out)) > cap \<or> int (length (concat err)) > cap"
    "tree_storable (result_json r)"
    "int (utf8_len (p_stdout r)) \<le> 3 * cap" "int (utf8_len (p_stderr r)) \<le> 3 * cap"
proof -
  have o: "drain_stream cap [] False out = (take (nat cap) (concat out), int (length (concat out)) > cap)"
    and e: "drain_stream cap [] False err = (take (nat cap) (concat err), int (length (concat err)) > cap)"
    using assms(2,3) by (auto intro!: drain_stream_caps)
  show so: "p_stdout r = stream_text (take (nat cap) (concat out))"
    and se: "p_stderr r = stream_text (take (nat cap) (concat err))"
    and "p_truncated r \<longleftrightarrow> int (length (concat out)) > cap \<or> int (length (concat err)) > cap"
    using assms(1) by (auto simp: run_result_def o e bind_result_Inr_iff)
  show "tree_storable (result_json r)"
    by (simp add: result_json_def so se stream_text_storable is_surrogate_def)
  have len: "int (utf8_len (stream_text (take (nat cap) xs))) \<le> 3 * cap" for xs
  proof -
    have "utf8_len (stream_text (take (nat cap) xs)) \<le> 3 * length (take (nat cap) xs)" by (rule stream_text_len)
    also have "\<dots> \<le> 3 * nat cap" by simp
    finally show ?thesis using assms(2) by simp
  qed
  show "int (utf8_len (p_stdout r)) \<le> 3 * cap" "int (utf8_len (p_stderr r)) \<le> 3 * cap"
    unfolding so se by (rule len)+
qed

subsection \<open>Launch and kill\<close>

text \<open>A launch that does not hand over a process has undone what it started.\<close>

lemma spawn_undone:
  assumes "spawn w t loads si sid pid la = (Inl e, steps)"
  shows "(ProcessStarted \<in> set steps \<longleftrightarrow> la_start la = Inr ()) \<and> (AbortRun \<in> set steps \<longleftrightarrow> la_start la = Inr ())
    \<and> (OuterClosed \<in> set steps \<longleftrightarrow> la_start la = Inr () \<and> open_marked w t pid (marker SANDBOX_ENV sid) \<noteq> None)
    \<and> WriteEndClosed \<in> set steps"
  using assms by (auto simp: spawn_def Let_def split: if_splits option.splits sum.splits)

text \<open>
  The reading end of the status pipe is closed or handed over, except when the subprocess call
  is interrupted by anything but an \<open>OSError\<close>: then nobody owns it.
\<close>

lemma spawn_read_end:
  assumes "spawn w t loads si sid pid la = (res, steps)"
  shows "ReadEndClosed \<notin> set steps \<and> ReadEndHandedOver \<notin> set steps
    \<longleftrightarrow> (\<exists>e. la_start la = Inl e \<and> e \<noteq> OSError \<and> e \<noteq> ProcessLookupError)"
  using assms by (auto simp: spawn_def Let_def split: if_splits option.splits sum.splits)

lemma spawn_process:
  assumes "spawn w t loads si sid pid la = (Inr s, steps)"
  shows "AbortRun \<notin> set steps" "sx_pid s = pid" "sx_sandbox_id s = sid" "\<not> sx_dead s"
    "sx_outer s = open_marked w t pid (marker SANDBOX_ENV sid)"
    "sx_init s = open_marked w (t + 2) (sx_init_pid s) (marker SANDBOX_ENV sid)"
    "child_pid loads si (la_line la) = Inr (sx_init_pid s)"
  using assms by (auto simp: spawn_def Let_def split: if_splits option.splits sum.splits)

lemma open_marked_alive: "open_marked w t pid m = Some u \<Longrightarrow> alive_as w t pid u"
  by (auto simp: open_marked_def pidfd_open_def alive_as_def split: option.splits sum.splits if_splits)

lemma open_marked_carried:
  assumes "lawful w" "open_marked w t pid m = Some u" "alive_as w t' pid u" "t + 1 \<le> t'"
  shows "carried w (t + 1) pid u m"
proof -
  have "alive_as w (t + 1) pid u"
    using assms(1) open_marked_alive [OF assms(2)] assms(3,4) unfolding lawful_def by (meson le_add1)
  moreover have "environ_has w (t + 1) pid m"
    using assms(2) by (auto simp: open_marked_def split: option.splits sum.splits if_splits)
  ultimately show ?thesis by (auto simp: carried_def alive_as_def environ_has_def split: option.splits)
qed

lemma set_try_send: "u \<in> set (try_send w t pid h) \<longleftrightarrow> h = Some u \<and> alive_as w t pid u \<and> \<not> signal_error w t pid"
  by (auto simp: try_send_def pidfd_send_def split: option.splits)

text \<open>The hard kill reaches only processes that carried the sandbox's marker.\<close>

lemma sx_kill_targets:
  assumes "lawful w" "spawn w t loads si sid pid la = (Inr s, steps)" "t + 3 \<le> t'"
    "sx_kill w t' deadline s = (s', sent, answer)" "u \<in> set sent"
  shows "carried w (t + 1) pid u (marker SANDBOX_ENV sid)
    \<or> carried w (t + 3) (sx_init_pid s) u (marker SANDBOX_ENV sid)"
proof -
  note sp = spawn_process [OF assms(2)]
  have "(sx_outer s = Some u \<and> alive_as w t' pid u) \<or> (sx_init s = Some u \<and> alive_as w (t' + 1) (sx_init_pid s) u)"
    using assms(4,5) sp(2,4) by (auto simp: sx_kill_def Let_def set_try_send split: option.splits if_splits)
  then show ?thesis
  proof
    assume o: "sx_outer s = Some u \<and> alive_as w t' pid u"
    have "carried w (t + 1) pid u (marker SANDBOX_ENV sid)"
      by (rule open_marked_carried [OF assms(1), of t _ _ _ t']) (use o sp(5) assms(3) in auto)
    then show ?thesis by blast
  next
    assume i: "sx_init s = Some u \<and> alive_as w (t' + 1) (sx_init_pid s) u"
    have "carried w (t + 2 + 1) (sx_init_pid s) u (marker SANDBOX_ENV sid)"
      by (rule open_marked_carried [OF assms(1), of "t + 2" _ _ _ "t' + 1"]) (use i sp(6) assms(3) in auto)
    then show ?thesis by (simp add: numeral_eq_Suc)
  qed
qed

text \<open>Repeated calls, as the worker makes them: each is given its instant and its deadline.\<close>

fun sx_kills :: "os \<Rightarrow> (nat \<times> nat) list \<Rightarrow> sandbox_process \<Rightarrow> sandbox_process \<times> bool" where
  "sx_kills w [] s = (s, sx_dead s)"
| "sx_kills w ((t, deadline) # calls) s =
     (case sx_kill w t deadline s of (s1, sent, answer) \<Rightarrow> sx_kills w calls s1)"

lemma sx_kills_dead: "sx_dead s \<Longrightarrow> sx_kills w calls s = (s, True)"
  by (induction w calls s rule: sx_kills.induct) (auto simp: sx_kill_def)

lemma sx_kills_verified:
  assumes "sx_kills w calls s = (s', True)" "\<not> sx_dead s" "sx_init s = Some u"
  shows "\<exists>(t, deadline) \<in> set calls. \<not> alive_as w deadline (sx_init_pid s) u"
  using assms
proof (induction w calls s rule: sx_kills.induct)
  case (2 w t deadline calls s)
  show ?case
  proof (cases "alive_as w deadline (sx_init_pid s) u")
    case True
    then obtain sent where k: "sx_kill w t deadline s = (s, sent, False)"
      using "2.prems"(2,3) by (simp add: sx_kill_def Let_def)
    show ?thesis using "2.IH" [OF k [symmetric] refl] "2.prems" k by auto
  qed auto
qed auto

text \<open>Once the kill answers, the init is gone for good.\<close>

lemma sx_kills_final:
  assumes "lawful w" "spawn w t loads si sid pid la = (Inr s, steps)" "sx_init s = Some u"
    "sx_kills w calls s = (s', True)" "\<forall>(t', deadline) \<in> set calls. t + 2 \<le> deadline"
  shows "\<exists>(t', deadline) \<in> set calls. \<forall>later \<ge> deadline. \<not> alive_as w later (sx_init_pid s) u"
proof -
  note sp = spawn_process [OF assms(2)]
  have a: "alive_as w (t + 2) (sx_init_pid s) u" using open_marked_alive sp(6) assms(3) by metis
  obtain t' deadline where d: "(t', deadline) \<in> set calls" "\<not> alive_as w deadline (sx_init_pid s) u"
    using sx_kills_verified [OF assms(4) sp(4) assms(3)] by blast
  have "t + 2 \<le> deadline" using assms(5) d(1) by auto
  then have "\<not> alive_as w later (sx_init_pid s) u" if "later \<ge> deadline" for later
    using assms(1) a d(2) that unfolding lawful_def by blast
  then show ?thesis using d(1) by blast
qed

text \<open>A launch that could not open a pidfd leaves a kill that answers at once and signals nobody.\<close>

lemma unopened_kill:
  assumes "spawn w t loads si sid pid la = (Inr s, steps)" "open_error w t pid" "open_error w (t + 2) (sx_init_pid s)"
  shows "sx_kill w t' deadline s = (s\<lparr>sx_dead := True\<rparr>, [], True)"
proof -
  have "sx_outer s = None" "sx_init s = None" "\<not> sx_dead s"
    using spawn_process [OF assms(1)] assms(2,3) by (simp_all add: open_marked_def pidfd_open_def)
  then show ?thesis by (simp add: sx_kill_def try_send_def)
qed

subsection \<open>The pidfd's close\<close>

definition pidfd_inv :: "int \<Rightarrow> pidfd \<Rightarrow> int list \<Rightarrow> bool" where
  "pidfd_inv fd p fds \<longleftrightarrow> (if fds = [] then pf_fd p = fd else fds = [fd] \<and> pf_fd p = - 1 \<and> \<not> pf_waiting p)
     \<and> (pf_close_requested p \<longrightarrow> pf_waiting p \<or> fds = [fd])"

lemma pidfd_inv_step:
  assumes "0 \<le> fd" "pidfd_inv fd p fds" "pidfd_step e p = (p', c)"
  shows "pidfd_inv fd p' (fds @ c) \<and> (e = CloseAsked \<or> pf_close_requested p \<or> fds \<noteq> []
    \<longrightarrow> pf_close_requested p' \<or> fds @ c \<noteq> [])"
  using assms by (cases e) (auto simp: pidfd_inv_def pidfd_close_def Let_def split: if_splits)

lemma run_pidfd_inv:
  assumes "0 \<le> fd" "pidfd_inv fd p fds" "run_pidfd es p = (p', c)"
  shows "pidfd_inv fd p' (fds @ c) \<and> (CloseAsked \<in> set es \<or> pf_close_requested p \<or> fds \<noteq> []
    \<longrightarrow> pf_close_requested p' \<or> fds @ c \<noteq> [])"
  using assms(2,3)
proof (induction es arbitrary: p fds c)
  case (Cons e es)
  obtain p1 c1 c2 where 1: "pidfd_step e p = (p1, c1)" "run_pidfd es p1 = (p', c2)" "c = c1 @ c2"
    using Cons.prems(2) by (auto split: prod.splits)
  note s = pidfd_inv_step [OF assms(1) Cons.prems(1) 1(1)]
  show ?case using Cons.IH [OF conjunct1 [OF s] 1(2)] s unfolding 1(3) by auto
qed auto

text \<open>The descriptor is closed at most once, never under a reader, and at the latest when the wait ends.\<close>

lemma pidfd_closed_once:
  assumes "0 \<le> fd" "run_pidfd es \<lparr>pf_fd = fd, pf_waiting = False, pf_close_requested = False\<rparr> = (p, fds)"
  shows "fds \<in> {[], [fd]} \<and> (pf_waiting p \<longrightarrow> fds = []) \<and> (CloseAsked \<in> set es \<and> \<not> pf_waiting p \<longrightarrow> fds = [fd])"
proof -
  have "pidfd_inv fd \<lparr>pf_fd = fd, pf_waiting = False, pf_close_requested = False\<rparr> []" by (simp add: pidfd_inv_def)
  from run_pidfd_inv [OF assms(1) this assms(2)] show ?thesis by (auto simp: pidfd_inv_def split: if_splits)
qed

end
