(* ===== verification/Executors.thy ===== *)
theory Executors
  imports TaskDefs Sandboxes Controller
begin

text \<open>
  \<open>executors.py\<close>: the encoding of results, a handler's run, and the process execution with its
  stop and kill while a spawn may be under way. The sandbox itself is \<open>Sandboxes\<close>; the
  controller that drives both executions is \<open>Controller\<close>.
\<close>

section \<open>Results\<close>

text \<open>A handler's value: an instance of some model, with its plain dump, or any other object.\<close>

datatype 'v result_value = ModelResult 'v | PlainResult pyobj

fun result_caught :: "exn \<Rightarrow> bool" where
  "result_caught e \<longleftrightarrow> is_value_error e \<or> e \<in> {SchemaValidationError, TypeError, RecursionError}"

definition encode_result :: "(rat \<Rightarrow> ustr) \<Rightarrow> ('v result_value) output_api option \<Rightarrow> ('v \<Rightarrow> exn + pyobj) \<Rightarrow> 'v result_value
     \<Rightarrow> int \<Rightarrow> exn + ustr" where
  "encode_result fr out plain value cap =
     map_sum (\<lambda>e. if result_caught e then ResultSerializationError else e) id
       (case out of
          Some api \<Rightarrow>
            bind_result (oa_dump api value) (\<lambda>obj.
            bind_result (encode_capped fr (fst obj) (snd obj) cap) (\<lambda>text.
            bind_result (oa_check api obj) (\<lambda>_. Inr text)))
        | None \<Rightarrow>
            bind_result (case value of ModelResult m \<Rightarrow> plain m | PlainResult obj \<Rightarrow> Inr obj) (\<lambda>obj.
            encode_capped fr (fst obj) (snd obj) cap))"

definition asyncio_run :: "(rat \<Rightarrow> ustr) \<Rightarrow> ('m, 'v result_value) task_def \<Rightarrow> task_row \<Rightarrow> ('m \<Rightarrow> exn + 'v result_value)
     \<Rightarrow> ('v \<Rightarrow> exn + pyobj) \<Rightarrow> int \<Rightarrow> exn + ustr" where
  "asyncio_run fr td r handler plain cap =
     bind_result (validate_input fr (td_input td) r) (\<lambda>m.
     bind_result (handler m) (\<lambda>v. encode_result fr (td_output td) plain v cap))"

text \<open>
  \<open>TaskContext.enqueue\<close>: the worker's own settings and an idle autocommit connection of its
  pool; a task of one of the worker's types also sets its wake event.
\<close>

definition ctx_enqueue ::
  "nat \<Rightarrow> (nat \<Rightarrow> pg) \<Rightarrow> (nat \<Rightarrow> db \<Rightarrow> db) \<Rightarrow> (nat \<Rightarrow> rat) \<Rightarrow> rat \<Rightarrow> (rat \<Rightarrow> ustr) \<Rightarrow> settings \<Rightarrow> ustr list
     \<Rightarrow> ('m, 'v) task_def \<Rightarrow> 'm task_input \<Rightarrow> scalar \<Rightarrow> (time \<times> bool) option \<Rightarrow> ustr option \<Rightarrow> ustr option \<Rightarrow> pyobj \<Rightarrow> db
     \<Rightarrow> ((exn + db \<times> int \<times> (ustr \<times> ustr) list) \<times> hint_event list \<times> bool) option" where
  "ctx_enqueue fuel env others ticks start fr s types td inp prio run_at key ckey md d =
     map_option (\<lambda>(res, hs). (res, hs, (\<exists>r. res = Inr r) \<and> td_name td \<in> set types))
       (enqueue_with fuel env others ticks start fr s td (CallerConn True True) inp prio run_at key ckey md d)"

text \<open>\<open>_make_execution\<close>: a handler with its result cap, or a process with its three limits.\<close>

datatype execution = AsyncioExecution int | ProcessExecution "ustr list" sandbox int int rat

definition make_execution :: "settings \<Rightarrow> ('m, 'v) task_def \<Rightarrow> execution" where
  "make_execution s td = (case td_process td of
     Some (argv, sb) \<Rightarrow> ProcessExecution argv sb (result_cap s) (error_cap s) (kill_timeout_s s)
   | None \<Rightarrow> AsyncioExecution (result_cap s))"

section \<open>Process results\<close>

datatype process_end = ProcessReturned ustr | ProcessFailed "(ustr \<times> json) list" | ProcessRaised exn

definition failure_metadata :: "process_result \<Rightarrow> (ustr \<times> json) list" where
  "failure_metadata r =
     [(lit ''type'', JStr (lit ''ProcessFailed'')), (lit ''message'', JStr (lit ''exit code '' @ dec_int (exit_code r))),
      (lit ''exit_code'', JInt (exit_code r)), (lit ''stdout'', JStr (p_stdout r)),
      (lit ''stderr'', JStr (p_stderr r)), (lit ''truncated'', JBool (p_truncated r))]"

text \<open>The end of \<open>ProcessExecution.run\<close>; the fresh result dictionary is encoded as a tree.\<close>

definition process_outcome :: "(rat \<Rightarrow> ustr) \<Rightarrow> (json \<Rightarrow> ustr) \<Rightarrow> process_result \<Rightarrow> int \<Rightarrow> int \<Rightarrow> process_end" where
  "process_outcome fr ps r rcap ecap =
     (if exit_code r \<noteq> 0
      then (case truncate_error fr ps (failure_metadata r) ecap [lit ''stdout'', lit ''stderr''] of
              Inr md \<Rightarrow> ProcessFailed md
            | Inl e \<Rightarrow> ProcessRaised e)
      else (case bind_result (encode_tree fr (result_json r))
                   (\<lambda>text. if int (utf8_len text) > rcap then Inl OverCap else Inr text) of
              Inr text \<Rightarrow> ProcessReturned text
            | Inl e \<Rightarrow> ProcessRaised (if result_caught e then ResultSerializationError else e)))"

section \<open>The process execution\<close>

record process_execution =
  px_proc :: "sandbox_process option"
  px_stopped :: bool
  px_spawning :: bool

definition new_execution :: process_execution where
  "new_execution = \<lparr>px_proc = None, px_stopped = False, px_spawning = False\<rparr>"

text \<open>
  What happens to it: \<open>run\<close> starts the spawn and the spawn ends, the sandbox's own \<open>run\<close> ends
  (finished, or interrupted, with the instant and deadline of its kill), \<open>stop\<close> is called (its
  \<open>/proc\<close> walk is what the thread reads), and \<open>kill\<close> is called, its deadline past any wait
  for a spawn. The actions are the graceful signal with its targets and the answer of a kill.
\<close>

datatype px_event =
    SpawnBegins
  | SpawnEnds "exn + sandbox_process" nat "(ustr \<times> nat list option) list option"
  | RunEnds nat nat bool
  | StopCall nat "(ustr \<times> nat list option) list option"
  | KillCall nat nat

datatype px_action = Terminated "nat list" | KillAnswer bool

definition px_stop :: "os \<Rightarrow> nat \<Rightarrow> (ustr \<times> nat list option) list option \<Rightarrow> process_execution
     \<Rightarrow> process_execution \<times> px_action list" where
  "px_stop w t walk x = (x\<lparr>px_stopped := True\<rparr>, case px_proc x of
     None \<Rightarrow> [] | Some p \<Rightarrow> [Terminated (sx_terminate w t walk p)])"

definition px_spawned :: "os \<Rightarrow> exn + sandbox_process \<Rightarrow> nat \<Rightarrow> (ustr \<times> nat list option) list option
     \<Rightarrow> process_execution \<Rightarrow> process_execution \<times> px_action list" where
  "px_spawned w res t walk x = (case res of
     Inl _ \<Rightarrow> (x\<lparr>px_spawning := False\<rparr>, [])
   | Inr p \<Rightarrow> let x1 = x\<lparr>px_proc := Some p, px_spawning := False\<rparr>
             in if px_stopped x1 then px_stop w t walk x1 else (x1, []))"

definition px_kill :: "os \<Rightarrow> nat \<Rightarrow> nat \<Rightarrow> process_execution \<Rightarrow> process_execution \<times> px_action list" where
  "px_kill w t deadline x =
     (if px_spawning x then (x, [KillAnswer False])
      else case px_proc x of
             None \<Rightarrow> (x, [KillAnswer True])
           | Some p \<Rightarrow> (case sx_kill w t deadline p of (p1, sent, answer) \<Rightarrow>
               (x\<lparr>px_proc := Some p1\<rparr>, [KillAnswer answer])))"

fun px_step :: "os \<Rightarrow> px_event \<Rightarrow> process_execution \<Rightarrow> (process_execution \<times> px_action list) option" where
  "px_step w SpawnBegins x =
     (if px_spawning x \<or> px_proc x \<noteq> None then None else Some (x\<lparr>px_spawning := True\<rparr>, []))"
| "px_step w (SpawnEnds res t walk) x = (if px_spawning x then Some (px_spawned w res t walk x) else None)"
| "px_step w (RunEnds t deadline finished) x = (case px_proc x of
     None \<Rightarrow> None
   | Some p \<Rightarrow> Some (x\<lparr>px_proc := Some (sx_run_end w t deadline finished p)\<rparr>, []))"
| "px_step w (StopCall t walk) x = Some (px_stop w t walk x)"
| "px_step w (KillCall t deadline) x = Some (px_kill w t deadline x)"

fun px_run :: "os \<Rightarrow> px_event list \<Rightarrow> process_execution \<Rightarrow> (process_execution \<times> px_action list) option" where
  "px_run w [] x = Some (x, [])"
| "px_run w (e # es) x = (case px_step w e x of
     None \<Rightarrow> None
   | Some (x1, a1) \<Rightarrow> (case px_run w es x1 of None \<Rightarrow> None | Some (x2, a2) \<Rightarrow> Some (x2, a1 @ a2)))"

section \<open>Facts\<close>

subsection \<open>Results\<close>

lemma encode_result_InrD:
  assumes "encode_result fr out plain value cap = Inr text"
  shows "\<exists>obj. encode fr (fst obj) (snd obj) = Inr text \<and> int (utf8_len text) \<le> cap
    \<and> (\<forall>api. out = Some api \<longrightarrow> oa_dump api value = Inr obj \<and> oa_check api obj = Inr ())"
proof (cases out)
  case None
  with assms obtain obj where "encode_capped fr (fst obj) (snd obj) cap = Inr text"
    unfolding encode_result_def map_sum_def by (auto simp: bind_result_Inr_iff split: sum.splits)
  then show ?thesis using None encode_capped_InrD by blast
next
  case (Some api)
  with assms obtain obj where "oa_dump api value = Inr obj" "encode_capped fr (fst obj) (snd obj) cap = Inr text"
    "oa_check api obj = Inr ()"
    unfolding encode_result_def map_sum_def by (auto simp: bind_result_Inr_iff split: sum.splits)
  then show ?thesis using Some encode_capped_InrD by blast
qed

text \<open>Whatever goes wrong with a result is the one final error, unless the model raises something else.\<close>

lemma encode_result_Inl:
  assumes "encode_result fr out plain value cap = Inl e"
  shows "e = ResultSerializationError
    \<or> (\<not> result_caught e \<and> ((\<exists>api. out = Some api \<and> (oa_dump api value = Inl e \<or> (\<exists>obj. oa_check api obj = Inl e)))
        \<or> (\<exists>m. value = ModelResult m \<and> plain m = Inl e)))"
proof (cases out)
  case None
  with assms obtain x where x: "bind_result (case value of ModelResult m \<Rightarrow> plain m | PlainResult obj \<Rightarrow> Inr obj)
      (\<lambda>obj. encode_capped fr (fst obj) (snd obj) cap) = Inl x" "e = (if result_caught x then ResultSerializationError else x)"
    unfolding encode_result_def map_sum_def by (auto split: sum.splits)
  from bind_result_Inl [OF x(1)] have "result_caught x \<or> (\<exists>m. value = ModelResult m \<and> plain m = Inl x)"
    by (cases "value") (auto dest: encode_capped_Inl)
  then show ?thesis using x(2) by auto
next
  case (Some api)
  with assms obtain x where x: "bind_result (oa_dump api value) (\<lambda>obj.
      bind_result (encode_capped fr (fst obj) (snd obj) cap) (\<lambda>text. bind_result (oa_check api obj) (\<lambda>_. Inr text))) = Inl x"
    "e = (if result_caught x then ResultSerializationError else x)"
    unfolding encode_result_def map_sum_def by (auto split: sum.splits)
  from bind_result_Inl [OF x(1)] have "oa_dump api value = Inl x \<or> result_caught x \<or> (\<exists>obj. oa_check api obj = Inl x)"
    by (auto dest!: bind_result_Inl dest: encode_capped_Inl)
  then show ?thesis using x(2) Some by auto
qed

subsection \<open>Process results\<close>

lemma failure_metadata_flat:
  assumes "storable (p_stdout r)" "storable (p_stderr r)"
  shows "flat_ok (failure_metadata r)"
  using assms by (simp add: failure_metadata_def flat_ok_def is_surrogate_def storable_dec_int)

lemma type_text_failure: "type_text ps (failure_metadata r) = lit ''ProcessFailed''"
  by (simp add: type_text_def failure_metadata_def obj_get_def)

lemma result_json_encodes:
  assumes "storable (p_stdout r)" "storable (p_stderr r)"
  shows "\<exists>text. encode_tree fr (result_json r) = Inr text"
  unfolding result_json_def
  by (rule flat_ok_encodes) (use assms in \<open>simp add: flat_ok_def is_surrogate_def\<close>)

text \<open>
  A process that ran to its end always leaves a document that fits: its result, the final error
  for a result over the cap, or error metadata under the error cap.
\<close>

lemma process_outcome_total:
  assumes "storable (p_stdout r)" "storable (p_stderr r)" "412 \<le> ecap"
  shows "case process_outcome fr ps r rcap ecap of
      ProcessReturned text \<Rightarrow> exit_code r = 0 \<and> encode_tree fr (result_json r) = Inr text \<and> int (utf8_len text) \<le> rcap
    | ProcessFailed md \<Rightarrow> exit_code r \<noteq> 0 \<and> (\<exists>s. encode_tree fr (JObj md) = Inr s \<and> int (utf8_len s) \<le> ecap)
    | ProcessRaised e \<Rightarrow> exit_code r = 0 \<and> e = ResultSerializationError
        \<and> (\<exists>text. encode_tree fr (result_json r) = Inr text \<and> int (utf8_len text) > rcap)"
proof (cases "exit_code r = 0")
  case True
  obtain doc where "encode_tree fr (result_json r) = Inr doc" using result_json_encodes [OF assms(1,2)] by blast
  then show ?thesis using True by (simp add: process_outcome_def)
next
  case False
  have ty: "storable (type_text ps (failure_metadata r))" by (simp add: type_text_failure is_surrogate_def)
  from truncate_error_ok [OF failure_metadata_flat [OF assms(1,2)] ty assms(3)] obtain md s
    where "truncate_error fr ps (failure_metadata r) ecap [lit ''stdout'', lit ''stderr''] = Inr md"
      "encode_tree fr (JObj md) = Inr s" "int (utf8_len s) \<le> ecap" by blast
  then show ?thesis using False by (simp add: process_outcome_def)
qed

subsection \<open>Stop and kill around a spawn\<close>

lemma px_step_proc: "px_step w e x = Some (x', acts) \<Longrightarrow> px_proc x \<noteq> None \<Longrightarrow> px_proc x' \<noteq> None"
  by (cases e) (auto simp: px_spawned_def px_stop_def px_kill_def Let_def split: if_splits sum.splits prod.splits option.splits)

text \<open>Once asked to stop, an execution has signalled its sandbox or has none yet.\<close>

definition stop_inv :: "bool \<Rightarrow> bool \<Rightarrow> process_execution \<Rightarrow> bool" where
  "stop_inv asked signalled x \<longleftrightarrow> (px_stopped x \<longleftrightarrow> asked) \<and> (asked \<and> px_proc x \<noteq> None \<longrightarrow> signalled)
     \<and> (px_spawning x \<longrightarrow> px_proc x = None)"

lemma stop_inv_step:
  assumes "px_step w e x = Some (x', acts)" "stop_inv asked signalled x"
  shows "stop_inv (asked \<or> (\<exists>t walk. e = StopCall t walk)) (signalled \<or> (\<exists>us. Terminated us \<in> set acts)) x'"
proof (cases e)
  case (SpawnEnds res t walk)
  then show ?thesis using assms
    by (cases res) (auto simp: stop_inv_def px_spawned_def px_stop_def Let_def split: if_splits)
next
  case (KillCall t deadline)
  then show ?thesis using assms
    by (auto simp: stop_inv_def px_kill_def split: if_splits option.splits prod.splits)
qed (use assms in \<open>auto simp: stop_inv_def px_stop_def split: if_splits option.splits\<close>)

lemma stop_inv_run:
  assumes "px_run w es x = Some (x', acts)" "stop_inv asked signalled x"
  shows "stop_inv (asked \<or> (\<exists>t walk. StopCall t walk \<in> set es)) (signalled \<or> (\<exists>us. Terminated us \<in> set acts)) x'"
  using assms
proof (induction es arbitrary: x asked signalled acts)
  case (Cons e es)
  from Cons.prems(1) obtain x1 a1 a2 where 1: "px_step w e x = Some (x1, a1)" "px_run w es x1 = Some (x', a2)" "acts = a1 @ a2"
    by (auto split: option.splits)
  from Cons.IH [OF 1(2) stop_inv_step [OF 1(1) Cons.prems(2)]] show ?case
    unfolding 1(3) stop_inv_def by auto
qed auto

lemma px_stop_delivered:
  assumes "px_run w es new_execution = Some (x, acts)" "StopCall t walk \<in> set es" "px_proc x \<noteq> None"
  shows "\<exists>us. Terminated us \<in> set acts"
proof -
  have "stop_inv False False new_execution" by (simp add: stop_inv_def new_execution_def)
  from stop_inv_run [OF assms(1) this] show ?thesis using assms(2,3) by (auto simp: stop_inv_def)
qed

text \<open>A kill never answers while a spawn is under way, nor for a sandbox it has not found dead.\<close>

lemma px_kill_answer:
  assumes "px_step w (KillCall t deadline) x = Some (x', acts)" "KillAnswer True \<in> set acts"
  shows "\<not> px_spawning x \<and> (\<forall>p. px_proc x' = Some p \<longrightarrow> sx_dead p)"
  using assms by (auto simp: px_kill_def sx_kill_def Let_def close_fds_def split: if_splits option.splits prod.splits)

end
