(* ===== verification/Settlement.thy ===== *)
theory Settlement
  imports Executors Controller
begin

text \<open>
  The controller and the sandbox together: the answers the controller's \<open>kill\<close> calls get are those
  of the process execution it drives (\<open>ProcessExecution\<close> over \<open>SandboxProcess\<close>), so that the outcome of
  a sandboxed attempt is written only when its sandbox has ended. The contract between the two is
  the locale \<open>hard_kill\<close>.
\<close>

section \<open>The contract of a kill\<close>

text \<open>A history of steps, with what they answer.\<close>

fun run_answers :: "('e \<Rightarrow> 's \<Rightarrow> ('s \<times> 'a list) option) \<Rightarrow> 'e list \<Rightarrow> 's \<Rightarrow> ('s \<times> 'a list) option" where
  "run_answers step [] s = Some (s, [])"
| "run_answers step (e # es) s = (case step e s of
     None \<Rightarrow> None
   | Some (s1, a1) \<Rightarrow> map_option (apsnd ((@) a1)) (run_answers step es s1))"

locale hard_kill =
  fixes step :: "'e \<Rightarrow> 's \<Rightarrow> ('s \<times> bool list) option" and dead :: "'s \<Rightarrow> bool"
  assumes answer_dead: "step e s = Some (s', answers) \<Longrightarrow> True \<in> set answers \<Longrightarrow> dead s'"
    and dead_stays: "step e s = Some (s', answers) \<Longrightarrow> dead s \<Longrightarrow> dead s'"
begin

lemma run_dead_stays: "run_answers step es s = Some (s', answers) \<Longrightarrow> dead s \<Longrightarrow> dead s'"
  by (induction es arbitrary: s answers) (auto split: option.splits dest: dead_stays)

lemma run_answer_dead: "run_answers step es s = Some (s', answers) \<Longrightarrow> True \<in> set answers \<Longrightarrow> dead s'"
proof (induction es arbitrary: s answers)
  case (Cons e es)
  then obtain s1 a1 a2 where 1: "step e s = Some (s1, a1)" "run_answers step es s1 = Some (s', a2)" "answers = a1 @ a2"
    by (auto split: option.splits)
  show ?case using Cons.IH [OF 1(2)] Cons.prems(2) 1(3) answer_dead [OF 1(1)] run_dead_stays [OF 1(2)] by auto
qed simp

end

section \<open>Its providers\<close>

definition sx_call :: "os \<Rightarrow> nat \<times> nat \<Rightarrow> sandbox_process \<Rightarrow> (sandbox_process \<times> bool list) option" where
  "sx_call w c s = (case sx_kill w (fst c) (snd c) s of (s', sent, answer) \<Rightarrow> Some (s', [answer]))"

lemma sx_kill_answer: "sx_kill w t deadline s = (s', sent, answer) \<Longrightarrow> sx_dead s' = answer"
  by (auto simp: sx_kill_def Let_def close_fds_def split: if_splits option.splits)

lemma sx_kill_dead: "sx_dead s \<Longrightarrow> sx_kill w t deadline s = (s, [], True)"
  by (simp add: sx_kill_def)

interpretation sandbox_kill: hard_kill "sx_call w" sx_dead for w
  by unfold_locales (auto simp: sx_call_def sx_kill_dead split: prod.splits dest: sx_kill_answer)

text \<open>An execution after its launch has begun; it begins once.\<close>

definition kill_answers :: "px_action list \<Rightarrow> bool list" where
  "kill_answers acts = concat (map (\<lambda>a. case a of KillAnswer b \<Rightarrow> [b] | _ \<Rightarrow> []) acts)"

definition px_call :: "os \<Rightarrow> px_event \<Rightarrow> process_execution \<Rightarrow> (process_execution \<times> bool list) option" where
  "px_call w e x = (if e = SpawnBegins then None else map_option (apsnd kill_answers) (px_step w e x))"

definition px_dead :: "process_execution \<Rightarrow> bool" where
  "px_dead x \<longleftrightarrow> \<not> px_spawning x \<and> (\<forall>p. px_proc x = Some p \<longrightarrow> sx_dead p)"

lemma kill_answers_simps [simp]:
  "kill_answers [] = []" "kill_answers (a # as) = (case a of KillAnswer b \<Rightarrow> [b] | _ \<Rightarrow> []) @ kill_answers as"
  "kill_answers (as @ bs) = kill_answers as @ kill_answers bs"
  by (simp_all add: kill_answers_def)

lemma sx_run_end_dead: "sx_dead p \<Longrightarrow> sx_dead (sx_run_end w t deadline finished p)"
  by (simp add: sx_run_end_def close_fds_def sx_kill_def Let_def)

interpretation execution_kill: hard_kill "px_call w" px_dead for w
proof
  fix e :: px_event and x x' answers
  assume step: "px_call w e x = Some (x', answers)"
  then obtain acts where s: "e \<noteq> SpawnBegins" "px_step w e x = Some (x', acts)" "answers = kill_answers acts"
    by (auto simp: px_call_def split: if_splits)
  show "px_dead x'" if "True \<in> set answers"
    using that s
    by (cases e) (auto simp: px_dead_def px_spawned_def px_stop_def px_kill_def Let_def
        split: if_splits option.splits sum.splits prod.splits dest: sx_kill_answer)
  show "px_dead x'" if "px_dead x"
    using that s(1,2)
    by (cases e) (auto simp: px_dead_def px_stop_def px_kill_def sx_kill_def sx_run_end_dead
        split: if_splits option.splits prod.splits)
qed

text \<open>A process execution's history after the launch began is one of these steps.\<close>

lemma px_run_answers:
  "px_run w es x = Some (x', acts) \<Longrightarrow> SpawnBegins \<notin> set es
    \<Longrightarrow> run_answers (px_call w) es x = Some (x', kill_answers acts)"
  by (induction es arbitrary: x acts) (auto simp: px_call_def split: option.splits)

section \<open>What a verified kill saw\<close>

text \<open>
  How the sandbox that was launched has ended: its run finished, or its init had exited by the
  deadline of a kill.
\<close>

definition ended_by :: "os \<Rightarrow> px_event list \<Rightarrow> int \<Rightarrow> nat \<Rightarrow> bool" where
  "ended_by w es pid u \<longleftrightarrow> (\<exists>t deadline. RunEnds t deadline True \<in> set es)
     \<or> (\<exists>t deadline. (KillCall t deadline \<in> set es \<or> RunEnds t deadline False \<in> set es) \<and> \<not> alive_as w deadline pid u)"

lemma ended_by_mono: "ended_by w es pid u \<Longrightarrow> set es \<subseteq> set es' \<Longrightarrow> ended_by w es' pid u"
  unfolding ended_by_def by blast

definition launched :: "os \<Rightarrow> px_event list \<Rightarrow> int \<Rightarrow> nat \<Rightarrow> sandbox_process \<Rightarrow> bool" where
  "launched w es pid u p \<longleftrightarrow> sx_init_pid p = pid \<and> (if sx_dead p then ended_by w es pid u else sx_init p = Some u)"

lemma launched_kill:
  assumes "launched w es pid u p" "sx_kill w t deadline p = (p', sent, answer)"
  shows "launched w (es @ [KillCall t deadline]) pid u p'"
    "launched w (es @ [RunEnds t deadline False]) pid u (close_fds p')"
proof -
  have e: "ended_by w (es @ [KillCall t deadline]) pid u" "ended_by w (es @ [RunEnds t deadline False]) pid u"
    if "ended_by w es pid u \<or> \<not> alive_as w deadline pid u"
    using that unfolding ended_by_def by auto
  show "launched w (es @ [KillCall t deadline]) pid u p'"
    "launched w (es @ [RunEnds t deadline False]) pid u (close_fds p')"
    using assms e by (auto simp: launched_def sx_kill_def close_fds_def Let_def split: if_splits)
qed

lemma launched_run_end:
  assumes "launched w es pid u p"
  shows "launched w (es @ [RunEnds t deadline finished]) pid u (sx_run_end w t deadline finished p)"
proof (cases finished)
  case True
  then show ?thesis using assms by (auto simp: launched_def sx_run_end_def close_fds_def Let_def ended_by_def)
next
  case False
  obtain p' sent answer where "sx_kill w t deadline p = (p', sent, answer)" by (cases "sx_kill w t deadline p") auto
  then show ?thesis using launched_kill(2) [OF assms] False by (simp add: sx_run_end_def)
qed

text \<open>The execution before its launch has ended, or with the sandbox of its one launch.\<close>

definition px_inv :: "os \<Rightarrow> px_event list \<Rightarrow> process_execution \<Rightarrow> bool" where
  "px_inv w es x \<longleftrightarrow> (\<forall>s t walk. SpawnEnds (Inr s) t walk \<in> set es \<longrightarrow>
       \<not> px_spawning x \<and> (\<forall>u. sx_init s = Some u \<and> \<not> sx_dead s \<longrightarrow>
         (\<exists>p. px_proc x = Some p \<and> launched w es (sx_init_pid s) u p)))"

lemma launched_later: "launched w es pid u p \<Longrightarrow> launched w (es @ [e]) pid u p"
  using ended_by_mono [of w es pid u "es @ [e]"] by (auto simp: launched_def subset_insertI)

lemma px_inv_step:
  assumes inv: "px_inv w es x" and step: "px_step w e x = Some (x', acts)" and e: "e \<noteq> SpawnBegins"
  shows "px_inv w (es @ [e]) x'"
proof (cases "\<exists>res t walk. e = SpawnEnds res t walk")
  case True
  then obtain res t walk where s: "e = SpawnEnds res t walk" by blast
  then have "px_spawning x" and x': "px_spawned w res t walk x = (x', acts)"
    using step by (auto split: if_splits)
  then have none: "SpawnEnds (Inr s') t' walk' \<notin> set es" for s' t' walk'
    using inv by (auto simp: px_inv_def)
  show ?thesis using x' none
    by (auto simp: px_inv_def s px_spawned_def px_stop_def launched_def Let_def split: sum.splits if_splits)
next
  case False
  have "\<not> px_spawning x' \<and> (\<forall>u. sx_init s = Some u \<and> \<not> sx_dead s \<longrightarrow>
      (\<exists>p. px_proc x' = Some p \<and> launched w (es @ [e]) (sx_init_pid s) u p))"
    if "SpawnEnds (Inr s) t walk \<in> set es" for s t walk
  proof -
    have i: "\<not> px_spawning x" and p: "\<exists>p. px_proc x = Some p \<and> launched w es (sx_init_pid s) u p"
      if "sx_init s = Some u" "\<not> sx_dead s" for u
      using inv \<open>SpawnEnds (Inr s) t walk \<in> set es\<close> that by (auto simp: px_inv_def)
    have ns: "\<not> px_spawning x" using inv that unfolding px_inv_def by blast
    have new: "px_spawning x' = px_spawning x"
      using step False e ns by (cases e) (auto simp: px_stop_def px_kill_def split: option.splits prod.splits)
    have "\<exists>p'. px_proc x' = Some p' \<and> launched w (es @ [e]) (sx_init_pid s) u p'"
      if u: "sx_init s = Some u" "\<not> sx_dead s" for u
    proof -
      obtain p where pr: "px_proc x = Some p" "launched w es (sx_init_pid s) u p" using p [OF u] by blast
      show ?thesis using step False e ns pr launched_later [OF pr(2), of e] launched_run_end [OF pr(2)]
          launched_kill(1) [OF pr(2)]
        by (cases e) (auto simp: px_stop_def px_kill_def split: prod.splits)
    qed
    then show ?thesis using new ns by blast
  qed
  then show ?thesis using False unfolding px_inv_def by auto
qed

lemma px_inv_run:
  assumes "px_run w es x = Some (x', acts)" "px_inv w pre x" "SpawnBegins \<notin> set es"
  shows "px_inv w (pre @ es) x'"
  using assms
proof (induction es arbitrary: pre x acts)
  case (Cons e es)
  from Cons.prems(1) obtain x1 a1 a2 where 1: "px_step w e x = Some (x1, a1)" "px_run w es x1 = Some (x', a2)"
    by (auto split: option.splits)
  show ?case using Cons.IH [OF 1(2) px_inv_step [OF Cons.prems(2) 1(1)]] Cons.prems(3) by auto
qed simp

text \<open>
  When some kill of an execution whose launch had begun answered true, the sandbox it launched has ended.
\<close>

lemma verified_kill_ended:
  assumes run: "px_run w (SpawnBegins # es) new_execution = Some (x, acts)" "SpawnBegins \<notin> set es"
    and true: "True \<in> set (kill_answers acts)"
    and launch: "SpawnEnds (Inr s) t walk \<in> set es" "sx_init s = Some u" "\<not> sx_dead s"
  shows "ended_by w es (sx_init_pid s) u"
proof -
  let ?x1 = "new_execution\<lparr>px_spawning := True\<rparr>"
  have r: "px_run w es ?x1 = Some (x, acts)"
    using run(1) by (auto simp: new_execution_def split: option.splits)
  have "px_inv w [] ?x1" by (simp add: px_inv_def)
  from px_inv_run [OF r this run(2)] launch obtain p where p: "px_proc x = Some p" "launched w es (sx_init_pid s) u p"
    by (auto simp: px_inv_def)
  have "px_dead x" using execution_kill.run_answer_dead [OF px_run_answers [OF r run(2)] true] .
  with p show ?thesis by (auto simp: px_dead_def launched_def)
qed

text \<open>With what Linux guarantees, an init that had exited stays gone.\<close>

lemma ended_by_final:
  assumes "lawful w" "spawn w t0 loads si sid pid la = (Inr s, steps)" "sx_init s = Some u"
    "ended_by w es (sx_init_pid s) u"
    "\<forall>t deadline b. KillCall t deadline \<in> set es \<or> RunEnds t deadline b \<in> set es \<longrightarrow> t0 + 2 \<le> deadline"
  shows "(\<exists>t deadline. RunEnds t deadline True \<in> set es)
    \<or> (\<exists>t deadline. (KillCall t deadline \<in> set es \<or> RunEnds t deadline False \<in> set es)
         \<and> (\<forall>later \<ge> deadline. \<not> alive_as w later (sx_init_pid s) u))"
proof -
  have a: "alive_as w (t0 + 2) (sx_init_pid s) u"
    using open_marked_alive spawn_process(6) [OF assms(2)] assms(3) by metis
  have "\<not> alive_as w later (sx_init_pid s) u"
    if "t0 + 2 \<le> deadline" "deadline \<le> later" "\<not> alive_as w deadline (sx_init_pid s) u" for deadline later
    using assms(1) a that unfolding lawful_def by blast
  then show ?thesis using assms(4,5) unfolding ended_by_def by blast
qed

section \<open>The controller's side\<close>

text \<open>The last answer the controller got before it wrote is true.\<close>

definition kills_of :: "action list \<Rightarrow> bool list" where
  "kills_of tr = concat (map (\<lambda>a. case a of DoKill b \<Rightarrow> [b] | _ \<Rightarrow> []) tr)"

lemma written_after_true:
  assumes "controlled fr ps cap timeout fuel recorded sc c = Some (tr, fatal)" "sc_process sc"
    "tr = xs @ DoWrite k v # ys"
  shows "True \<in> set (kills_of xs)"
  using write_after_verified_kill [OF assms] by (auto simp: kills_of_def)

end
