(* ===== verification/Subscribing.thy ===== *)
theory Subscribing
  imports Delivery
begin

text \<open>
  \<open>subscribe\<close> of \<open>feed.py\<close> from its arguments to an open feed: registration, the wait for the
  transactions that may have read the old set of subscriptions (\<open>backfill_blockers\<close> of \<open>store.py\<close>,
  \<open>_wait_for_transactions\<close>), the backfill, and the loop of \<open>__anext__\<close> that waits for a delivery.
\<close>

section \<open>Transactions in the way\<close>

text \<open>The rows of \<open>pg_locks\<close> and \<open>pg_stat_activity\<close> the query reads, and the server's state around them.\<close>

record lock_row =
  lo_type :: ustr
  lo_mode :: ustr
  lo_granted :: bool
  lo_vxid :: ustr
  lo_pid :: int

record activity =
  ac_pid :: int
  ac_database :: "ustr option"
  ac_user :: "ustr option"
  ac_application :: "ustr option"
  ac_xact_start :: "time option"

record server_view =
  sv_locks :: "lock_row list"
  sv_activity :: "activity list"
  sv_backend :: int
  sv_database :: ustr
  sv_clock :: time

type_synonym blocker = "ustr \<times> int \<times> ustr option \<times> ustr option \<times> rat option"

definition backfill_blockers :: "server_view \<Rightarrow> ustr list option \<Rightarrow> blocker list" where
  "backfill_blockers v transactions =
     concat (map (\<lambda>l. map (\<lambda>a. (lo_vxid l, lo_pid l, ac_user a, ac_application a,
                              map_option (\<lambda>t. sv_clock v - t) (ac_xact_start a)))
         (filter (\<lambda>a. ac_pid a = lo_pid l \<and> ac_database a = Some (sv_database v)) (sv_activity v)))
       (filter (\<lambda>l. lo_type l = lit ''virtualxid'' \<and> lo_mode l = lit ''ExclusiveLock'' \<and> lo_granted l
            \<and> lo_pid l \<noteq> sv_backend v
            \<and> (case transactions of None \<Rightarrow> True | Some ts \<Rightarrow> lo_vxid l \<in> set ts)) (sv_locks v)))"

text \<open>
  The polling loop: \<open>view k\<close> and \<open>dbs k\<close> are the server and the tables at poll \<open>k\<close>. The result is
  whether the wait was completed and the poll at which it ended; it runs on fuel.
\<close>

fun wait_loop :: "nat \<Rightarrow> (nat \<Rightarrow> server_view) \<Rightarrow> (nat \<Rightarrow> db) \<Rightarrow> ustr \<Rightarrow> uuid \<Rightarrow> ustr list \<Rightarrow> nat
     \<Rightarrow> blocker list \<Rightarrow> (bool \<times> nat) option" where
  "wait_loop 0 view dbs name g ts k blockers = None"
| "wait_loop (Suc fuel) view dbs name g ts k blockers =
     (if blockers = [] then Some (True, k)
      else if (case find_sub (dbs k) name of None \<Rightarrow> True | Some s \<Rightarrow> s_generation s \<noteq> g) then Some (False, k)
      else wait_loop fuel view dbs name g ts (Suc k) (backfill_blockers (view (Suc k)) (Some ts)))"

definition wait_for_transactions :: "nat \<Rightarrow> (nat \<Rightarrow> server_view) \<Rightarrow> (nat \<Rightarrow> db) \<Rightarrow> ustr \<Rightarrow> uuid
     \<Rightarrow> (bool \<times> nat) option" where
  "wait_for_transactions fuel view dbs name g =
     (let blockers = backfill_blockers (view 0) None
      in wait_loop fuel view dbs name g (map fst blockers) 0 blockers)"

section \<open>Backfill and subscribe\<close>

definition BACKFILL_CHUNK :: nat where "BACKFILL_CHUNK = 5000"

text \<open>\<open>dbs n\<close> is also what the first chunk finds after a wait of \<open>n\<close> polls.\<close>

definition feed_backfill :: "nat \<Rightarrow> (nat \<Rightarrow> server_view) \<Rightarrow> (nat \<Rightarrow> db) \<Rightarrow> (nat \<Rightarrow> pg) \<Rightarrow> ustr \<Rightarrow> uuid
     \<Rightarrow> (db \<times> bool) option" where
  "feed_backfill fuel view dbs env name g = (case wait_for_transactions fuel view dbs name g of
     None \<Rightarrow> None
   | Some (True, n) \<Rightarrow> backfill_loop fuel env name g BACKFILL_CHUNK 0 (dbs n)
   | Some (False, n) \<Rightarrow> Some (dbs n, False))"

text \<open>
  \<open>subscribe\<close>: an error, or the tables and the feed it yields. \<open>others k\<close> is what other sessions have
  done to the tables by poll \<open>k\<close> after the registration.
\<close>

definition subscribe :: "nat \<Rightarrow> (nat \<Rightarrow> server_view) \<Rightarrow> (nat \<Rightarrow> db \<Rightarrow> db) \<Rightarrow> pg \<Rightarrow> (nat \<Rightarrow> pg)
     \<Rightarrow> ustr \<Rightarrow> ustr list \<Rightarrow> ustr list option \<Rightarrow> int \<Rightarrow> backfill_input \<Rightarrow> db \<Rightarrow> (exn + db \<times> feed) option" where
  "subscribe fuel view others env env' name states types batch_size backfill d =
     (case check_subscribe name states types batch_size backfill of
        Inl e \<Rightarrow> Some (Inl e)
      | Inr (selected, window) \<Rightarrow>
          (case store_register_subscription env name selected types window d of
             (d1, g, marker) \<Rightarrow>
               let feed_of = (\<lambda>ready. \<lparr>fd_name = name, fd_generation = g, fd_batch_size = nat batch_size,
                                fd_closed = \<not> ready, fd_batch = None\<rparr>)
               in case marker of
                    None \<Rightarrow> Some (Inr (d1, feed_of True))
                  | Some _ \<Rightarrow> map_option (\<lambda>(d2, ready). Inr (d2, feed_of ready))
                      (feed_backfill fuel view (\<lambda>k. others k d1) env' name g)))"

section \<open>Waiting for a delivery\<close>

text \<open>\<open>__anext__\<close>: passes until one delivers or the feed ends; \<open>dbs k\<close> and \<open>busy k\<close> belong to pass \<open>k\<close>.\<close>

fun feed_anext :: "nat \<Rightarrow> (nat \<Rightarrow> int \<Rightarrow> bool) \<Rightarrow> (nat \<Rightarrow> db) \<Rightarrow> nat \<Rightarrow> feed \<Rightarrow> (nat \<times> feed \<times> next_result) option" where
  "feed_anext 0 busy dbs k f = None"
| "feed_anext (Suc fuel) busy dbs k f = (case feed_next (busy k) (dbs k) f of
     (f1, Wait) \<Rightarrow> feed_anext fuel busy dbs (Suc k) f1
   | (f1, Stop) \<Rightarrow> Some (k, f1, Stop)
   | (f1, Deliver evs) \<Rightarrow> Some (k, f1, Deliver evs))"

section \<open>Facts\<close>

subsection \<open>The wait\<close>

lemma blockers_iff:
  "x \<in> fst ` set (backfill_blockers v ts) \<longleftrightarrow> (\<exists>l \<in> set (sv_locks v). \<exists>a \<in> set (sv_activity v).
     lo_vxid l = x \<and> lo_type l = lit ''virtualxid'' \<and> lo_mode l = lit ''ExclusiveLock'' \<and> lo_granted l
     \<and> lo_pid l \<noteq> sv_backend v \<and> (case ts of None \<Rightarrow> True | Some xs \<Rightarrow> x \<in> set xs)
     \<and> ac_pid a = lo_pid l \<and> ac_database a = Some (sv_database v))"
  by (force simp: backfill_blockers_def image_iff)

text \<open>Whether a transaction shows as running in a view, other than the subscriber's own.\<close>

definition shown :: "server_view \<Rightarrow> ustr \<Rightarrow> bool" where
  "shown v x \<longleftrightarrow> x \<in> fst ` set (backfill_blockers v None)"

lemma captured_shown: "x \<in> fst ` set (backfill_blockers v (Some ts)) \<longleftrightarrow> shown v x \<and> x \<in> set ts"
  by (auto simp: shown_def blockers_iff)

lemma blockers_empty: "backfill_blockers v (Some ts) = [] \<longleftrightarrow> (\<forall>x \<in> set ts. \<not> shown v x)"
proof -
  have "backfill_blockers v (Some ts) = [] \<longleftrightarrow> fst ` set (backfill_blockers v (Some ts)) = {}" by simp
  also have "\<dots> \<longleftrightarrow> (\<forall>x \<in> set ts. \<not> shown v x)" using captured_shown [of _ v ts] by (metis ex_in_conv)
  finally show ?thesis .
qed

text \<open>A completed wait ends at the first poll that shows none of the captured transactions.\<close>

lemma wait_loop_result:
  assumes "wait_loop fuel view dbs name g ts k blockers = Some (ready, n)"
    "blockers = [] \<longleftrightarrow> (\<forall>x \<in> set ts. \<not> shown (view k) x)"
  shows "k \<le> n \<and> (ready \<longleftrightarrow> (\<forall>x \<in> set ts. \<not> shown (view n) x))
    \<and> (\<forall>j. k \<le> j \<and> j < n \<longrightarrow> (\<exists>x \<in> set ts. shown (view j) x) \<and> (\<exists>s. find_sub (dbs j) name = Some s \<and> s_generation s = g))
    \<and> (\<not> ready \<longrightarrow> (\<forall>s. find_sub (dbs n) name = Some s \<longrightarrow> s_generation s \<noteq> g))"
  using assms
proof (induction fuel arbitrary: k blockers)
  case (Suc fuel)
  show ?case
  proof (cases "blockers = [] \<or> (case find_sub (dbs k) name of None \<Rightarrow> True | Some s \<Rightarrow> s_generation s \<noteq> g)")
    case True
    then show ?thesis using Suc.prems by (auto split: if_splits option.splits)
  next
    case False
    then have run: "wait_loop fuel view dbs name g ts (Suc k) (backfill_blockers (view (Suc k)) (Some ts)) = Some (ready, n)"
      using Suc.prems(1) by (auto split: if_splits)
    have here: "(\<exists>x \<in> set ts. shown (view k) x) \<and> (\<exists>s. find_sub (dbs k) name = Some s \<and> s_generation s = g)"
      using False Suc.prems(2) by (auto split: option.splits)
    have IH: "Suc k \<le> n \<and> (ready \<longleftrightarrow> (\<forall>x \<in> set ts. \<not> shown (view n) x))
      \<and> (\<forall>j. Suc k \<le> j \<and> j < n \<longrightarrow> (\<exists>x \<in> set ts. shown (view j) x) \<and> (\<exists>s. find_sub (dbs j) name = Some s \<and> s_generation s = g))
      \<and> (\<not> ready \<longrightarrow> (\<forall>s. find_sub (dbs n) name = Some s \<longrightarrow> s_generation s \<noteq> g))"
      by (rule Suc.IH [OF run blockers_empty])
    have "(\<exists>x \<in> set ts. shown (view j) x) \<and> (\<exists>s. find_sub (dbs j) name = Some s \<and> s_generation s = g)"
      if "k \<le> j" "j < n" for j
      using IH here that by (cases "j = k") auto
    then show ?thesis using IH by auto
  qed
qed simp

lemma wait_loop_ends:
  assumes "\<forall>x \<in> set ts. \<not> shown (view (k + n)) x" "n < fuel"
    "blockers = [] \<longleftrightarrow> (\<forall>x \<in> set ts. \<not> shown (view k) x)"
  shows "wait_loop fuel view dbs name g ts k blockers \<noteq> None"
  using assms
proof (induction fuel arbitrary: k n blockers)
  case (Suc fuel)
  show ?case
  proof (cases n)
    case 0
    then show ?thesis using Suc.prems by simp
  next
    case (Suc m)
    have "wait_loop fuel view dbs name g ts (Suc k) (backfill_blockers (view (Suc k)) (Some ts)) \<noteq> None"
      by (rule Suc.IH [where n = m]) (use Suc.prems Suc blockers_empty in auto)
    then show ?thesis by auto
  qed
qed simp

lemma captured_iff: "x \<in> set (map fst (backfill_blockers v None)) \<longleftrightarrow> shown v x"
  by (auto simp: shown_def)

lemma first_blockers: "backfill_blockers v None = [] \<longleftrightarrow> (\<forall>x \<in> set (map fst (backfill_blockers v None)). \<not> shown v x)"
  by (cases "backfill_blockers v None") (auto simp: shown_def)


lemma wait_result:
  assumes "wait_for_transactions fuel view dbs name g = Some (ready, n)"
  shows "(ready \<longleftrightarrow> (\<forall>x. shown (view 0) x \<longrightarrow> \<not> shown (view n) x))
    \<and> (\<forall>j < n. (\<exists>x. shown (view 0) x \<and> shown (view j) x) \<and> (\<exists>s. find_sub (dbs j) name = Some s \<and> s_generation s = g))
    \<and> (\<not> ready \<longrightarrow> (\<forall>s. find_sub (dbs n) name = Some s \<longrightarrow> s_generation s \<noteq> g))"
  using wait_loop_result [OF assms [unfolded wait_for_transactions_def Let_def] first_blockers]
  unfolding captured_iff Ball_def Bex_def by auto

lemma wait_ends:
  assumes "\<forall>x. shown (view 0) x \<longrightarrow> \<not> shown (view n) x" "n < fuel"
  shows "wait_for_transactions fuel view dbs name g \<noteq> None"
proof -
  have "\<forall>x \<in> set (map fst (backfill_blockers (view 0) None)). \<not> shown (view (0 + n)) x"
    using assms(1) captured_iff by simp
  from wait_loop_ends [OF this assms(2) first_blockers, of dbs name g]
  show ?thesis unfolding wait_for_transactions_def Let_def .
qed

text \<open>
  The transactions of the database as the server shows them: one that runs at a poll holds its
  virtual id then, and its session is listed.
\<close>

record txn =
  tx_vxid :: ustr
  tx_begin :: time
  tx_end :: "time option"

definition running_at :: "txn \<Rightarrow> time \<Rightarrow> bool" where
  "running_at T t \<longleftrightarrow> tx_begin T \<le> t \<and> (case tx_end T of None \<Rightarrow> True | Some e \<Rightarrow> t < e)"

definition shows_running :: "(nat \<Rightarrow> server_view) \<Rightarrow> (nat \<Rightarrow> time) \<Rightarrow> txn \<Rightarrow> bool" where
  "shows_running view tm T \<longleftrightarrow> (\<forall>k. running_at T (tm k) \<longrightarrow> shown (view k) (tx_vxid T))"

lemma waited_over:
  assumes "wait_for_transactions fuel view dbs name g = Some (True, n)" "shows_running view tm T"
    "tx_begin T \<le> tm 0" "tm 0 \<le> tm n"
  shows "\<exists>e. tx_end T = Some e \<and> e \<le> tm n"
proof -
  have "\<not> (running_at T (tm 0) \<and> running_at T (tm n))"
    using wait_result [OF assms(1)] assms(2) unfolding shows_running_def by blast
  then have "\<not> running_at T (tm n)"
    using assms(4) by (auto simp: running_at_def assms(3) split: option.splits)
  then show ?thesis using assms(3,4) by (auto simp: running_at_def split: option.splits)
qed

subsection \<open>A new subscription\<close>

lemma find_row_append: "find_row P (xs @ ys) = (case find_row P xs of None \<Rightarrow> find_row P ys | Some x \<Rightarrow> Some x)"
  by (induction xs) auto

lemma distinct_fst_marker: "new_marker env states w = Some m \<Longrightarrow> distinct (map fst (bf_pending m))
    \<and> length (bf_pending m) \<le> length states \<and> (\<forall>st after. (st, after) \<in> set (bf_pending m) \<longleftrightarrow> st \<in> set states \<and> after = 0)"
  by (auto simp: new_marker_def comp_def length_remdups_leq split: backfill_arg.splits bool.splits)

lemma outstanding_length:
  assumes "db_inv d" "distinct (map fst (bf_pending m))"
  shows "length (outstanding types m (tasks d)) \<le> length (tasks d)"
proof -
  have d: "distinct (map t_id (outstanding types m (tasks d)))"
    by (rule distinct_outstanding [OF db_inv_ids [OF assms(1)] assms(2)])
  have "set (outstanding types m (tasks d)) \<subseteq> set (tasks d)" by (auto simp: set_outstanding)
  then have "card (set (outstanding types m (tasks d))) \<le> card (set (tasks d))" by (simp add: card_mono)
  moreover have "length (outstanding types m (tasks d)) = card (set (outstanding types m (tasks d)))"
    using d by (metis distinct_card distinct_map)
  ultimately show ?thesis using card_length [of "tasks d"] by linarith
qed

text \<open>
  A new subscription with a backfill: \<open>subscribe\<close> opens a live feed, after an event for every
  selected task as the tables stand when the wait is over.
\<close>

lemma subscribe_new:
  assumes chk: "check_subscribe name states types batch_size backfill = Inr (selected, w)" "w \<noteq> BFlag False"
    and new: "find_sub d name = None" "store_register_subscription env name selected types w d = (d1, g, marker)"
    and wait: "wait_for_transactions fuel view (\<lambda>k. others k d1) name g = Some (True, n)"
    and kept: "db_inv (others n d1)" "find_sub (others n d1) name = find_sub d1 name"
    and fuel: "length (tasks (others n d1)) + length selected < fuel"
  shows "\<exists>d2 f evs rows. subscribe fuel view others env env' name states types batch_size backfill d = Some (Inr (d2, f))
    \<and> \<not> fd_closed f \<and> fd_name f = name \<and> fd_generation f = g \<and> fd_batch f = None \<and> tasks d2 = tasks (others n d1)
    \<and> events d2 = events (others n d1) @ evs \<and> map event_content evs = map (projected name) rows \<and> distinct (map t_id rows)
    \<and> set rows = {r \<in> set (tasks (others n d1)). t_state r \<in> set selected
         \<and> backfill_matches types (state_since (the marker) (t_state r)) (t_state r) 0 r}"
proof -
  let ?d = "others n d1"
  obtain m where m: "new_marker env selected w = Some m"
    using chk(2) by (cases w) (auto simp: new_marker_def split: bool.splits)
  note sm = distinct_fst_marker [OF m]
  define s where "s = \<lparr>s_name = name, s_states = selected, s_types = types, s_created_at = tx_now env,
    s_backfill = Some m, s_generation = fresh_uuid env 0\<rparr>"
  have reg: "d1 = d\<lparr>subscriptions := subscriptions d @ [s]\<rparr>" "g = s_generation s" "marker = Some m"
    using new m by (auto simp: store_register_subscription_def s_def Let_def)
  have "find_sub d1 name = Some s"
    using new(1) by (auto simp: reg(1) find_sub_def find_row_append s_def split: option.splits)
  then have sub: "find_sub ?d name = Some s" using kept(2) by simp
  have fu: "length (outstanding (s_types s) m (tasks ?d)) + length (bf_pending m) < fuel"
    using outstanding_length [OF kept(1), of m "s_types s"] sm fuel by linarith
  have bf: "s_backfill s = Some m" by (simp add: s_def)
  obtain d2 evs where loop: "backfill_loop fuel env' name g BACKFILL_CHUNK 0 ?d = Some (d2, True)" "tasks d2 = tasks ?d"
    "events d2 = events ?d @ evs" "map event_content evs = map (projected name) (outstanding (s_types s) m (tasks ?d))"
    using backfill_loop_all [OF db_inv_ids [OF kept(1)] sub reg(2) [symmetric] bf conjunct1 [OF sm] _ fu,
        of BACKFILL_CHUNK env' 0]
    by (auto simp: BACKFILL_CHUNK_def)
  have rows: "set (outstanding (s_types s) m (tasks ?d)) = {r \<in> set (tasks ?d). t_state r \<in> set selected
      \<and> backfill_matches types (state_since m (t_state r)) (t_state r) 0 r}"
    using sm by (auto simp: set_outstanding s_def)
  have sb: "subscribe fuel view others env env' name states types batch_size backfill d
      = Some (Inr (d2, \<lparr>fd_name = name, fd_generation = g, fd_batch_size = nat batch_size, fd_closed = False, fd_batch = None\<rparr>))"
    using chk(1) new(2) wait loop(1) reg(3) by (simp add: subscribe_def feed_backfill_def)
  show ?thesis
    by (intro exI conjI, rule sb) (use loop(2-4) rows distinct_outstanding [OF db_inv_ids [OF kept(1)]] sm reg(3) in auto)
qed

subsection \<open>Deliveries\<close>

lemma order_limit_hd:
  assumes "x \<in> set rows" "n \<ge> 1"
  shows "order_limit k n rows \<noteq> [] \<and> k (hd (order_limit k n rows)) \<le> k x"
proof -
  have x: "x \<in> set (sort_key k rows)" "sorted (map k (sort_key k rows))" using assms(1) by simp_all
  then obtain y ys where "sort_key k rows = y # ys" by (cases "sort_key k rows") auto
  then show ?thesis using x assms(2) by (cases n) (auto simp: order_limit_def)
qed

text \<open>A feed whose registration stays finds an event as soon as one is there that nobody holds.\<close>

lemma feed_anext_delivers:
  assumes "\<not> fd_closed f" "fd_batch_size f \<ge> 1"
    "\<forall>k' \<le> k + n. \<exists>s. find_sub (dbs k') (fd_name f) = Some s \<and> s_generation s = fd_generation f"
    "e \<in> set (events (dbs (k + n)))" "e_sub e = fd_name f" "\<not> busy (k + n) (e_seq e)" "n < fuel"
  shows "\<exists>k' f' evs. feed_anext fuel busy dbs k f = Some (k', f', Deliver evs) \<and> k' \<le> k + n \<and> evs \<noteq> []
    \<and> (k' = k + n \<longrightarrow> ev_seq (hd evs) \<le> e_seq e)"
  using assms
proof (induction fuel arbitrary: k n f)
  case (Suc fuel)
  let ?rows = "\<lambda>k. order_limit e_seq (fd_batch_size f) (filter (\<lambda>e. e_sub e = fd_name f \<and> \<not> busy k (e_seq e)) (events (dbs k)))"
  obtain s where s: "find_sub (dbs k) (fd_name f) = Some s" "s_generation s = fd_generation f"
    using Suc.prems(3) by (meson le_add1)
  have "e \<in> set (filter (\<lambda>e. e_sub e = fd_name f \<and> \<not> busy (k + n) (e_seq e)) (events (dbs (k + n))))"
    using Suc.prems(4-6) by simp
  from order_limit_hd [OF this Suc.prems(2), of e_seq]
  have here: "?rows (k + n) \<noteq> [] \<and> e_seq (hd (?rows (k + n))) \<le> e_seq e" .
  show ?case
  proof (cases "?rows k = []")
    case False
    have hd: "n = 0 \<longrightarrow> e_seq (hd (?rows k)) \<le> e_seq e"
      using here by (cases "n = 0") simp_all
    have "feed_next (busy k) (dbs k) f
        = (f\<lparr>fd_batch := Some \<lparr>ba_events = map to_event (?rows k), ba_active = True\<rparr>\<rparr>, Deliver (map to_event (?rows k)))"
      using s Suc.prems(1) False by (simp add: feed_next_def feed_rollback_def Let_def)
    then show ?thesis using hd False by (simp add: hd_map to_event_def)
  next
    case True
    then have n: "n \<noteq> 0" using here by (cases "n = 0") auto
    then obtain m where m: "n = Suc m" by (cases n) auto
    let ?f = "feed_rollback f"
    have pass: "feed_next (busy k) (dbs k) f = (?f, Wait)"
      using s Suc.prems(1) True by (simp add: feed_next_def feed_rollback_def Let_def)
    have "\<exists>k' f' evs. feed_anext fuel busy dbs (Suc k) ?f = Some (k', f', Deliver evs) \<and> k' \<le> Suc k + m \<and> evs \<noteq> []
        \<and> (k' = Suc k + m \<longrightarrow> ev_seq (hd evs) \<le> e_seq e)"
      by (rule Suc.IH) (use Suc.prems m in \<open>auto simp: feed_rollback_def\<close>)
    then show ?thesis using pass m by simp
  qed
qed simp

end
