(* ===== verification/Service.thy ===== *)
theory Service
  imports TaskDefs Outcomes
begin

text \<open>
  \<open>server/service.py\<close>: the operations REST and MCP share, over the store. \<open>errs\<close> is the JSON
  Schema validator: the number of errors it reports for a schema and a value, or the exception
  it raises. Every operation returns its answer, the new database and the hints it schedules.
\<close>

section \<open>Representations\<close>

text \<open>\<open>task_to_dict\<close>: the row without its execution token.\<close>

definition task_to_dict :: "task_row \<Rightarrow> task_row" where
  "task_to_dict r = r\<lparr>t_token := None\<rparr>"

definition task_type_to_dict :: "(time \<Rightarrow> json) \<Rightarrow> task_type_row \<Rightarrow> policy \<Rightarrow> (ustr \<times> json) list" where
  "task_type_to_dict dt ty p =
     [(lit ''name'', JStr (ty_name ty)), (lit ''executor'', JStr (executor_value (ty_executor ty))),
      (lit ''input_schema'', ty_input_schema ty),
      (lit ''output_schema'', case ty_output_schema ty of None \<Rightarrow> JNull | Some j \<Rightarrow> j),
      (lit ''policy'', policy_to_json p), (lit ''fingerprint'', JStr (ty_fingerprint ty)),
      (lit ''updated_at'', dt (ty_updated_at ty)), (lit ''paused'', JBool (ty_paused ty))]"

section \<open>Validation against the published schema\<close>

definition VALIDATOR_CACHE_SIZE :: nat where "VALIDATOR_CACHE_SIZE = 128"

text \<open>
  The cache maps fingerprints to compiled validators in insertion order; a compiled validator
  is the schema it was built from.
\<close>

type_synonym validators = "(ustr \<times> json) list"

definition cached_validator :: "task_type_row \<Rightarrow> validators \<Rightarrow> json \<times> validators" where
  "cached_validator ty cache = (case map_of cache (ty_fingerprint ty) of
     Some schema \<Rightarrow> (schema, cache)
   | None \<Rightarrow>
       let kept = if length cache \<ge> VALIDATOR_CACHE_SIZE then tl cache else cache
       in (ty_input_schema ty, kept @ [(ty_fingerprint ty, ty_input_schema ty)]))"

definition service_validate :: "(json \<Rightarrow> pyobj \<Rightarrow> exn + nat) \<Rightarrow> task_type_row \<Rightarrow> pyobj \<Rightarrow> validators
     \<Rightarrow> validators \<times> (exn + unit)" where
  "service_validate errs ty input cache = (case cached_validator ty cache of (schema, cache') \<Rightarrow>
     (cache', case errs schema input of
        Inl e \<Rightarrow> Inl (if e = RecursionError then InvalidInput else e)
      | Inr n \<Rightarrow> if n > 0 then Inl InvalidInput else Inr ()))"

section \<open>Enqueue\<close>

record request =
  rq_type :: ustr
  rq_input :: pyobj
  rq_priority :: scalar
  rq_run_at :: "(time \<times> bool) option"
  rq_key :: "ustr option"
  rq_ckey :: "ustr option"
  rq_metadata :: pyobj

text \<open>What is checked before a connection is taken: the encoded input and metadata.\<close>

definition encode_payload :: "(rat \<Rightarrow> ustr) \<Rightarrow> pyobj \<Rightarrow> int \<Rightarrow> exn + ustr" where
  "encode_payload fr obj cap = map_sum (\<lambda>e. if e = OverCap then PayloadTooLarge
     else if e = Unstorable then InvalidInput else e) id (encode_capped fr (fst obj) (snd obj) cap)"

definition check_request :: "(rat \<Rightarrow> ustr) \<Rightarrow> settings \<Rightarrow> request \<Rightarrow> exn + ustr \<times> ustr option" where
  "check_request fr s q =
     bind_result (check_name (rq_type q)) (\<lambda>_.
     bind_result (check_key (rq_key q)) (\<lambda>_.
     bind_result (check_key (rq_ckey q)) (\<lambda>_.
     bind_result (check_priority (rq_priority q)) (\<lambda>_.
     bind_result (case rq_run_at q of Some (_, has_tz) \<Rightarrow> if \<not> has_tz then Inl InvalidInput else Inr () | None \<Rightarrow> Inr ()) (\<lambda>_.
     bind_result (encode_payload fr (rq_input q) (payload_cap s)) (\<lambda>payload.
     bind_result (encode_metadata fr (rq_metadata q) (progress_cap s)) (\<lambda>md. Inr (payload, md))))))))"

definition service_task :: "request \<Rightarrow> ustr \<Rightarrow> ustr option \<Rightarrow> policy \<Rightarrow> new_task" where
  "service_task q payload md p = \<lparr>n_type = rq_type q, n_input = payload, n_policy = p, n_priority = rq_priority q,
     n_run_at = rq_run_at q, n_key = rq_key q, n_ckey = rq_ckey q, n_metadata = md\<rparr>"

definition service_enqueue ::
  "nat \<Rightarrow> (nat \<Rightarrow> pg) \<Rightarrow> (nat \<Rightarrow> db \<Rightarrow> db) \<Rightarrow> (nat \<Rightarrow> rat) \<Rightarrow> rat \<Rightarrow> (rat \<Rightarrow> ustr) \<Rightarrow> (json \<Rightarrow> exn + policy)
     \<Rightarrow> (json \<Rightarrow> pyobj \<Rightarrow> exn + nat) \<Rightarrow> settings \<Rightarrow> request \<Rightarrow> validators \<Rightarrow> db
     \<Rightarrow> (validators \<times> (exn + db \<times> int \<times> hint_event list)) option" where
  "service_enqueue fuel env others ticks start fr from_json errs s q cache d =
     (case check_request fr s q of
        Inl e \<Rightarrow> Some (cache, Inl e)
      | Inr (payload, md) \<Rightarrow>
          (case store_get_task_type from_json d (rq_type q) of
             Inl e \<Rightarrow> Some (cache, Inl e)
           | Inr None \<Rightarrow> Some (cache, Inl UnknownTaskType)
           | Inr (Some (ty, p)) \<Rightarrow>
               (case service_validate errs ty (rq_input q) cache of
                  (cache', Inl e) \<Rightarrow> Some (cache', Inl e)
                | (cache', Inr _) \<Rightarrow>
                    (case store_enqueue fuel env others ticks start (statement_timeout_s s) False
                            (service_task q payload md p) d of
                       None \<Rightarrow> None
                     | Some (Inl e) \<Rightarrow> Some (cache', Inl e)
                     | Some (Inr (d', tid, _)) \<Rightarrow> Some (cache', Inr (d', tid, queued_hints (rq_type q)))))))"

section \<open>The other operations\<close>

definition service_list :: "settings \<Rightarrow> task_filter \<Rightarrow> db \<Rightarrow> task_summary list \<times> int option" where
  "service_list s f d =
     (let limit = min (max (f_limit f) 1) (list_page_max s);
          items = store_list_tasks (f\<lparr>f_limit := limit\<rparr>) d
      in (items, if int (length items) = limit then Some (ts_id (last items)) else None))"

text \<open>\<open>others\<close>: what other sessions do between the two statements.\<close>

definition service_cancel :: "pg \<Rightarrow> (db \<Rightarrow> db) \<Rightarrow> int \<Rightarrow> db \<Rightarrow> db \<times> (exn + task_state) \<times> hint_event list" where
  "service_cancel env others tid d = (case store_request_cancel env tid d of
     (d', Some st) \<Rightarrow> (d', Inr st, if st = Running then [HCancel [tid]] else [HFeed [lit ''cancelled'']])
   | (d', None) \<Rightarrow>
       let d2 = others d' in
       (d2, Inl (case store_get_task d2 tid of None \<Rightarrow> TaskNotFound | Some _ \<Rightarrow> NotCancellable), []))"

definition service_get_task :: "int \<Rightarrow> db \<Rightarrow> exn + task_row" where
  "service_get_task tid d = (case store_get_task d tid of None \<Rightarrow> Inl TaskNotFound | Some r \<Rightarrow> Inr r)"

definition service_pause :: "ustr \<Rightarrow> db \<Rightarrow> exn + db \<times> hint_event list" where
  "service_pause ty d = bind_result (store_set_paused ty True d) (\<lambda>d'. Inr (d', []))"

definition service_resume :: "ustr \<Rightarrow> db \<Rightarrow> exn + db \<times> hint_event list" where
  "service_resume ty d = bind_result (store_set_paused ty False d) (\<lambda>d'. Inr (d', [HWake [ty]]))"

definition service_requeue :: "pg \<Rightarrow> int \<Rightarrow> db \<Rightarrow> exn + db \<times> hint_event list" where
  "service_requeue env tid d = bind_result (store_requeue env tid d) (\<lambda>(d', ty). Inr (d', queued_hints ty))"

text \<open>A client that follows \<open>next\<close> until it is null.\<close>

fun follow_pages :: "nat \<Rightarrow> settings \<Rightarrow> task_filter \<Rightarrow> db \<Rightarrow> task_summary list option" where
  "follow_pages 0 s f d = None"
| "follow_pages (Suc fuel) s f d = (case service_list s f d of
     (items, None) \<Rightarrow> Some items
   | (items, Some before) \<Rightarrow> map_option ((@) items) (follow_pages fuel s (f\<lparr>f_before := Some before\<rparr>) d))"

section \<open>Statistics\<close>

record type_stats =
  st_type :: ustr
  st_due :: nat
  st_scheduled :: nat
  st_running :: nat
  st_oldest :: "rat option"

record sub_stats =
  ss_name :: ustr
  ss_backlog :: nat
  ss_pending :: bool
  ss_oldest :: "rat option"

definition age_of_oldest :: "time \<Rightarrow> time list \<Rightarrow> rat option" where
  "age_of_oldest now stamps = (case stamps of [] \<Rightarrow> None | t # ts \<Rightarrow> Some (now - fold min ts t))"

definition type_stats_of :: "pg \<Rightarrow> db \<Rightarrow> task_type_row \<Rightarrow> type_stats" where
  "type_stats_of env d ty =
     (let rows = filter (\<lambda>r. t_type r = ty_name ty) (tasks d);
          due = filter (\<lambda>r. t_state r = Queued \<and> t_run_at r \<le> tx_now env) rows
      in \<lparr>st_type = ty_name ty, st_due = length due,
          st_scheduled = length (filter (\<lambda>r. t_state r = Queued \<and> t_run_at r > tx_now env) rows),
          st_running = length (filter (\<lambda>r. t_state r = Running) rows),
          st_oldest = age_of_oldest (tx_now env) (map t_run_at due)\<rparr>)"

definition sub_stats_of :: "pg \<Rightarrow> db \<Rightarrow> sub_row \<Rightarrow> sub_stats" where
  "sub_stats_of env d s =
     (let es = filter (\<lambda>e. e_sub e = s_name s) (events d)
      in \<lparr>ss_name = s_name s, ss_backlog = length es, ss_pending = (s_backfill s \<noteq> None),
          ss_oldest = age_of_oldest (tx_now env) (map e_created_at es)\<rparr>)"

definition store_stats :: "(ustr \<Rightarrow> ustr) \<Rightarrow> pg \<Rightarrow> db \<Rightarrow> type_stats list \<times> sub_stats list" where
  "store_stats collate env d =
     (sort_key (\<lambda>x. collate (st_type x)) (map (type_stats_of env d) (task_types d)),
      sort_key (\<lambda>x. collate (ss_name x)) (map (sub_stats_of env d) (subscriptions d)))"

section \<open>The validator cache\<close>

text \<open>Every cached validator is the one of its fingerprint.\<close>

definition cache_ok :: "(ustr \<Rightarrow> json) \<Rightarrow> validators \<Rightarrow> bool" where
  "cache_ok schema_of cache \<longleftrightarrow> length cache \<le> VALIDATOR_CACHE_SIZE \<and> distinct (map fst cache)
     \<and> (\<forall>(fp, schema) \<in> set cache. schema = schema_of fp)"

lemma cached_validator_ok:
  assumes "cache_ok schema_of cache" "ty_input_schema ty = schema_of (ty_fingerprint ty)"
    "cached_validator ty cache = (schema, cache')"
  shows "schema = ty_input_schema ty \<and> cache_ok schema_of cache' \<and> map_of cache' (ty_fingerprint ty) = Some schema"
proof (cases "map_of cache (ty_fingerprint ty)")
  case (Some sch)
  then have "(ty_fingerprint ty, sch) \<in> set cache" by (rule map_of_SomeD)
  then have "sch = ty_input_schema ty" using assms(1,2) by (auto simp: cache_ok_def)
  then show ?thesis using assms(1,3) Some by (simp add: cached_validator_def)
next
  case None
  define kept where "kept = (if length cache \<ge> VALIDATOR_CACHE_SIZE then tl cache else cache)"
  have sub: "set kept \<subseteq> set cache" by (cases cache) (auto simp: kept_def)
  have new: "ty_fingerprint ty \<notin> fst ` set cache" using None by (simp add: map_of_eq_None_iff)
  have "distinct (map fst kept)"
    using assms(1) by (auto simp: kept_def cache_ok_def map_tl distinct_tl)
  moreover have "length kept < VALIDATOR_CACHE_SIZE"
    using assms(1) by (auto simp: kept_def cache_ok_def VALIDATOR_CACHE_SIZE_def)
  moreover have "schema = ty_input_schema ty \<and> cache' = kept @ [(ty_fingerprint ty, ty_input_schema ty)]"
    using assms(3) None by (auto simp: cached_validator_def kept_def Let_def)
  moreover have "map_of kept (ty_fingerprint ty) = None" using sub new by (auto simp: map_of_eq_None_iff)
  ultimately show ?thesis using assms(1,2) sub new by (auto simp: cache_ok_def map_add_def)
qed

text \<open>Validation applies the schema that is published now, however the cache was filled.\<close>

lemma service_validate_current:
  assumes "cache_ok schema_of cache" "ty_input_schema ty = schema_of (ty_fingerprint ty)"
    "service_validate errs ty input cache = (cache', res)"
  shows "cache_ok schema_of cache' \<and> (res = Inr () \<longleftrightarrow> errs (ty_input_schema ty) input = Inr 0)"
proof -
  obtain schema c where c: "cached_validator ty cache = (schema, c)" by fastforce
  note ok = cached_validator_ok [OF assms(1,2) c]
  then show ?thesis using assms(3) by (auto simp: service_validate_def c split: sum.splits if_splits)
qed

section \<open>Errors\<close>

lemma encode_payload_Inl: "encode_payload fr obj cap = Inl e \<Longrightarrow> e \<in> {PayloadTooLarge, InvalidInput, TypeError}"
proof -
  assume "encode_payload fr obj cap = Inl e"
  then obtain x where "encode_capped fr (fst obj) (snd obj) cap = Inl x"
    "e = (if x = OverCap then PayloadTooLarge else if x = Unstorable then InvalidInput else x)"
    unfolding encode_payload_def map_sum_def by (auto split: sum.splits)
  then show ?thesis using encode_capped_Inl by fastforce
qed

lemma encode_metadata_Inl: "encode_metadata fr obj cap = Inl e \<Longrightarrow> e = PayloadTooLarge \<or> e = InvalidInput"
proof -
  assume a: "encode_metadata fr obj cap = Inl e"
  obtain h v where obj: "obj = (h, v)" by (cases obj)
  from a obtain x where "encode_capped fr h v cap = Inl x" "e = storage_error x"
    unfolding encode_metadata_def map_sum_def obj by (auto split: sum.splits if_splits)
  then show ?thesis using encode_capped_Inl by (fastforce simp: storage_error_def)
qed

lemma check_request_Inl:
  assumes "check_request fr s q = Inl e"
  shows "e \<in> {PayloadTooLarge, InvalidInput, TypeError}"
proof -
  have "e = InvalidInput \<or> encode_payload fr (rq_input q) (payload_cap s) = Inl e
      \<or> encode_metadata fr (rq_metadata q) (progress_cap s) = Inl e"
    using assms unfolding check_request_def
    by (auto dest!: bind_result_Inl check_priority_Inl check_arg_text_Inl
        simp: check_name_def check_key_def split: option.splits if_splits prod.splits)
  then show ?thesis using encode_payload_Inl encode_metadata_Inl by blast
qed

lemma store_get_task_type_Inl:
  "store_get_task_type from_json d name = Inl e \<Longrightarrow> \<exists>ty \<in> set (task_types d). from_json (ty_policy ty) = Inl e"
  unfolding store_get_task_type_def find_published_def type_of_row_def
  by (auto dest!: bind_result_Inl find_row_SomeD split: option.splits)

lemma service_enqueue_errors:
  assumes "service_enqueue fuel env others ticks start fr from_json errs s q cache d = Some (cache', Inl e)"
  shows "e \<in> {PayloadTooLarge, InvalidInput, UnknownTaskType, TimeoutError, TypeError}
    \<or> (\<exists>schema. errs schema (rq_input q) = Inl e) \<or> (\<exists>ty \<in> set (task_types d). from_json (ty_policy ty) = Inl e)"
proof (cases "check_request fr s q")
  case (Inl x)
  then show ?thesis using assms check_request_Inl [OF Inl] by (auto simp: service_enqueue_def)
next
  case chk: (Inr pm)
  obtain payload md where pm: "pm = (payload, md)" by (cases pm)
  show ?thesis
  proof (cases "store_get_task_type from_json d (rq_type q)")
    case (Inl x)
    then show ?thesis using assms chk pm store_get_task_type_Inl [OF Inl] by (simp add: service_enqueue_def)
  next
    case r: (Inr res)
    show ?thesis
    proof (cases res)
      case None
      then show ?thesis using assms chk pm r by (simp add: service_enqueue_def)
    next
      case (Some tp)
      obtain ty p where tp: "tp = (ty, p)" by (cases tp)
      obtain c v where v: "service_validate errs ty (rq_input q) cache = (c, v)" by fastforce
      show ?thesis
      proof (cases v)
        case (Inl x)
        then have "x = InvalidInput \<or> (\<exists>schema. errs schema (rq_input q) = Inl x)"
          using v by (auto simp: service_validate_def split: prod.splits sum.splits if_splits)
        then show ?thesis using assms chk pm r Some tp v Inl by (auto simp: service_enqueue_def)
      next
        case (Inr u)
        have "store_enqueue fuel env others ticks start (statement_timeout_s s) False (service_task q payload md p) d = Some (Inl e)"
          using assms chk pm r Some tp v Inr
          by (auto simp: service_enqueue_def split: option.splits sum.splits)
        then have "e = InvalidInput \<or> e = TimeoutError"
          by (auto simp: store_enqueue_def dest: check_new_task_Inl enqueue_loop_errors split: sum.splits)
        then show ?thesis by blast
      qed
    qed
  qed
qed

section \<open>Cancellation\<close>

lemma service_cancel_cases:
  assumes "db_inv d" "service_cancel env id tid d = (d', res, hs)"
  shows "case store_get_task d tid of
      None \<Rightarrow> d' = d \<and> res = Inl TaskNotFound \<and> hs = []
    | Some r \<Rightarrow>
        if t_state r = Queued then res = Inr Cancelled \<and> hs = [HFeed [lit ''cancelled'']]
          \<and> (\<exists>r'. store_get_task d' tid = Some r' \<and> t_state r' = Cancelled \<and> t_finished_at r' = Some (tx_now env))
        else if t_state r = Running then res = Inr Running \<and> hs = [HCancel [tid]]
          \<and> (\<exists>r'. store_get_task d' tid = Some r' \<and> t_state r' = Running \<and> t_cancel_at r' \<noteq> None)
        else d' = d \<and> res = Inl NotCancellable \<and> hs = []"
proof (cases "store_get_task d tid")
  case None
  then have no: "\<And>r. r \<in> set (tasks d) \<Longrightarrow> \<not> cancel_guard tid r"
    by (auto simp: store_get_task_def find_row_None_iff cancel_guard_def)
  show ?thesis using assms(2) None
    by (auto simp: service_cancel_def store_request_cancel_def with_events_none [of _ "cancel_guard tid", OF no])
next
  case (Some r)
  note r = find_row_SomeD [OF Some [unfolded store_get_task_def]]
  have uniq: "b = r" if "b \<in> set (tasks d)" "t_id b = tid" for b
    using key_unique [OF db_inv_ids [OF assms(1)] that(1)] r that(2) by simp
  show ?thesis
  proof (cases "cancel_guard tid r")
    case False
    then have no: "\<And>b. b \<in> set (tasks d) \<Longrightarrow> \<not> cancel_guard tid b" using uniq by (auto simp: cancel_guard_def)
    then show ?thesis using assms(2) Some False r
      by (auto simp: service_cancel_def store_request_cancel_def with_events_none cancel_guard_def)
  next
    case True
    have only: "cancel_guard tid b \<longleftrightarrow> t_id b = tid" if "b \<in> set (tasks d)" for b
      using uniq [OF that] True r that by (auto simp: cancel_guard_def)
    have "filter (cancel_guard tid) (tasks d) = filter (\<lambda>b. t_id b = t_id r) (tasks d)"
      using only r by (auto intro: filter_cong)
    also have "\<dots> = [r]" using filter_key [OF db_inv_ids [OF assms(1)]] r by simp
    finally have app: "returning (cancel_guard tid) (cancel_upd env) (tasks d) = [cancel_upd env r]"
      by (simp add: returning_def)
    obtain d1 where req: "store_request_cancel env tid d = (d1, Some (t_state (cancel_upd env r)))"
      and tasks: "tasks d1 = update_where (cancel_guard tid) (cancel_upd env) (tasks d)"
      using app with_events_frame [of env "cancel_guard tid" "cancel_upd env" "\<lambda>a. t_state a = Cancelled" d]
      by (simp add: store_request_cancel_def case_prod_beta)
    have "find_row (\<lambda>b. t_id b = tid) (update_where (cancel_guard tid) (cancel_upd env) rows)
        = map_option (\<lambda>b. if cancel_guard tid b then cancel_upd env b else b) (find_row (\<lambda>b. t_id b = tid) rows)" for rows
      by (induction rows) (auto simp: update_where_def cancel_upd_def)
    then have get: "store_get_task d1 tid = Some (cancel_upd env r)"
      using Some True by (simp add: store_get_task_def tasks)
    show ?thesis
      using assms(2) req get Some True by (auto simp: service_cancel_def cancel_guard_def cancel_upd_def split: option.split)
  qed
qed

section \<open>Following the pages\<close>

lemma listing_limit [simp]: "listing (f\<lparr>f_limit := n\<rparr>) d = listing f d"
  by (simp add: listing_def filter_matches_def cong: filter_cong)

text \<open>Following \<open>next\<close> ends, and yields the whole listing.\<close>

lemma follow_pages_listing:
  assumes "db_inv d" "1 \<le> list_page_max s" "length (listing f d) < fuel"
  shows "follow_pages fuel s f d = Some (map summary (listing f d))"
  using assms(3)
proof (induction fuel arbitrary: f)
  case (Suc fuel)
  define limit where "limit = min (max (f_limit f) 1) (list_page_max s)"
  have pos: "1 \<le> limit" using assms(2) by (simp add: limit_def)
  let ?xs = "take (nat limit) (listing f d)" and ?ys = "drop (nat limit) (listing f d)"
  have page: "service_list s f d = (map summary ?xs, if int (length ?xs) = limit then Some (ts_id (last (map summary ?xs))) else None)"
    by (simp add: service_list_def Let_def store_list_tasks_take flip: limit_def)
  show ?case
  proof (cases "int (length ?xs) = limit")
    case False
    then have "?xs = listing f d" using pos by (simp add: min_def split: if_splits)
    then show ?thesis using page False by simp
  next
    case True
    then have ne: "?xs \<noteq> []" using pos by auto
    have last: "ts_id (last (map summary ?xs)) = t_id (last ?xs)" using ne by (simp add: last_map summary_def)
    have rest: "listing (f\<lparr>f_before := Some (t_id (last ?xs))\<rparr>) d = ?ys"
      by (rule listing_before [OF assms(1) ne]) simp
    have "length ?ys < fuel" using Suc.prems pos ne by (cases "listing f d") auto
    then have "follow_pages fuel s (f\<lparr>f_before := Some (t_id (last ?xs))\<rparr>) d = Some (map summary ?ys)"
      using Suc.IH rest by simp
    then have "follow_pages (Suc fuel) s f d = Some (map summary ?xs @ map summary ?ys)"
      using page True last by simp
    then show ?thesis by (simp flip: map_append)
  qed
qed simp

section \<open>Counts\<close>

text \<open>The three counts of a type partition its active tasks.\<close>

lemma type_stats_total:
  "st_due (type_stats_of env d ty) + st_scheduled (type_stats_of env d ty) + st_running (type_stats_of env d ty)
     = length (filter (\<lambda>r. t_type r = ty_name ty \<and> active (t_state r)) (tasks d))"
proof -
  have "length (filter (\<lambda>r. t_state r = Queued \<and> t_run_at r \<le> now) (filter (\<lambda>r. t_type r = ty_name ty) rows))
      + length (filter (\<lambda>r. t_state r = Queued \<and> t_run_at r > now) (filter (\<lambda>r. t_type r = ty_name ty) rows))
      + length (filter (\<lambda>r. t_state r = Running) (filter (\<lambda>r. t_type r = ty_name ty) rows))
    = length (filter (\<lambda>r. t_type r = ty_name ty \<and> active (t_state r)) rows)" for now rows
    by (induction rows) (auto simp: active_def)
  then show ?thesis by (simp add: type_stats_of_def Let_def)
qed

lemma store_stats_rows:
  "mset (fst (store_stats collate env d)) = mset (map (type_stats_of env d) (task_types d))"
  "mset (snd (store_stats collate env d)) = mset (map (sub_stats_of env d) (subscriptions d))"
  by (simp_all add: store_stats_def)

end
