(* ===== verification/Http.thy ===== *)
theory Http
  imports Service Processes
begin

text \<open>
  \<open>server/app.py\<close>, \<open>server/api.py\<close> and \<open>server/mcp.py\<close> around the service: the bearer check, the
  body limit, the names the MCP endpoint accepts, the status of every domain error, and the
  argument parsing of the MCP tools.
\<close>

section \<open>Bearer check\<close>

text \<open>
  \<open>authorization.partition(" ")\<close>, and \<open>scheme.lower() == "bearer"\<close>: no character outside
  ASCII lowers to one of the letters of \<open>bearer\<close>.
\<close>

definition partition_space :: "ustr \<Rightarrow> ustr \<times> ustr" where
  "partition_space s = (takeWhile (\<lambda>c. c \<noteq> 32) s, tl (dropWhile (\<lambda>c. c \<noteq> 32) s))"

definition lower_ascii :: "ustr \<Rightarrow> ustr" where
  "lower_ascii s = map (\<lambda>c. if 65 \<le> c \<and> c \<le> 90 then c + 32 else c) s"

definition bearer_ok :: "ustr option \<Rightarrow> ustr option \<Rightarrow> exn + bool" where
  "bearer_ok authorization token = (case (token, authorization) of
     (Some t, Some a) \<Rightarrow>
       (case partition_space a of (scheme, v) \<Rightarrow>
         if lower_ascii scheme \<noteq> lit ''bearer'' then Inr False
         else bind_result (utf8_encode (strip v)) (\<lambda>x. bind_result (utf8_encode t) (\<lambda>y. Inr (x = y))))
   | _ \<Rightarrow> Inr False)"

datatype gate = PassOn | Respond int | GateRaises exn

text \<open>\<open>BearerGate\<close>: header values are Latin-1, so decoding is the identity on bytes.\<close>

definition bearer_gate :: "bool \<Rightarrow> (ustr \<times> nat list) list \<Rightarrow> ustr option \<Rightarrow> gate" where
  "bearer_gate http headers token =
     (if \<not> http then PassOn
      else (case bearer_ok (map_of (rev headers) (lit ''authorization'')) token of
        Inl e \<Rightarrow> GateRaises e
      | Inr ok \<Rightarrow> if ok then PassOn else Respond 401))"

definition create_app_token :: "ustr option \<Rightarrow> exn + ustr" where
  "create_app_token token = (case token of None \<Rightarrow> Inl ConfigurationError | Some t \<Rightarrow> Inr t)"

section \<open>Body limit\<close>

definition BODY_LIMIT_MARGIN :: int where "BODY_LIMIT_MARGIN = 64 * 1024"

definition body_limit :: "settings \<Rightarrow> int" where
  "body_limit s = payload_cap s + progress_cap s + BODY_LIMIT_MARGIN"

text \<open>
  What the server hands to the application, and what goes out: the application's own messages
  or the middleware's 413 reply. The application is the sequence of its calls: it asks for the
  next message, sends one, or ends, possibly by raising.
\<close>

datatype message = Body nat | Disconnect | OtherMessage

datatype 'a outgoing = Forwarded 'a | Reply int

datatype 'a app_call = Receive message | Send 'a

record 'a limiter =
  lm_seen :: int
  lm_rejected :: bool
  lm_out :: "'a outgoing list"
  lm_got :: "message list"

definition new_limiter :: "'a limiter" where
  "new_limiter = \<lparr>lm_seen = 0, lm_rejected = False, lm_out = [], lm_got = []\<rparr>"

fun limit_step :: "int \<Rightarrow> 'a app_call \<Rightarrow> 'a limiter \<Rightarrow> 'a limiter" where
  "limit_step limit (Receive m) st = (case m of
     Body n \<Rightarrow>
       let seen = lm_seen st + int n in
       if seen > limit \<and> \<not> lm_rejected st
       then st\<lparr>lm_seen := seen, lm_rejected := True, lm_out := lm_out st @ [Reply 413], lm_got := lm_got st @ [Disconnect]\<rparr>
       else st\<lparr>lm_seen := seen, lm_got := lm_got st @ [m]\<rparr>
   | _ \<Rightarrow> st\<lparr>lm_got := lm_got st @ [m]\<rparr>)"
| "limit_step limit (Send x) st =
     (if lm_rejected st then st else st\<lparr>lm_out := lm_out st @ [Forwarded x]\<rparr>)"

definition run_app :: "int \<Rightarrow> 'a app_call list \<Rightarrow> 'a limiter \<Rightarrow> 'a limiter" where
  "run_app limit calls st = fold (limit_step limit) calls st"

text \<open>
  \<open>BodyLimit.__call__\<close>: whether the application was called, what the client got, and the
  exception that leaves the middleware. \<open>declared\<close> is the \<open>Content-Length\<close> header.
\<close>

definition declared_over :: "int \<Rightarrow> ustr option \<Rightarrow> bool" where
  "declared_over limit declared = (case declared of
     None \<Rightarrow> False
   | Some v \<Rightarrow> v \<noteq> [] \<and> list_all is_digit v \<and> digits_value v > limit)"

definition body_limiter :: "int \<Rightarrow> ustr option \<Rightarrow> 'a app_call list \<Rightarrow> exn option \<Rightarrow> bool \<times> 'a limiter \<times> exn option" where
  "body_limiter limit declared calls raises =
     (if declared_over limit declared
      then (False, new_limiter\<lparr>lm_out := [Reply 413]\<rparr>, None)
      else let st = run_app limit calls new_limiter
           in (True, st, if lm_rejected st then None else raises))"

section \<open>Names and statuses\<close>

definition LOOPBACK_HOSTS :: "ustr list" where
  "LOOPBACK_HOSTS = map lit [''127.0.0.1:*'', ''localhost:*'', ''[::1]:*'']"

definition LOOPBACK_ORIGINS :: "ustr list" where
  "LOOPBACK_ORIGINS = map lit [''http://127.0.0.1:*'', ''http://localhost:*'', ''http://[::1]:*'']"

definition after_bracket :: "ustr \<Rightarrow> ustr" where
  "after_bracket h = (case rsplit_once 93 h of None \<Rightarrow> h | Some (_, b) \<Rightarrow> b)"

definition ends_with :: "ustr \<Rightarrow> ustr \<Rightarrow> bool" where
  "ends_with p s \<longleftrightarrow> starts_with (rev p) (rev s)"

definition host_names :: "ustr \<Rightarrow> ustr list" where
  "host_names h = h # (if \<not> ends_with (lit '':*'') h \<and> 58 \<notin> set (after_bracket h) then [h @ lit '':*''] else [])"

definition transport_security :: "settings \<Rightarrow> (ustr list \<times> ustr list) option" where
  "transport_security s =
     (let hosts = allowed_hosts s; origins = allowed_origins s
      in if hosts = [] \<and> origins = [] then None
         else Some (LOOPBACK_HOSTS @ concat (map host_names hosts), LOOPBACK_ORIGINS @ origins))"

fun status_of :: "exn \<Rightarrow> int option" where
  "status_of UnknownTaskType = Some 404"
| "status_of TaskNotFound = Some 404"
| "status_of NotCancellable = Some 409"
| "status_of NotRequeueable = Some 409"
| "status_of PayloadTooLarge = Some 413"
| "status_of InvalidInput = Some 422"
| "status_of _ = None"

section \<open>MCP tools\<close>

text \<open>\<open>ToolError\<close> is the SDK's; a tool's result is the error kind or a value.\<close>

datatype 'e tool_failure = ToolError | Escapes 'e

definition tool_errors :: "exn + 'a \<Rightarrow> exn tool_failure + 'a" where
  "tool_errors m = map_sum (\<lambda>e. if is_fronta_error e then ToolError else Escapes e) id m"

text \<open>\<open>from_iso\<close> is \<open>datetime.fromisoformat\<close> with whether the result carries a timezone.\<close>

definition parse_run_at :: "(ustr \<Rightarrow> exn + time \<times> bool) \<Rightarrow> ustr option \<Rightarrow> exn tool_failure + (time \<times> bool) option" where
  "parse_run_at from_iso v = (case v of
     None \<Rightarrow> Inr None
   | Some s \<Rightarrow> (case from_iso s of
       Inl e \<Rightarrow> Inl (if is_value_error e then ToolError else Escapes e)
     | Inr (t, has_tz) \<Rightarrow> if \<not> has_tz then Inl ToolError else Inr (Some (t, has_tz))))"

definition mcp_list_tasks :: "settings \<Rightarrow> ustr option \<Rightarrow> ustr option \<Rightarrow> ustr option \<Rightarrow> int option \<Rightarrow> int option \<Rightarrow> db
     \<Rightarrow> exn tool_failure + (task_summary list \<times> int option)" where
  "mcp_list_tasks s ty state key before limit d =
     (let page = (case limit of None \<Rightarrow> list_page_size s | Some n \<Rightarrow> n)
      in case (case state of None \<Rightarrow> Inr None | Some v \<Rightarrow> map_sum id Some (parse_state v)) of
           Inl e \<Rightarrow> Inl (if is_value_error e then ToolError else Escapes e)
         | Inr st \<Rightarrow> Inr (service_list s \<lparr>f_type = ty, f_state = st, f_key = key, f_before = before, f_limit = page\<rparr> d))"

section \<open>Facts\<close>

subsection \<open>Authentication\<close>

lemma utf8_encode_eq:
  assumes "utf8_encode a = Inr x" "utf8_encode b = Inr y" "py_text a" "py_text b"
  shows "x = y \<longleftrightarrow> a = b"
  using utf8_roundtrip_aux [OF assms(3,1)] utf8_roundtrip_aux [OF assms(4,2)] assms(1,2) by auto

lemma partition_space_append: "32 \<notin> set scheme \<Longrightarrow> partition_space (scheme @ 32 # v) = (scheme, v)"
  by (induction scheme) (auto simp: partition_space_def)

lemma partition_space_cases:
  obtains (none) "32 \<notin> set a" "partition_space a = (a, [])"
  | (split) scheme v where "a = scheme @ 32 # v" "32 \<notin> set scheme" "partition_space a = (scheme, v)"
proof (cases "32 \<in> set a")
  case False
  then have "partition_space a = (a, [])" by (induction a) (auto simp: partition_space_def)
  then show ?thesis using False none by blast
next
  case True
  then obtain scheme v where "a = scheme @ 32 # v" "32 \<notin> set scheme" by (meson split_list_first)
  then show ?thesis using partition_space_append split by metis
qed

lemma lower_bearer_space: "lower_ascii scheme = lit ''bearer'' \<Longrightarrow> 32 \<notin> set scheme"
proof
  assume a: "lower_ascii scheme = lit ''bearer''" "32 \<in> set scheme"
  then have "32 \<in> set (lower_ascii scheme)" by (force simp: lower_ascii_def)
  then show False using a(1) by simp
qed

text \<open>A header passes exactly if it is the bearer scheme with the configured token.\<close>

lemma bearer_ok_iff:
  assumes t: "t \<noteq> []" "py_text t" "\<not> has_surrogate t" and a: "py_text a" "\<not> has_surrogate a"
  shows "bearer_ok (Some a) (Some t) = Inr True \<longleftrightarrow>
     (\<exists>scheme v. a = scheme @ 32 # v \<and> lower_ascii scheme = lit ''bearer'' \<and> strip v = t)"
proof (cases a rule: partition_space_cases)
  case none
  obtain y where y: "utf8_encode t = Inr y" using t(3) by (simp add: utf8_encode_def)
  have e: "utf8_encode [] = Inr []" by (simp add: utf8_encode_def has_surrogate_def)
  have "y \<noteq> []" using utf8_encode_eq [OF e y _ t(2)] t(1) by (simp add: py_text_def)
  then have "bearer_ok (Some a) (Some t) = Inr False"
    using none(2) y e by (simp add: bearer_ok_def strip_def)
  then show ?thesis using none(1) by auto
next
  case (split scheme v)
  have sub: "set (strip v) \<subseteq> set a" using set_strip split(1) by fastforce
  then have v: "py_text (strip v)" "\<not> has_surrogate (strip v)"
    using a by (auto simp: py_text_def has_surrogate_def)
  then obtain x y where xy: "utf8_encode (strip v) = Inr x" "utf8_encode t = Inr y"
    using t(3) by (simp add: utf8_encode_def)
  have "bearer_ok (Some a) (Some t) = Inr (lower_ascii scheme = lit ''bearer'' \<and> strip v = t)"
    using utf8_encode_eq [OF xy v(1) t(2)] xy by (simp add: bearer_ok_def split(3))
  moreover have "(\<exists>scheme' v'. a = scheme' @ 32 # v' \<and> lower_ascii scheme' = lit ''bearer'' \<and> strip v' = t)
    \<longleftrightarrow> lower_ascii scheme = lit ''bearer'' \<and> strip v = t"
  proof
    assume "\<exists>scheme' v'. a = scheme' @ 32 # v' \<and> lower_ascii scheme' = lit ''bearer'' \<and> strip v' = t"
    then obtain scheme' v' where s: "a = scheme' @ 32 # v'" "lower_ascii scheme' = lit ''bearer''" "strip v' = t" by blast
    have "partition_space a = (scheme', v')" unfolding s(1) by (rule partition_space_append [OF lower_bearer_space [OF s(2)]])
    then show "lower_ascii scheme = lit ''bearer'' \<and> strip v = t" using split(3) s(2,3) by simp
  qed (use split(1) in blast)
  ultimately show ?thesis by simp
qed

lemma bearer_ok_raises:
  assumes "\<not> has_surrogate t" "\<not> has_surrogate a"
  shows "bearer_ok (Some a) (Some t) \<in> range Inr"
proof -
  obtain scheme v where p: "partition_space a = (scheme, v)" by (cases "partition_space a")
  have "set v \<subseteq> set a" using p by (cases a rule: partition_space_cases) auto
  then have "\<not> has_surrogate (strip v)" using set_strip assms(2) by (fastforce simp: has_surrogate_def)
  then show ?thesis using assms(1) p by (simp add: bearer_ok_def utf8_encode_def)
qed

lemma bearer_ok_none: "bearer_ok None t = Inr False" "bearer_ok a None = Inr False"
  by (simp_all add: bearer_ok_def split: option.split)

subsection \<open>Body limit\<close>

definition body_bytes :: "message list \<Rightarrow> int" where
  "body_bytes ms = sum_list (map (\<lambda>m. case m of Body n \<Rightarrow> int n | _ \<Rightarrow> 0) ms)"

definition received :: "'a app_call list \<Rightarrow> message list" where
  "received calls = concat (map (\<lambda>c. case c of Receive m \<Rightarrow> [m] | Send _ \<Rightarrow> []) calls)"

definition sent_by :: "'a app_call list \<Rightarrow> 'a list" where
  "sent_by calls = concat (map (\<lambda>c. case c of Send x \<Rightarrow> [x] | Receive _ \<Rightarrow> []) calls)"

lemma body_simps [simp]:
  "body_bytes [] = 0" "body_bytes (m # ms) = (case m of Body n \<Rightarrow> int n | _ \<Rightarrow> 0) + body_bytes ms"
  "body_bytes (ms @ ms') = body_bytes ms + body_bytes ms'"
  "received [] = []" "received (cs @ [Receive m]) = received cs @ [m]" "received (cs @ [Send x]) = received cs"
  "sent_by [] = []" "sent_by (cs @ [Receive m]) = sent_by cs" "sent_by (cs @ [Send x]) = sent_by cs @ [x]"
  by (simp_all add: body_bytes_def received_def sent_by_def)

lemma body_bytes_nonneg: "0 \<le> body_bytes ms"
  by (induction ms) (auto split: message.split)

lemma body_bytes_takeWhile: "body_bytes (takeWhile P ms) \<le> body_bytes ms"
  by (induction ms) (auto simp: body_bytes_nonneg split: message.split)

lemma takeWhile_snoc: "takeWhile P (xs @ [x]) = (if \<forall>y \<in> set xs. P y then xs @ takeWhile P [x] else takeWhile P xs)"
  by (induction xs) auto

text \<open>
  Up to a disconnect the application reads at most the limit; the request is rejected exactly
  if its body exceeds it; and the client gets the application's messages, the rest of them
  replaced by one 413 if the request is rejected.
\<close>

definition limiter_inv :: "int \<Rightarrow> 'a app_call list \<Rightarrow> 'a limiter \<Rightarrow> bool" where
  "limiter_inv limit calls st \<longleftrightarrow> lm_seen st = body_bytes (received calls)
     \<and> (lm_rejected st \<longleftrightarrow> lm_seen st > limit)
     \<and> body_bytes (takeWhile (\<lambda>m. m \<noteq> Disconnect) (lm_got st)) \<le> limit
     \<and> (if lm_rejected st then Disconnect \<in> set (lm_got st) \<and> (\<exists>k. lm_out st = map Forwarded (take k (sent_by calls)) @ [Reply 413])
        else lm_got st = received calls \<and> lm_out st = map Forwarded (sent_by calls))"

lemma limiter_inv_step:
  assumes "limiter_inv limit calls st" "0 \<le> limit"
  shows "limiter_inv limit (calls @ [c]) (limit_step limit c st)"
proof (cases c)
  case (Send x)
  show ?thesis
  proof (cases "lm_rejected st")
    case True
    then obtain k where k: "lm_out st = map Forwarded (take k (sent_by calls)) @ [Reply 413]"
      using assms(1) by (auto simp: limiter_inv_def)
    have "take k (sent_by calls) = take (min k (length (sent_by calls))) (sent_by (calls @ [Send x]))"
      by (simp add: min_def)
    with k have "\<exists>k. lm_out st = map Forwarded (take k (sent_by (calls @ [Send x]))) @ [Reply 413]" by metis
    then show ?thesis using assms(1) Send True by (simp add: limiter_inv_def)
  qed (use assms(1) Send in \<open>auto simp: limiter_inv_def\<close>)
next
  case (Receive m)
  have stay: "body_bytes (takeWhile (\<lambda>m. m \<noteq> Disconnect) (lm_got st @ [m])) \<le> limit"
    if "lm_rejected st"
    using that assms(1) by (auto simp: limiter_inv_def takeWhile_snoc)
  have fresh: "body_bytes (takeWhile (\<lambda>m. m \<noteq> Disconnect) (lm_got st @ [m])) \<le> limit"
    if "\<not> lm_rejected st" "body_bytes (received calls @ [m]) \<le> limit"
    using that assms(1) order.trans [OF body_bytes_takeWhile] by (fastforce simp: limiter_inv_def)
  have cut: "body_bytes (takeWhile (\<lambda>m. m \<noteq> Disconnect) (lm_got st @ [Disconnect])) \<le> limit"
    using assms(1) by (auto simp: limiter_inv_def takeWhile_snoc)
  have all: "\<exists>k. map Forwarded (sent_by calls) = map Forwarded (take k (sent_by calls))"
    by (rule exI [of _ "length (sent_by calls)"]) simp
  show ?thesis
  proof (cases m)
    case (Body n)
    then show ?thesis using assms Receive stay fresh cut all
      by (cases "lm_rejected st") (auto simp: limiter_inv_def Let_def)
  next
    case Disconnect
    then show ?thesis using assms Receive stay fresh
      by (cases "lm_rejected st") (auto simp: limiter_inv_def)
  next
    case OtherMessage
    then show ?thesis using assms Receive stay fresh
      by (cases "lm_rejected st") (auto simp: limiter_inv_def)
  qed
qed

lemma limiter_inv_run:
  assumes "0 \<le> limit"
  shows "limiter_inv limit calls (run_app limit calls new_limiter)"
proof (induction calls rule: rev_induct)
  case Nil
  then show ?case using assms by (simp add: limiter_inv_def run_app_def new_limiter_def)
next
  case (snoc c calls)
  then show ?case using limiter_inv_step [OF snoc assms] by (simp add: run_app_def)
qed

lemma body_limiter_ok:
  assumes "0 \<le> limit" "body_limiter limit declared calls raises = (called, st, e)"
  shows "body_bytes (takeWhile (\<lambda>m. m \<noteq> Disconnect) (lm_got st)) \<le> limit"
    "called \<longleftrightarrow> \<not> declared_over limit declared"
    "called \<Longrightarrow> body_bytes (received calls) \<le> limit \<Longrightarrow> lm_out st = map Forwarded (sent_by calls) \<and> e = raises"
    "called \<Longrightarrow> body_bytes (received calls) > limit \<Longrightarrow> e = None \<and> (\<exists>k. lm_out st = map Forwarded (take k (sent_by calls)) @ [Reply 413])"
    "\<not> called \<Longrightarrow> lm_out st = [Reply 413] \<and> e = None"
proof -
  note inv = limiter_inv_run [OF assms(1), of calls, unfolded limiter_inv_def]
  show "body_bytes (takeWhile (\<lambda>m. m \<noteq> Disconnect) (lm_got st)) \<le> limit"
    using inv assms by (auto simp: body_limiter_def new_limiter_def Let_def split: if_splits)
  show "called \<longleftrightarrow> \<not> declared_over limit declared"
    using assms(2) by (auto simp: body_limiter_def Let_def split: if_splits)
  show "called \<Longrightarrow> body_bytes (received calls) \<le> limit \<Longrightarrow> lm_out st = map Forwarded (sent_by calls) \<and> e = raises"
    using inv assms(2) by (auto simp: body_limiter_def Let_def split: if_splits)
  show "called \<Longrightarrow> body_bytes (received calls) > limit \<Longrightarrow> e = None \<and> (\<exists>k. lm_out st = map Forwarded (take k (sent_by calls)) @ [Reply 413])"
    using inv assms(2) by (auto simp: body_limiter_def Let_def split: if_splits)
  show "\<not> called \<Longrightarrow> lm_out st = [Reply 413] \<and> e = None"
    using assms(2) by (auto simp: body_limiter_def Let_def new_limiter_def split: if_splits)
qed

subsection \<open>Names and statuses\<close>

lemma transport_security_names:
  assumes "transport_security s = Some (hosts, origins)"
  shows "set LOOPBACK_HOSTS \<subseteq> set hosts \<and> set (allowed_hosts s) \<subseteq> set hosts
    \<and> set LOOPBACK_ORIGINS \<subseteq> set origins \<and> set origins \<subseteq> set LOOPBACK_ORIGINS \<union> set (allowed_origins s)
    \<and> set hosts \<subseteq> set LOOPBACK_HOSTS \<union> (\<Union>h \<in> set (allowed_hosts s). {h, h @ lit '':*''})"
  using assms by (auto simp: transport_security_def Let_def host_names_def split: if_splits)

text \<open>Every library error of the service has a status, and MCP reports it as a tool error.\<close>

lemma service_errors_have_status:
  assumes "service_enqueue fuel env others ticks start fr from_json errs s q cache d = Some (cache', Inl e)"
    "e \<notin> {TimeoutError, TypeError}" "\<And>schema. errs schema (rq_input q) \<noteq> Inl e"
    "\<And>ty. ty \<in> set (task_types d) \<Longrightarrow> from_json (ty_policy ty) \<noteq> Inl e"
  shows "status_of e \<noteq> None \<and> is_fronta_error e"
  using service_enqueue_errors [OF assms(1)] assms(2-4) by auto

end
