(* ===== verification/Api.thy ===== *)
theory Api
  imports Http
begin

text \<open>
  The two surfaces of the control plane over one service: the REST routes of \<open>server/api.py\<close> behind
  their bearer dependency and error handlers, and the MCP tools of \<open>server/mcp.py\<close>. Parsing of requests
  into typed arguments belongs to FastAPI and the MCP library; the constraints the code declares on
  them, the order of the checks and the mapping of errors are here.
\<close>

section \<open>Calls of the service\<close>

datatype api_call =
    ListTypes
  | EnqueueTask request
  | GetTask int
  | ListTasks "ustr option" "ustr option" "ustr option" "int option" "int option"
  | CancelTask int
  | PauseType ustr
  | ResumeType ustr
  | RequeueTask int
  | Stats

datatype api_value =
    VTypes "(task_type_row \<times> policy) list"
  | VId int
  | VTask task_row
  | VPage "task_summary list" "int option"
  | VState int task_state
  | VPaused bool
  | VStats "type_stats list \<times> sub_stats list"

text \<open>
  What a call meets besides the tables: the server's environment and clock, other sessions between
  the statements of one call, the order of names, the parsers of stored policies and states, and
  the JSON Schema validator.
\<close>

record api_env =
  ae_settings :: settings
  ae_fuel :: nat
  ae_pg :: "nat \<Rightarrow> pg"
  ae_others :: "nat \<Rightarrow> db \<Rightarrow> db"
  ae_ticks :: "nat \<Rightarrow> rat"
  ae_start :: rat
  ae_float :: "rat \<Rightarrow> ustr"
  ae_collate :: "ustr \<Rightarrow> ustr"
  ae_policy :: "json \<Rightarrow> exn + policy"
  ae_errors :: "json \<Rightarrow> pyobj \<Rightarrow> exn + nat"

text \<open>\<open>list_tasks\<close> of both surfaces: the page size and the filter.\<close>

definition task_query :: "settings \<Rightarrow> ustr option \<Rightarrow> ustr option \<Rightarrow> ustr option \<Rightarrow> int option \<Rightarrow> int option \<Rightarrow> exn + task_filter" where
  "task_query s ty state key before limit =
     bind_result (case state of None \<Rightarrow> Inr None | Some v \<Rightarrow> map_sum id Some (parse_state v)) (\<lambda>st.
       Inr \<lparr>f_type = ty, f_state = st, f_key = key, f_before = before,
            f_limit = (case limit of None \<Rightarrow> list_page_size s | Some n \<Rightarrow> n)\<rparr>)"

type_synonym called = "validators \<times> db \<times> (exn + api_value) \<times> hint_event list"

definition plain_call :: "validators \<Rightarrow> db \<Rightarrow> exn + (db \<times> hint_event list) \<Rightarrow> api_value \<Rightarrow> called" where
  "plain_call cache d m v = (case m of Inl e \<Rightarrow> (cache, d, Inl e, []) | Inr (d', hs) \<Rightarrow> (cache, d', Inr v, hs))"

text \<open>The service operation behind a call, with the value both surfaces make of its answer.\<close>

fun service_call :: "api_env \<Rightarrow> validators \<Rightarrow> db \<Rightarrow> api_call \<Rightarrow> called option" where
  "service_call ae cache d ListTypes =
     Some (cache, d, map_sum id VTypes (store_get_task_types (ae_collate ae) (ae_policy ae) d), [])"
| "service_call ae cache d (EnqueueTask q) =
     (case service_enqueue (ae_fuel ae) (ae_pg ae) (ae_others ae) (ae_ticks ae) (ae_start ae) (ae_float ae)
             (ae_policy ae) (ae_errors ae) (ae_settings ae) q cache d of
        None \<Rightarrow> None
      | Some (cache', Inl e) \<Rightarrow> Some (cache', d, Inl e, [])
      | Some (cache', Inr (d', i, hs)) \<Rightarrow> Some (cache', d', Inr (VId i), hs))"
| "service_call ae cache d (GetTask i) =
     Some (cache, d, map_sum id (\<lambda>r. VTask (task_to_dict r)) (service_get_task i d), [])"
| "service_call ae cache d (ListTasks ty state key before limit) =
     Some (cache, d, bind_result (task_query (ae_settings ae) ty state key before limit) (\<lambda>f.
       case service_list (ae_settings ae) f d of (items, nxt) \<Rightarrow> Inr (VPage items nxt)), [])"
| "service_call ae cache d (CancelTask i) =
     (case service_cancel (ae_pg ae 0) (ae_others ae 0) i d of
        (d', res, hs) \<Rightarrow> Some (cache, d', map_sum id (VState i) res, hs))"
| "service_call ae cache d (PauseType ty) = Some (plain_call cache d (service_pause ty d) (VPaused True))"
| "service_call ae cache d (ResumeType ty) = Some (plain_call cache d (service_resume ty d) (VPaused False))"
| "service_call ae cache d (RequeueTask i) =
     Some (plain_call cache d (service_requeue (ae_pg ae 0) i d) (VState i Queued))"
| "service_call ae cache d Stats = Some (cache, d, Inr (VStats (store_stats (ae_collate ae) (ae_pg ae 0) d)), [])"

section \<open>REST\<close>

text \<open>\<open>EnqueueRequest\<close>: the constraints of its fields; text is measured in code points.\<close>

definition text_length_ok :: "nat \<Rightarrow> ustr option \<Rightarrow> bool" where
  "text_length_ok most v = (case v of None \<Rightarrow> True | Some s \<Rightarrow> 1 \<le> length s \<and> length s \<le> most)"

definition body_valid :: "request \<Rightarrow> bool" where
  "body_valid q \<longleftrightarrow> text_length_ok 255 (Some (rq_type q))
     \<and> (case rq_priority q of SInt i \<Rightarrow> MIN_PRIORITY \<le> i \<and> i \<le> MAX_PRIORITY | _ \<Rightarrow> False)
     \<and> text_length_ok 1024 (rq_key q) \<and> text_length_ok 1024 (rq_ckey q)"

text \<open>What FastAPI checks of a call before the route runs.\<close>

definition call_valid :: "settings \<Rightarrow> api_call \<Rightarrow> bool" where
  "call_valid s c = (case c of
     EnqueueTask q \<Rightarrow> body_valid q
   | ListTasks ty state key before limit \<Rightarrow> (case state of None \<Rightarrow> True | Some v \<Rightarrow> parse_state v \<in> range Inr)
   | _ \<Rightarrow> True)"

definition success_status :: "api_call \<Rightarrow> int" where
  "success_status c = (case c of EnqueueTask q \<Rightarrow> 201 | _ \<Rightarrow> 200)"

text \<open>\<open>require_auth\<close> reads the first \<open>Authorization\<close> header; an error it raises is answered 500.\<close>

definition require_auth :: "(ustr \<times> nat list) list \<Rightarrow> ustr option \<Rightarrow> int option" where
  "require_auth headers token = (case bearer_ok (map_of headers (lit ''authorization'')) token of
     Inl _ \<Rightarrow> Some 500
   | Inr ok \<Rightarrow> if ok then None else Some 401)"

text \<open>A response: its status and, on success, its value. \<open>_handler\<close> and the default handler map errors.\<close>

definition error_status :: "exn \<Rightarrow> int" where
  "error_status e = (case status_of e of Some n \<Rightarrow> n | None \<Rightarrow> 500)"

definition rest_call :: "api_env \<Rightarrow> ustr option \<Rightarrow> (ustr \<times> nat list) list \<Rightarrow> validators \<Rightarrow> db \<Rightarrow> api_call
     \<Rightarrow> (validators \<times> db \<times> (int \<times> api_value option) \<times> hint_event list) option" where
  "rest_call ae token headers cache d c = (case require_auth headers token of
     Some status \<Rightarrow> Some (cache, d, (status, None), [])
   | None \<Rightarrow>
       if \<not> call_valid (ae_settings ae) c then Some (cache, d, (422, None), [])
       else map_option (\<lambda>(cache', d', m, hs). (cache', d', case m of
              Inl e \<Rightarrow> (error_status e, None) | Inr v \<Rightarrow> (success_status c, Some v), hs))
            (service_call ae cache d c))"

section \<open>MCP\<close>

text \<open>
  The tools: \<open>list_tasks\<close> turns the \<open>ValueError\<close> of an unknown state into a tool error itself, listing
  types, listing tasks and statistics pass other errors on, and the rest run under \<open>_tool_errors\<close>.
\<close>

definition mcp_errors :: "api_call \<Rightarrow> exn + 'a \<Rightarrow> exn tool_failure + 'a" where
  "mcp_errors c m = (case c of
     ListTypes \<Rightarrow> map_sum Escapes id m
   | Stats \<Rightarrow> map_sum Escapes id m
   | ListTasks _ _ _ _ _ \<Rightarrow> map_sum (\<lambda>e. if is_value_error e then ToolError else Escapes e) id m
   | _ \<Rightarrow> tool_errors m)"

text \<open>\<open>stamp\<close> is the text of \<open>run_at\<close>; the other arguments of \<open>enqueue\<close> are those of the call.\<close>

definition mcp_call :: "api_env \<Rightarrow> (ustr \<Rightarrow> exn + time \<times> bool) \<Rightarrow> ustr option \<Rightarrow> validators \<Rightarrow> db \<Rightarrow> api_call
     \<Rightarrow> (validators \<times> db \<times> (exn tool_failure + api_value) \<times> hint_event list) option" where
  "mcp_call ae from_iso stamp cache d c =
     (case (case c of
              EnqueueTask q \<Rightarrow> map_sum id (\<lambda>r. EnqueueTask (q\<lparr>rq_run_at := r\<rparr>)) (parse_run_at from_iso stamp)
            | _ \<Rightarrow> Inr c) of
        Inl failure \<Rightarrow> Some (cache, d, Inl failure, [])
      | Inr c' \<Rightarrow> map_option (\<lambda>(cache', d', m, hs). (cache', d', mcp_errors c' m, hs)) (service_call ae cache d c'))"

section \<open>Facts\<close>

lemma service_call_mcp_list:
  "mcp_call ae from_iso stamp cache d (ListTasks ty state key before limit)
     = Some (cache, d, map_sum id (\<lambda>(items, nxt). VPage items nxt)
         (mcp_list_tasks (ae_settings ae) ty state key before limit d), [])"
proof -
  have "is_value_error e" if "parse_state v = Inl e" for e v
    using that by (auto simp: parse_state_def split: if_splits option.splits)
  then show ?thesis
    by (auto simp: mcp_call_def mcp_errors_def mcp_list_tasks_def task_query_def Let_def map_sum_def
        split: option.splits sum.splits prod.splits)
qed


subsection \<open>Authentication and validation\<close>

lemma rest_unauthorized:
  assumes "require_auth headers token = Some status"
  shows "rest_call ae token headers cache d c = Some (cache, d, (status, None), []) \<and> status \<in> {401, 500}"
  using assms by (auto simp: rest_call_def require_auth_def split: sum.splits if_splits)

text \<open>The body model refuses nothing the service would accept, and answers with the same status.\<close>

lemma utf8_bytes_pos: "1 \<le> length (utf8_bytes c)"
  by (simp add: utf8_bytes_def)

lemma length_utf8: "length s \<le> length (concat (map utf8_bytes s))"
proof (induction s)
  case (Cons c s)
  then show ?case using utf8_bytes_pos [of c] by simp
qed simp

lemma check_text_length:
  assumes "check_arg_text v n = Inr ()"
  shows "1 \<le> length v \<and> length v \<le> n"
proof -
  obtain bs where bs: "utf8_encode v = Inr bs" "1 \<le> length bs" "length bs \<le> n"
    using assms by (auto simp: check_arg_text_def split: if_splits sum.splits)
  then have "bs = concat (map utf8_bytes v)" by (auto simp: utf8_encode_def split: if_splits)
  then show ?thesis using bs(2,3) length_utf8 [of v] by (cases v) auto
qed

lemma invalid_body_rejected:
  assumes "\<not> body_valid q"
  shows "check_request fr s q = Inl InvalidInput"
proof -
  have bad: "check_arg_text v n = Inl InvalidInput" if "\<not> text_length_ok n (Some v)" for v n
  proof (cases "check_arg_text v n")
    case (Inr u)
    then show ?thesis using check_text_length [of v n] that by (simp add: text_length_ok_def)
  qed (simp add: check_arg_text_Inl)
  have key: "check_key k = Inl InvalidInput \<or> check_key k = Inr ()" for k
    by (auto simp: check_key_def check_arg_text_def split: option.splits sum.splits)
  have name: "check_name k = Inl InvalidInput \<or> check_name k = Inr ()" for k
    by (auto simp: check_name_def check_arg_text_def split: sum.splits)
  have badkey: "check_key k = Inl InvalidInput" if "\<not> text_length_ok 1024 k" for k
    using that bad [of 1024] by (cases k) (auto simp: check_key_def MAX_KEY_BYTES_def text_length_ok_def)
  have prio: "check_priority p = Inl InvalidInput"
    if "\<not> (case p of SInt i \<Rightarrow> MIN_PRIORITY \<le> i \<and> i \<le> MAX_PRIORITY | _ \<Rightarrow> False)" for p
    using that by (cases p) auto
  show ?thesis
    using assms bad [of 255 "rq_type q"] badkey [of "rq_key q"] badkey [of "rq_ckey q"] prio [of "rq_priority q"]
      key [of "rq_key q"] key [of "rq_ckey q"] name [of "rq_type q"]
    unfolding body_valid_def check_request_def
    by (auto simp: check_name_def MAX_NAME_BYTES_def)
qed


subsection \<open>One service behind both\<close>

lemma status_library: "status_of e = Some n \<Longrightarrow> is_fronta_error e \<and> n \<in> {404, 409, 413, 422}"
  by (cases e) auto

text \<open>
  The errors of a call: those of the library have a client status, unless a stored policy does not
  parse or the validator raises one.
\<close>

definition parsers_ok :: "api_env \<Rightarrow> db \<Rightarrow> bool" where
  "parsers_ok ae d \<longleftrightarrow> (\<forall>ty \<in> set (task_types d). ae_policy ae (ty_policy ty) \<in> range Inr)
     \<and> (\<forall>schema v e. ae_errors ae schema v = Inl e \<longrightarrow> \<not> is_fronta_error e)"

lemma collect_Inl: "collect f xs = Inl e \<Longrightarrow> \<exists>x \<in> set xs. f x = Inl e"
  by (induction xs) (auto dest!: bind_result_Inl)

lemma set_paused_Inl: "store_set_paused ty b d = Inl e \<Longrightarrow> e = InvalidInput \<or> e = UnknownTaskType"
  by (auto simp: store_set_paused_def check_name_def split: if_splits dest!: bind_result_Inl dest: check_arg_text_Inl)

lemma requeue_Inl: "store_requeue env i d = Inl e \<Longrightarrow> e = NotRequeueable \<or> e = TaskNotFound"
  by (auto simp: store_requeue_def Let_def case_prod_beta split: if_splits list.splits option.splits)

lemma service_change_Inl:
  "service_pause ty d = Inl e \<Longrightarrow> e = InvalidInput \<or> e = UnknownTaskType"
  "service_resume ty d = Inl e \<Longrightarrow> e = InvalidInput \<or> e = UnknownTaskType"
  "service_requeue env i d = Inl e \<Longrightarrow> e = NotRequeueable \<or> e = TaskNotFound"
  unfolding service_pause_def service_resume_def service_requeue_def
  by (auto simp: case_prod_beta dest!: bind_result_Inl dest: set_paused_Inl requeue_Inl)

lemma service_cancel_Inl:
  "service_cancel env others i d = (d', Inl e, hs) \<Longrightarrow> hs = [] \<and> (e = TaskNotFound \<or> e = NotCancellable)"
  by (auto simp: service_cancel_def Let_def split: prod.splits option.splits)

lemma plain_call_Inl: "plain_call cache d m v = (cache', d', Inl e, hs) \<Longrightarrow> m = Inl e \<and> hs = []"
  by (auto simp: plain_call_def split: sum.splits)

lemma list_types_total: "parsers_ok ae d \<Longrightarrow> store_get_task_types (ae_collate ae) (ae_policy ae) d \<noteq> Inl e"
proof
  assume ok: "parsers_ok ae d" and "store_get_task_types (ae_collate ae) (ae_policy ae) d = Inl e"
  then obtain ty where ty: "ty \<in> set (task_types d)" "type_of_row (ae_policy ae) ty = Inl e"
    by (auto simp: store_get_task_types_def dest!: collect_Inl)
  obtain p where "ae_policy ae (ty_policy ty) = Inr p" using ok ty(1) unfolding parsers_ok_def by blast
  then show False using ty(2) by (simp add: type_of_row_def)
qed

lemma parse_state_Inl: "parse_state v = Inl e \<Longrightarrow> e = ValueError"
  by (simp add: parse_state_def split: if_splits)

lemma task_query_Inl: "task_query s ty state key before limit = Inl e \<Longrightarrow> \<exists>v. state = Some v \<and> parse_state v = Inl e"
  by (cases state; cases "parse_state (the state)") (simp_all add: task_query_def)

lemma list_tasks_Inl:
  assumes "service_call ae cache d (ListTasks ty state key before limit) = Some (cache', d', Inl e, hs)"
  shows "e = ValueError \<and> hs = [] \<and> \<not> call_valid s (ListTasks ty state key before limit)"
proof -
  have hs: "hs = []" and m: "bind_result (task_query (ae_settings ae) ty state key before limit) (\<lambda>f.
      case service_list (ae_settings ae) f d of (items, nxt) \<Rightarrow> Inr (VPage items nxt)) = Inl e"
    using assms by auto
  from bind_result_Inl [OF m] have "task_query (ae_settings ae) ty state key before limit = Inl e"
    by (auto simp: case_prod_beta)
  then obtain v where v: "state = Some v" "parse_state v = Inl e" using task_query_Inl by blast
  then show ?thesis using hs parse_state_Inl by (auto simp: call_valid_def)
qed

lemma service_call_errors:
  assumes "service_call ae cache d c = Some (cache', d', Inl e, hs)" "parsers_ok ae d"
  shows "hs = [] \<and> (is_fronta_error e \<longrightarrow> status_of e \<noteq> None)"
proof (cases c)
  case ListTypes
  then have "store_get_task_types (ae_collate ae) (ae_policy ae) d = Inl e"
    using assms(1) by (auto simp: map_sum_def split: sum.splits)
  then show ?thesis using list_types_total [OF assms(2)] by blast
next
  case (EnqueueTask q)
  then have "service_enqueue (ae_fuel ae) (ae_pg ae) (ae_others ae) (ae_ticks ae) (ae_start ae) (ae_float ae)
      (ae_policy ae) (ae_errors ae) (ae_settings ae) q cache d = Some (cache', Inl e)" "hs = []"
    using assms(1) by (auto split: option.splits sum.splits prod.splits)
  from service_enqueue_errors [OF this(1)] consider
      "e \<in> {PayloadTooLarge, InvalidInput, UnknownTaskType, TimeoutError, TypeError}"
    | schema where "ae_errors ae schema (rq_input q) = Inl e"
    | ty where "ty \<in> set (task_types d)" "ae_policy ae (ty_policy ty) = Inl e" by blast
  then show ?thesis
  proof cases
    case 2
    then have "\<not> is_fronta_error e" using assms(2) unfolding parsers_ok_def by blast
    then show ?thesis using \<open>hs = []\<close> by blast
  next
    case 3
    then obtain x where "ae_policy ae (ty_policy ty) = Inr x" using assms(2) unfolding parsers_ok_def by blast
    then show ?thesis using 3(2) by simp
  qed (use \<open>hs = []\<close> in auto)
next
  case (GetTask i)
  then have "hs = []" "service_get_task i d = Inl e" using assms(1) by (auto simp: map_sum_def split: sum.splits)
  then show ?thesis by (simp add: service_get_task_def split: option.splits)
next
  case (ListTasks ty state key before limit)
  then show ?thesis using list_tasks_Inl [OF assms(1) [unfolded ListTasks]] by simp
next
  case (CancelTask i)
  then obtain res hs' where "service_cancel (ae_pg ae 0) (ae_others ae 0) i d = (d', res, hs')" "hs' = hs" "res = Inl e"
    using assms(1) by (auto simp: map_sum_def split: prod.splits sum.splits)
  then show ?thesis using service_cancel_Inl by fastforce
next
  case (PauseType ty)
  then show ?thesis using assms(1) plain_call_Inl service_change_Inl(1) by fastforce
next
  case (ResumeType ty)
  then show ?thesis using assms(1) plain_call_Inl service_change_Inl(2) by fastforce
next
  case (RequeueTask i)
  then show ?thesis using assms(1) plain_call_Inl service_change_Inl(3) by fastforce
next
  case Stats
  then show ?thesis using assms(1) by simp
qed

text \<open>
  Both surfaces answer alike: the same value or the same failure, the same tables and hints.
\<close>

lemma rest_mcp_agree_aux:
  assumes auth: "require_auth headers token = None" and valid: "call_valid (ae_settings ae) c" and ok: "parsers_ok ae d"
    and stamp: "\<forall>q. c = EnqueueTask q \<longrightarrow> parse_run_at from_iso stamp = Inr (rq_run_at q)"
    and mcp: "mcp_call ae from_iso stamp cache d c = Some (cache', d', m, hs)"
  shows "\<exists>status v. rest_call ae token headers cache d c = Some (cache', d', (status, v), hs)
    \<and> (case m of Inr x \<Rightarrow> status = success_status c \<and> v = Some x
       | Inl ToolError \<Rightarrow> status \<in> {404, 409, 413, 422} \<and> v = None \<and> hs = []
       | Inl (Escapes e) \<Rightarrow> status = 500 \<and> v = None \<and> hs = [])"
proof -
  have same: "mcp_call ae from_iso stamp cache d c
      = map_option (\<lambda>(cache', d', m, hs). (cache', d', mcp_errors c m, hs)) (service_call ae cache d c)"
    using stamp by (cases c) (auto simp: mcp_call_def)
  then obtain r where r: "service_call ae cache d c = Some (cache', d', r, hs)" "m = mcp_errors c r"
    using mcp by (cases "service_call ae cache d c") auto
  have rest: "rest_call ae token headers cache d c = Some (cache', d', case r of
      Inl e \<Rightarrow> (error_status e, None) | Inr v \<Rightarrow> (success_status c, Some v), hs)"
    using auth valid r(1) by (simp add: rest_call_def)
  show ?thesis
  proof (cases r)
    case (Inr x)
    then have "m = Inr x" using r(2) by (cases c) (simp_all add: mcp_errors_def tool_errors_def)
    then show ?thesis using rest Inr by simp
  next
    case (Inl e)
    note err = service_call_errors [OF r(1) [unfolded Inl] ok]
    have st: "if is_fronta_error e then error_status e \<in> {404, 409, 413, 422} else error_status e = 500"
      using err status_library [of e] by (auto simp: error_status_def split: option.splits)
    have m: "m = Inl (if is_fronta_error e then ToolError else Escapes e)"
    proof (cases c)
      case ListTypes
      then have "store_get_task_types (ae_collate ae) (ae_policy ae) d = Inl e"
        using r(1) Inl by (auto simp: map_sum_def split: sum.splits)
      then show ?thesis using list_types_total [OF ok] by blast
    next
      case (ListTasks ty state key before limit)
      then show ?thesis using list_tasks_Inl r(1) Inl valid by blast
    next
      case Stats
      then show ?thesis using r(1) Inl by simp
    qed (use r(2) Inl in \<open>simp_all add: mcp_errors_def tool_errors_def\<close>)
    show ?thesis using rest err st m Inl by (auto split: if_splits)
  qed
qed

end
