(* ===== verification/Runtime.thy ===== *)
theory Runtime
  imports Hints
begin

text \<open>
  \<open>runtime.py\<close>: the process-wide settings, one SDK pool per event loop, and one hint sender per
  event loop and target. A settings object is its identity with its values, a pool and a sender
  are numbers, and an event loop is a number; a fresh object is an argument.
\<close>

section \<open>Connections\<close>

text \<open>\<open>connection_kwargs\<close>: the connect timeout in seconds and the statement timeout in milliseconds.\<close>

definition connection_kwargs :: "settings \<Rightarrow> rat option \<Rightarrow> int \<times> int" where
  "connection_kwargs s statement_timeout =
     (let timeout = (case statement_timeout of None \<Rightarrow> statement_timeout_s s | Some t \<Rightarrow> t)
      in (max 1 \<lceil>connect_timeout_s s\<rceil>, max 1 \<lceil>timeout * 1000\<rceil>))"

record settings_object =
  so_id :: nat
  so_values :: settings
  so_dsn :: "ustr option"

definition dsn_of :: "settings_object \<Rightarrow> exn + ustr" where
  "dsn_of s = (case so_dsn s of None \<Rightarrow> Inl ConfigurationError | Some dsn \<Rightarrow> Inr dsn)"

record pool_args =
  pa_dsn :: ustr
  pa_min :: int
  pa_max :: int
  pa_timeout :: rat
  pa_kwargs :: "int \<times> int"

text \<open>\<open>make_pool\<close>; \<open>max_size or settings.pool_size\<close> takes a size of zero for none.\<close>

definition make_pool :: "settings_object \<Rightarrow> int option \<Rightarrow> rat option \<Rightarrow> exn + pool_args" where
  "make_pool s max_size statement_timeout = bind_result (dsn_of s) (\<lambda>dsn.
     Inr \<lparr>pa_dsn = dsn, pa_min = 1,
          pa_max = (case max_size of None \<Rightarrow> pool_size (so_values s) | Some n \<Rightarrow> if n = 0 then pool_size (so_values s) else n),
          pa_timeout = connect_timeout_s (so_values s),
          pa_kwargs = connection_kwargs (so_values s) statement_timeout\<rparr>)"

text \<open>\<open>open_ready\<close>: whether the pool stays open. \<open>opened\<close> and \<open>waited\<close> are what \<open>open\<close> and \<open>wait\<close> answer.\<close>

definition open_ready :: "exn + unit \<Rightarrow> exn + unit \<Rightarrow> bool \<times> (exn + unit)" where
  "open_ready opened waited = (case opened of
     Inl e \<Rightarrow> (False, Inl e)
   | Inr _ \<Rightarrow> (case waited of Inl e \<Rightarrow> (False, Inl e) | Inr _ \<Rightarrow> (True, Inr ())))"

section \<open>The registry\<close>

record registry =
  rg_settings :: "settings_object option"
  rg_pools :: "nat \<Rightarrow> (settings_object \<times> nat) option"
  rg_hints :: "nat \<Rightarrow> (ustr list \<times> nat) list"

definition new_registry :: registry where
  "new_registry = \<lparr>rg_settings = None, rg_pools = (\<lambda>_. None), rg_hints = (\<lambda>_. [])\<rparr>"

definition configure :: "settings_object \<Rightarrow> registry \<Rightarrow> registry" where
  "configure s rg = rg\<lparr>rg_settings := Some s\<rparr>"

text \<open>\<open>made\<close> is what constructing \<open>Settings()\<close> from the environment gives.\<close>

definition get_settings :: "exn + settings_object \<Rightarrow> registry \<Rightarrow> registry \<times> (exn + settings_object)" where
  "get_settings made rg = (case rg_settings rg of
     Some s \<Rightarrow> (rg, Inr s)
   | None \<Rightarrow> (case made of Inl e \<Rightarrow> (rg, Inl e) | Inr s \<Rightarrow> (configure s rg, Inr s)))"

text \<open>
  The key of a target, from the parameters of its connection string: the default port, and no
  \<open>hostaddr\<close> that repeats the host.
\<close>

definition param :: "(ustr \<times> ustr) list \<Rightarrow> ustr \<Rightarrow> ustr" where
  "param ps k = (case map_of ps k of None \<Rightarrow> [] | Some v \<Rightarrow> v)"

definition hint_key :: "(ustr \<times> ustr) list \<Rightarrow> ustr list" where
  "hint_key ps =
     (let port = (if param ps (lit ''port'') = [] then lit ''5432'' else param ps (lit ''port''));
          hostaddr = (if map_of ps (lit ''hostaddr'') = map_of ps (lit ''host'') then [] else param ps (lit ''hostaddr''))
      in [param ps (lit ''host''), hostaddr, port, param ps (lit ''dbname''), param ps (lit ''user''), param ps (lit ''password'')])"

text \<open>\<open>hints\<close>: the sender of a target on an event loop; \<open>fresh\<close> is the one it creates if there is none.\<close>

definition hints_sender :: "nat \<Rightarrow> ustr list \<Rightarrow> nat \<Rightarrow> registry \<Rightarrow> registry \<times> nat" where
  "hints_sender loop key fresh rg = (case map_of (rg_hints rg loop) key of
     Some h \<Rightarrow> (rg, h)
   | None \<Rightarrow> (rg\<lparr>rg_hints := (rg_hints rg)(loop := rg_hints rg loop @ [(key, fresh)])\<rparr>, fresh))"

definition close_hints :: "nat \<Rightarrow> registry \<Rightarrow> registry \<times> nat list" where
  "close_hints loop rg = (rg\<lparr>rg_hints := (rg_hints rg)(loop := [])\<rparr>, map snd (rg_hints rg loop))"

text \<open>
  \<open>open_pool\<close> under the loop's lock: the pools it closes, the pool it opened if any, and its answer.
  \<open>is_closed\<close> says whether somebody else closed a pool; \<open>fresh\<close> is the new pool with how opening
  it ends.
\<close>

definition open_pool :: "nat \<Rightarrow> settings_object option \<Rightarrow> exn + settings_object \<Rightarrow> (nat \<Rightarrow> bool)
     \<Rightarrow> nat \<times> (exn + unit) \<times> (exn + unit) \<Rightarrow> registry \<Rightarrow> registry \<times> nat list \<times> nat list \<times> (exn + nat)" where
  "open_pool loop s made is_closed fresh rg =
     (let rg0 = (case s of None \<Rightarrow> rg | Some x \<Rightarrow> configure x rg)
      in case get_settings made rg0 of
           (rg1, Inl e) \<Rightarrow> (rg1, [], [], Inl e)
         | (rg1, Inr current) \<Rightarrow>
             let stale = (case rg_pools rg1 loop of
                   None \<Rightarrow> [] | Some (owner, p) \<Rightarrow> if so_id owner \<noteq> so_id current \<or> is_closed p then [p] else []);
                 rg2 = (if stale = [] then rg1 else rg1\<lparr>rg_pools := (rg_pools rg1)(loop := None)\<rparr>)
             in case rg_pools rg2 loop of
                  Some (owner, p) \<Rightarrow> (rg2, stale, [], Inr p)
                | None \<Rightarrow> (case make_pool current None None of
                    Inl e \<Rightarrow> (rg2, stale, [], Inl e)
                  | Inr args \<Rightarrow> (case open_ready (fst (snd fresh)) (snd (snd fresh)) of
                      (_, Inl e) \<Rightarrow> (rg2, stale, [], Inl e)
                    | (_, Inr _) \<Rightarrow> (rg2\<lparr>rg_pools := (rg_pools rg2)(loop := Some (current, fst fresh))\<rparr>, stale,
                        [fst fresh], Inr (fst fresh)))))"

definition close_pool :: "nat \<Rightarrow> registry \<Rightarrow> registry \<times> nat list" where
  "close_pool loop rg = (case close_hints loop rg of (rg1, _) \<Rightarrow>
     (rg1\<lparr>rg_pools := (rg_pools rg1)(loop := None)\<rparr>,
      case rg_pools rg1 loop of None \<Rightarrow> [] | Some (_, p) \<Rightarrow> [p]))"

section \<open>Facts\<close>

lemma connection_kwargs_bounds:
  assumes "connection_kwargs s t = (ct, st)"
  shows "1 \<le> ct" "1 \<le> st" "connect_timeout_s s \<le> of_int ct"
    "(case t of None \<Rightarrow> statement_timeout_s s | Some x \<Rightarrow> x) * 1000 \<le> of_int st"
proof -
  have up: "x \<le> of_int (max 1 \<lceil>x\<rceil>)" for x :: rat
    by (rule order.trans [OF le_of_int_ceiling]) simp
  show "1 \<le> ct" "1 \<le> st" using assms by (auto simp: connection_kwargs_def Let_def)
  show "connect_timeout_s s \<le> of_int ct" "(case t of None \<Rightarrow> statement_timeout_s s | Some x \<Rightarrow> x) * 1000 \<le> of_int st"
    using assms up by (auto simp only: connection_kwargs_def Let_def prod.inject)
qed

text \<open>Two targets share a sender exactly if they name the same server, database and login.\<close>

lemma hint_key_default_port:
  "map_of ps (lit ''port'') = None \<Longrightarrow> hint_key ps = hint_key ((lit ''port'', lit ''5432'') # ps)"
  by (simp add: hint_key_def param_def)

lemma hint_key_hostaddr:
  "map_of ps (lit ''hostaddr'') = None \<Longrightarrow> map_of ps (lit ''host'') = Some h
    \<Longrightarrow> hint_key ps = hint_key ((lit ''hostaddr'', h) # ps)"
  by (simp add: hint_key_def param_def)

text \<open>The sender of a target stays the same until the loop's senders are closed; other loops are not touched.\<close>

lemma hints_sender_same:
  assumes "hints_sender loop key fresh rg = (rg', h)"
  shows "hints_sender loop key fresh' rg' = (rg', h)" "loop' \<noteq> loop \<Longrightarrow> rg_hints rg' loop' = rg_hints rg loop'"
    "key' \<noteq> key \<Longrightarrow> map_of (rg_hints rg' loop) key' = map_of (rg_hints rg loop) key'"
  using assms by (auto simp: hints_sender_def map_add_def split: option.splits)

lemma close_hints_all:
  assumes "map_of (rg_hints rg loop) key = Some h" "close_hints loop rg = (rg', closings)"
  shows "h \<in> set closings \<and> rg_hints rg' loop = []"
  using assms map_of_SomeD [OF assms(1)] by (force simp: close_hints_def)

text \<open>
  No pool is lost: with \<open>live\<close> the pools of a loop that were opened and not closed, every call
  keeps them registered.
\<close>

definition pools_kept :: "nat \<Rightarrow> registry \<Rightarrow> nat set \<Rightarrow> bool" where
  "pools_kept loop rg live \<longleftrightarrow> (\<forall>p \<in> live. \<exists>s. rg_pools rg loop = Some (s, p))"

lemma open_pool_keeps:
  assumes "open_pool loop s made is_closed fresh rg = (rg', closings, openings, res)" "pools_kept loop rg live"
  shows "pools_kept loop rg' (live - set closings \<union> set openings)"
    "res = Inr p \<Longrightarrow> \<exists>owner current. rg_pools rg' loop = Some (owner, p) \<and> rg_settings rg' = Some current \<and> so_id owner = so_id current"
  using assms unfolding open_pool_def get_settings_def configure_def pools_kept_def
  by (auto simp: Let_def split: option.splits sum.splits prod.splits if_splits)

lemma close_pool_keeps:
  assumes "close_pool loop rg = (rg', closings)" "pools_kept loop rg live"
  shows "pools_kept loop rg' (live - set closings)"
  using assms unfolding close_pool_def close_hints_def pools_kept_def by (auto split: option.splits)

end
