(* ===== verification/QueueSpec.thy ===== *)
theory QueueSpec
  imports Outcomes
begin

text \<open>
  What the task table promises, without tables: a queue of slots that wait, are held under a token
  or have ended, and the requests that may change them. \<open>abs_queue\<close> reads a database as such a
  queue, and every statement of the program, whatever columns it writes, is one request of it. What
  holds of every run of requests then holds of every sequence of statements.
\<close>

section \<open>The abstract queue\<close>

text \<open>\<open>Held t c\<close>: under token \<open>t\<close>, and \<open>c\<close> tells that its cancellation is requested.\<close>

datatype phase = Waiting | Held uuid bool | Ended task_state

text \<open>An identifier is still free, used up, or names a task with the number of its attempts.\<close>

datatype slot = Free | Gone | Task int phase

datatype queue_request =
    Nothing
  | Create
  | Grant "int \<Rightarrow> uuid"
  | Settle "int \<Rightarrow> uuid \<Rightarrow> completion_kind option"
  | GiveBack
  | Ask int
  | Expire
  | Revive int
  | Forget

text \<open>Where an outcome takes a held task; a failure may or may not be the last one.\<close>

fun settled :: "completion_kind \<Rightarrow> bool \<Rightarrow> phase list" where
  "settled Succeed c = [Ended Succeeded]"
| "settled FailFinal c = [Ended Failed]"
| "settled Cancel c = (if c then [Ended Cancelled] else [])"
| "settled Release c = (if c then [Ended Cancelled] else [Waiting])"
| "settled Fail c = (if c then [Ended Cancelled] else [Waiting, Ended Failed])"

text \<open>What a request may do to one slot: the slot before and after.\<close>

fun spec_slot :: "queue_request \<Rightarrow> int \<Rightarrow> slot \<Rightarrow> slot \<Rightarrow> bool" where
  "spec_slot (Grant fresh) i (Task n Waiting) b \<longleftrightarrow> b = Task n Waiting \<or> b = Task (n + 1) (Held (fresh i) False)"
| "spec_slot (Settle outs) i (Task n (Held t c)) b \<longleftrightarrow> (case outs i t of
     None \<Rightarrow> b = Task n (Held t c)
   | Some k \<Rightarrow> if settled k c = [] then b = Task n (Held t c) else b \<in> set (map (Task n) (settled k c)))"
| "spec_slot GiveBack i (Task n (Held t c)) b \<longleftrightarrow> b = Task n (Held t c) \<or> b \<in> set (map (Task n) (settled Release c))"
| "spec_slot (Ask j) i (Task n Waiting) b \<longleftrightarrow> b = Task n (if i = j then Ended Cancelled else Waiting)"
| "spec_slot (Ask j) i (Task n (Held t c)) b \<longleftrightarrow> b = Task n (Held t (c \<or> i = j))"
| "spec_slot Expire i (Task n (Held t c)) b \<longleftrightarrow> b = Task n (Held t c) \<or> b \<in> set (map (Task n) (settled Fail c))"
| "spec_slot (Revive j) i (Task n (Ended s)) b \<longleftrightarrow> b = Task n (Ended s) \<or> (i = j \<and> s \<noteq> Succeeded \<and> b = Task n Waiting)"
| "spec_slot Forget i (Task n (Ended s)) b \<longleftrightarrow> b = Task n (Ended s) \<or> b = Gone"
| "spec_slot req i a b \<longleftrightarrow> b = a"

type_synonym squeue = "int \<Rightarrow> slot"

text \<open>\<open>Create\<close> uses up a free identifier, for a task or (a refused duplicate) for nothing.\<close>

definition spec_op :: "queue_request \<Rightarrow> squeue \<Rightarrow> squeue \<Rightarrow> bool" where
  "spec_op req A B \<longleftrightarrow> (if req = Create then \<exists>i. A i = Free \<and> (B = A(i := Gone) \<or> B = A(i := Task 0 Waiting))
     else \<forall>i. spec_slot req i (A i) (B i))"

inductive spec_run :: "queue_request list \<Rightarrow> squeue \<Rightarrow> squeue \<Rightarrow> bool" where
  none: "spec_run [] A A"
| one: "spec_op req A B \<Longrightarrow> spec_run reqs B C \<Longrightarrow> spec_run (req # reqs) A C"

inductive_simps spec_run_simps: "spec_run [] A B" "spec_run (req # reqs) A B"

section \<open>What the abstract queue promises\<close>

text \<open>
  \<open>later a b\<close>: a used identifier is never free again, a task that is gone stays gone, attempts are
  never taken back, and one attempt is held under one token only, from which a requested
  cancellation does not vanish.
\<close>

fun later :: "slot \<Rightarrow> slot \<Rightarrow> bool" where
  "later Free b \<longleftrightarrow> True"
| "later Gone b \<longleftrightarrow> b = Gone"
| "later (Task n p) Free \<longleftrightarrow> False"
| "later (Task n p) Gone \<longleftrightarrow> True"
| "later (Task n p) (Task m q) \<longleftrightarrow> n < m \<or> (n = m \<and>
     (case q of Held t c' \<Rightarrow> (\<exists>c. p = Held t c \<and> (c \<longrightarrow> c')) | _ \<Rightarrow> True))"

lemma later_refl [simp]: "later a a"
  by (cases a) (auto split: phase.split)

lemma later_trans: "later a b \<Longrightarrow> later b c \<Longrightarrow> later a c"
  by (cases a; cases b; cases c) (auto split: phase.splits)

lemma settled_not_held: "Held t c' \<notin> set (settled k c)"
  by (cases k) auto

lemma spec_slot_later: "spec_slot req i a b \<Longrightarrow> later a b"
proof (induction req i a b rule: spec_slot.induct)
  case (2 outs i n t c b)
  then show ?case by (cases "outs i t") (auto simp: settled_not_held split: if_splits phase.split)
qed (auto split: if_splits)

lemma spec_op_later: "spec_op req A B \<Longrightarrow> later (A i) (B i)"
  by (auto simp: spec_op_def split: if_splits intro: spec_slot_later)

lemma spec_run_later: "spec_run reqs A B \<Longrightarrow> later (A i) (B i)"
  by (induction rule: spec_run.induct) (auto intro: later_trans spec_op_later)

section \<open>A database as a queue\<close>

definition phase_of :: "task_row \<Rightarrow> phase" where
  "phase_of r = (case t_state r of Queued \<Rightarrow> Waiting
     | Running \<Rightarrow> Held (the (t_token r)) (t_cancel_at r \<noteq> None) | s \<Rightarrow> Ended s)"

definition slot_of :: "task_row \<Rightarrow> slot" where
  "slot_of r = Task (t_attempt r) (phase_of r)"

definition abs_queue :: "db \<Rightarrow> squeue" where
  "abs_queue d i = (case store_get_task d i of Some r \<Rightarrow> slot_of r
     | None \<Rightarrow> if 1 \<le> i \<and> i < next_id d then Gone else Free)"

text \<open>The outcomes a completion batch brings, by task and token.\<close>

definition outcomes_of :: "completion list \<Rightarrow> int \<Rightarrow> uuid \<Rightarrow> completion_kind option" where
  "outcomes_of cs i t = map_option c_kind (find_row (\<lambda>c. c_id c = i \<and> c_token c = t) cs)"

fun request_of :: "pg \<Rightarrow> statement \<Rightarrow> queue_request" where
  "request_of env (SEnqueue nt) = (case check_new_task nt of Inl _ \<Rightarrow> Nothing | Inr _ \<Rightarrow> Create)"
| "request_of env (SClaim lk clk types w l dl n) = Grant (fresh_uuid env)"
| "request_of env (SComplete cs) =
     (if length cs > 256 \<or> \<not> distinct (map c_id cs) then Nothing else Settle (outcomes_of cs))"
| "request_of env (SOrphans w live) = GiveBack"
| "request_of env (SCancel i) = Ask i"
| "request_of env (SReap n busy) = Expire"
| "request_of env (SRequeue i) = Revive i"
| "request_of env (SPurgeTasks ret n busy) = Forget"
| "request_of env s = Nothing"

section \<open>Every statement is its request\<close>

lemma find_row_update:
  assumes "\<And>r. k (u r) = k r"
  shows "find_row (\<lambda>r. k r = i) (update_where g u rows)
    = map_option (\<lambda>r. if g r then u r else r) (find_row (\<lambda>r. k r = i) rows)"
  by (induction rows) (auto simp: update_where_def assms)

lemma slot_absent: "spec_slot req i Free Free" "spec_slot req i Gone Gone"
  by (cases req; simp)+

lemma spec_nothing [simp]: "spec_slot Nothing i a b \<longleftrightarrow> b = a"
  by (cases a) simp_all

lemma spec_op_same: "spec_op Nothing A A"
  by (simp add: spec_op_def)

lemma abs_queue_frame: "tasks d' = tasks d \<Longrightarrow> next_id d' = next_id d \<Longrightarrow> abs_queue d' = abs_queue d"
  by (simp add: fun_eq_iff abs_queue_def store_get_task_def split: option.split)

text \<open>
  The contract of a statement's guard and new row with the request it implements. Whatever the
  outbox insert, the statement then performs the request on the whole queue.
\<close>

locale row_refines = row_update +
  fixes req :: queue_request
  assumes refines: "row_inv r \<Longrightarrow> spec_slot req (t_id r) (slot_of r) (slot_of (if guard r then upd r else r))"
    and creates: "req \<noteq> Create"
begin

lemma op_with_events:
  assumes "db_inv d"
  shows "spec_op req (abs_queue d) (abs_queue (fst (with_events env guard upd p d)))"
proof -
  have "spec_slot req i (abs_queue d i) (abs_queue (fst (with_events env guard upd p d)) i)" for i
  proof (cases "store_get_task d i")
    case None
    then show ?thesis
      by (simp add: abs_queue_def store_get_task_def find_row_update [where k = t_id] upd_id slot_absent)
  next
    case (Some r)
    then have "r \<in> set (tasks d)" "t_id r = i" by (auto simp: store_get_task_def dest: find_row_SomeD)
    then show ?thesis
      using refines [OF db_inv_row [OF assms], of r] Some
      by (simp add: abs_queue_def store_get_task_def find_row_update [where k = t_id] upd_id)
  qed
  then show ?thesis using creates by (simp add: spec_op_def)
qed

end

lemmas slot_simps = slot_of_def phase_of_def

lemma outcome_for_eq:
  assumes "t_token r = Some t"
  shows "outcomes_of cs (t_id r) t = map_option c_kind (outcome_for cs r)"
  using assms by (simp add: outcomes_of_def outcome_for_def eq_commute)

lemma slot_complete:
  assumes "row_inv r"
  shows "spec_slot (Settle (outcomes_of cs)) (t_id r) (slot_of r)
    (slot_of (if complete_guard cs r then complete_upd env cs r else r))"
proof (cases "t_state r = Running")
  case False
  then show ?thesis by (cases "t_state r") (simp_all add: complete_guard_def slot_simps)
next
  case True
  then obtain t where t: "t_token r = Some t" using assms by (auto simp: row_inv_def)
  show ?thesis
  proof (cases "outcome_for cs r")
    case None
    then show ?thesis using True t by (simp add: complete_guard_def slot_simps outcome_for_eq [OF t])
  next
    case (Some c)
    then show ?thesis
      using True t by (cases "c_kind c")
        (auto simp: complete_guard_def complete_upd_def complete_row_def slot_simps outcome_for_eq [OF t])
  qed
qed

lemma slot_orphan:
  assumes "row_inv r" "\<forall>c \<in> set cs. c_kind c = Release"
  shows "spec_slot GiveBack (t_id r) (slot_of r) (slot_of (if complete_guard cs r then complete_upd env cs r else r))"
proof (cases "t_state r = Running")
  case False
  then show ?thesis by (cases "t_state r") (simp_all add: complete_guard_def slot_simps)
next
  case True
  then show ?thesis
    using assms outcome_for_SomeD [of cs r]
    by (cases "outcome_for cs r") (auto simp: complete_guard_def complete_upd_def complete_row_def slot_simps)
qed

interpretation complete_ref: row_refines "complete_guard cs" "complete_upd env cs" "Settle (outcomes_of cs)" for cs env
  by unfold_locales (rule slot_complete, simp_all)

interpretation orphan_ref: row_refines "complete_guard (orphan_outcomes w live rows)"
    "complete_upd env (orphan_outcomes w live rows)" GiveBack for w live rows env
  by unfold_locales (rule slot_orphan, simp_all add: orphan_outcomes_def)

interpretation claim_ref: row_refines "claim_guard ids" "claim_upd env w l" "Grant (fresh_uuid env)" for ids env w l
  by unfold_locales (auto simp: claim_guard_def claim_upd_def slot_simps row_inv_def split: task_state.splits)

interpretation cancel_ref: row_refines "cancel_guard i" "cancel_upd env" "Ask i" for i env
  by unfold_locales (auto simp: cancel_guard_def cancel_upd_def slot_simps split: task_state.splits option.splits)

interpretation reap_ref: row_refines "\<lambda>r. lease_expired now r \<and> reap_guard ids r" "reap_upd env" Expire for now ids env
  by unfold_locales (auto simp: lease_expired_def reap_upd_def slot_simps split: task_state.splits)

interpretation requeue_ref: row_refines "requeue_guard i" "requeue_upd env" "Revive i" for i env
  by unfold_locales (auto simp: requeue_guard_def requeue_upd_def slot_simps split: task_state.splits)

interpretation heartbeat_ref: row_refines "heartbeat_guard rs" "heartbeat_upd env l" Nothing for rs env l
  by unfold_locales (simp_all add: heartbeat_upd_def slot_simps split: task_state.split)

interpretation progress_ref: row_refines "progress_guard i tok" "progress_upd env s" Nothing for i tok env s
  by unfold_locales (simp_all add: progress_upd_def slot_simps split: task_state.split)

text \<open>The two statements that change which rows there are.\<close>

lemma op_enqueue:
  assumes "db_inv d"
  shows "spec_op Create (abs_queue d) (abs_queue (fst (enqueue_insert env nt d)))"
proof -
  let ?i = "next_id d"
  have ids: "\<forall>r \<in> set (tasks d). t_id r < ?i" "1 \<le> ?i" using assms by (auto simp: db_inv_def tasks_inv_def)
  have none: "store_get_task d ?i = None" using ids(1) by (auto simp: store_get_task_def find_row_None_iff)
  then have free: "abs_queue d ?i = Free" by (simp add: abs_queue_def)
  have other: "find_row (\<lambda>r. t_id r = i) (tasks d @ [new_row env nt ?i])
      = (if i = ?i then Some (new_row env nt ?i) else store_get_task d i)" for i
  proof -
    have app: "find_row P (xs @ [y]) = (case find_row P xs of None \<Rightarrow> if P y then Some y else None | Some x \<Rightarrow> Some x)"
      for P and xs :: "task_row list" and y by (induction xs) auto
    show ?thesis using none by (auto simp: app store_get_task_def new_row_def split: option.split)
  qed
  show ?thesis
  proof (cases "\<exists>r \<in> set (tasks d). active_with_key (n_type nt) (n_key nt) r")
    case True
    then have "abs_queue (fst (enqueue_insert env nt d)) = (abs_queue d)(?i := Gone)"
      using none ids(2) by (auto simp: fun_eq_iff enqueue_insert_def abs_queue_def store_get_task_def Let_def split: option.split)
    then show ?thesis using free by (auto simp: spec_op_def)
  next
    case False
    then have "abs_queue (fst (enqueue_insert env nt d)) = (abs_queue d)(?i := Task 0 Waiting)"
      using other by (auto simp: fun_eq_iff enqueue_insert_def abs_queue_def [of "publish _ _ _"] abs_queue_def [of d]
          store_get_task_def [of "publish _ _ _"] Let_def slot_simps new_row_def split: option.split)
    then show ?thesis using free by (auto simp: spec_op_def)
  qed
qed

lemma op_purge:
  assumes "db_inv d"
  shows "spec_op Forget (abs_queue d) (abs_queue (fst (store_purge_tasks env ret n busy d)))"
proof -
  let ?ids = "purge_ids env ret n busy (tasks d)"
  have rest: "find_row (\<lambda>r. t_id r = i) (filter (\<lambda>r. t_id r \<notin> set ?ids) rows)
      = (if i \<in> set ?ids then None else find_row (\<lambda>r. t_id r = i) rows)" for i rows
    by (induction rows) (auto simp: find_row_None_iff)
  have "spec_slot Forget i (abs_queue d i) (abs_queue (fst (store_purge_tasks env ret n busy d)) i)" for i
  proof (cases "store_get_task d i")
    case None
    then show ?thesis
      by (simp add: abs_queue_def store_get_task_def store_purge_tasks_def Let_def rest slot_absent)
  next
    case (Some r)
    then have r: "r \<in> set (tasks d)" "t_id r = i" by (auto simp: store_get_task_def dest: find_row_SomeD)
    have ran: "1 \<le> i" "i < next_id d" using assms r by (auto simp: db_inv_def tasks_inv_def)
    show ?thesis
    proof (cases "i \<in> set ?ids")
      case False
      then show ?thesis using Some by (cases "phase_of r")
          (simp_all add: abs_queue_def store_get_task_def store_purge_tasks_def Let_def rest slot_of_def)
    next
      case True
      then have "terminal (t_state r)" using purge_idsD [OF assms r(1)] r(2) by (simp add: purgeable_def)
      then have "phase_of r = Ended (t_state r)" by (auto simp: phase_of_def terminal_def)
      then show ?thesis using Some True ran
        by (simp add: abs_queue_def store_get_task_def store_purge_tasks_def Let_def rest slot_of_def)
    qed
  qed
  then show ?thesis by (simp add: spec_op_def)
qed

text \<open>A statement that fails, or changes nothing, is allowed by every request but the unconditional ones.\<close>

lemma spec_op_idle: "req \<in> {Grant f, GiveBack, Expire, Revive i, Forget, Nothing} \<Longrightarrow> spec_op req A A"
proof -
  have "spec_slot req j a a" if "req \<in> {Grant f, GiveBack, Expire, Revive i, Forget, Nothing}" for j a
    using that by (cases a; cases "case a of Task n p \<Rightarrow> p | _ \<Rightarrow> Waiting") auto
  then show "req \<in> {Grant f, GiveBack, Expire, Revive i, Forget, Nothing} \<Longrightarrow> spec_op req A A"
    by (auto simp: spec_op_def)
qed

lemma op_run:
  assumes "db_inv d" "stmt_ok s"
  shows "spec_op (request_of env s) (abs_queue d) (abs_queue (run_stmt env s d))"
proof (cases s)
  case (SEnqueue nt)
  then show ?thesis using op_enqueue [OF assms(1)] by (auto simp: spec_op_same split: sum.split)
next
  case (SClaim lk clk types w l dl n)
  then show ?thesis
    using claim_ref.op_with_events [OF assms(1)] by (simp add: store_claim_def Let_def case_prod_beta spec_op_idle)
next
  case (SComplete cs)
  have "complete_stmt env [] d = (d, [])"
    by (simp add: complete_stmt_def with_events_none complete_guard_def outcome_for_def)
  then show ?thesis
    using SComplete complete_ref.op_with_events [OF assms(1), of cs env env "\<lambda>_. True"]
    by (auto simp: ok_db_def store_complete_def complete_stmt_def Let_def case_prod_beta spec_op_same)
next
  case (SOrphans w live)
  then show ?thesis
    using orphan_ref.op_with_events [OF assms(1)]
    by (simp add: store_release_orphans_def complete_stmt_def Let_def case_prod_beta)
next
  case (SHeartbeat rs l)
  then show ?thesis
    using heartbeat_ref.op_with_events [OF assms(1), where p = "\<lambda>_. False" and env = env]
    by (auto simp: ok_db_def store_heartbeat_def spec_op_same with_events_silent [of _ _ _ env])
next
  case (SProgress i tok t)
  then show ?thesis
    using progress_ref.op_with_events [OF assms(1), where p = "\<lambda>_. False" and env = env]
    by (simp add: store_set_progress_def with_events_silent [of _ _ _ env])
next
  case (SCancel i)
  then show ?thesis
    using cancel_ref.op_with_events [OF assms(1)] by (simp add: store_request_cancel_def Let_def case_prod_beta)
next
  case (SReap n busy)
  then show ?thesis
    using reap_ref.op_with_events [OF assms(1)]
    by (simp add: store_reap_def Let_def case_prod_beta reap_stmt_eq [OF db_inv_ids [OF assms(1)]])
next
  case (SRequeue i)
  have "run_stmt env s d = d \<or> run_stmt env s d = fst (with_events env (requeue_guard i) (requeue_upd env) (\<lambda>_. True) d)"
    using SRequeue by (auto simp: ok_db_def store_requeue_def Let_def case_prod_beta split: list.splits option.splits)
  then show ?thesis using SRequeue requeue_ref.op_with_events [OF assms(1)] spec_op_idle by fastforce
next
  case (SPurgeTasks ret n busy)
  then show ?thesis using op_purge [OF assms(1)] by simp
next
  case (SPurgeEvents scan ret n busy)
  then have "abs_queue (run_stmt env s d) = abs_queue d"
    by (intro abs_queue_frame) (simp_all add: store_purge_events_def Let_def)
  then show ?thesis using SPurgeEvents by (simp add: spec_op_same)
next
  case (SPublish jcast fp sp)
  then have "abs_queue (run_stmt env s d) = abs_queue d"
    by (intro abs_queue_frame)
      (auto simp: ok_db_def store_publish_task_type_def bind_result_Inr_iff split: sum.split option.splits)
  then show ?thesis using SPublish by (simp add: spec_op_same)
next
  case (SPause name q)
  then have "abs_queue (run_stmt env s d) = abs_queue d"
    by (intro abs_queue_frame) (auto simp: ok_only_def store_set_paused_def bind_result_Inr_iff split: sum.split if_splits)
  then show ?thesis using SPause by (simp add: spec_op_same)
next
  case (SRegister name sts tys b)
  then have "abs_queue (run_stmt env s d) = abs_queue d"
    by (intro abs_queue_frame) (simp_all add: store_register_subscription_def Let_def split: option.split)
  then show ?thesis using SRegister by (simp add: spec_op_same)
next
  case (SBackfill name g n)
  then have "abs_queue (run_stmt env s d) = abs_queue d"
    by (intro abs_queue_frame) (auto simp: store_backfill_chunk_def Let_def split: option.split prod.split)
  then show ?thesis using SBackfill by (simp add: spec_op_same)
next
  case (SUnsubscribe name)
  then have "abs_queue (run_stmt env s d) = abs_queue d"
    by (intro abs_queue_frame) (auto simp: ok_only_def store_unsubscribe_def bind_result_Inr_iff split: sum.split)
  then show ?thesis using SUnsubscribe by (simp add: spec_op_same)
next
  case (SAck f)
  then have "abs_queue (run_stmt env s d) = abs_queue d"
    by (intro abs_queue_frame) (auto simp: ok_db_def feed_ack_def split: option.split sum.split)
  then show ?thesis using SAck by (simp add: spec_op_same)
qed

section \<open>Sequences of statements\<close>

text \<open>
  Forward simulation: an invariant, the abstraction, and the request each concrete step performs.
\<close>

locale forward_simulation =
  fixes run :: "'l \<Rightarrow> 's \<Rightarrow> 's" and ok :: "'l \<Rightarrow> bool" and inv :: "'s \<Rightarrow> bool"
    and abs_state :: "'s \<Rightarrow> squeue" and req :: "'l \<Rightarrow> queue_request"
  assumes simulates: "inv s \<Longrightarrow> ok l \<Longrightarrow> spec_op (req l) (abs_state s) (abs_state (run l s))"
    and keeps: "inv s \<Longrightarrow> ok l \<Longrightarrow> inv (run l s)"
begin

lemma trace_refines:
  "inv s \<Longrightarrow> \<forall>l \<in> set ls. ok l \<Longrightarrow> spec_run (map req ls) (abs_state s) (abs_state (fold run ls s))"
proof (induction ls arbitrary: s)
  case (Cons l ls)
  then show ?case using simulates [of s l] keeps [of s l] by (auto intro: spec_run.one)
qed (simp add: spec_run.none)

lemma slots_later:
  "inv s \<Longrightarrow> \<forall>l \<in> set ls. ok l \<Longrightarrow> later (abs_state s i) (abs_state (fold run ls s) i)"
  by (rule spec_run_later [OF trace_refines])

end

text \<open>One transaction after the other, each with what the server supplies to it.\<close>

definition run_one :: "pg \<times> statement \<Rightarrow> db \<Rightarrow> db" where
  "run_one l d = run_stmt (fst l) (snd l) d"

lemma run_all_fold: "run_all ls d = fold run_one ls d"
  by (induction ls d rule: run_all.induct) (simp_all add: run_one_def)

interpretation store_sim: forward_simulation run_one "\<lambda>l. stmt_ok (snd l)" db_inv abs_queue
    "\<lambda>l. request_of (fst l) (snd l)"
  by unfold_locales (simp_all add: run_one_def op_run db_inv_run)

text \<open>One attempt of a task runs under one token, whatever happens in between.\<close>

lemma attempt_one_token:
  assumes "db_inv d" "\<forall>l \<in> set ls. stmt_ok (snd l)" "store_get_task d i = Some r" "store_get_task (run_all ls d) i = Some x"
    "t_state r = Running" "t_state x = Running" "t_attempt x = t_attempt r"
  shows "t_token x = t_token r \<and> (t_cancel_at r \<noteq> None \<longrightarrow> t_cancel_at x \<noteq> None)"
proof -
  have inv: "db_inv (fold run_one ls d)" using assms(1,2)
    by (induction ls arbitrary: d) (auto simp: store_sim.keeps)
  have "t_token r \<noteq> None" "t_token x \<noteq> None"
    using assms(3-6) db_inv_row [OF assms(1), of r] db_inv_row [OF inv, of x]
    by (auto simp: store_get_task_def run_all_fold row_inv_def dest: find_row_SomeD)
  then show ?thesis
    using store_sim.slots_later [OF assms(1,2), of i] assms(3-7)
    by (auto simp: abs_queue_def slot_simps run_all_fold)
qed

end
