(* ===== verification/Upkeep.thy ===== *)
theory Upkeep
  imports Runtime Dispatch WorkerLife Sandboxes
begin

text \<open>
  The worker around its attempts: the hints each transition sends, a pass of the reaper and of the
  purger, the listener, the probe of a sandbox and the checks at the start, and the life of a worker
  from its pools to its exit status with the clean-up on every way out (\<open>worker.py\<close>; \<open>probe\<close> of
  \<open>sandbox.py\<close>).
\<close>

section \<open>Hints after a transition\<close>

text \<open>What the reaper and the release of orphans send for the rows \<open>(type, state)\<close> they changed.\<close>

definition transition_hints :: "(ustr \<times> task_state) list \<Rightarrow> hint_event list" where
  "transition_hints changed = (if changed = [] then [] else
     [HFeed (map (\<lambda>(_, s). state_value s) changed), HWake (map fst (filter (\<lambda>(_, s). s = Queued) changed))])"

text \<open>\<open>_write_completions\<close>: the type of a task comes from its attempt, if there still is one.\<close>

definition completion_hints :: "(int \<Rightarrow> ustr option) \<Rightarrow> (int \<times> task_state) list \<Rightarrow> hint_event list" where
  "completion_hints type_of applied = (if applied = [] then [] else
     [HFeed (map (\<lambda>(_, s). state_value s) applied),
      HWake (List.map_filter (\<lambda>(i, s). if s = Queued then type_of i else None) applied)])"

text \<open>\<open>_release_unstarted\<close>: the types of the claimed rows that went back to the queue.\<close>

definition unstarted_hints :: "task_row list \<Rightarrow> (int \<times> task_state) list \<Rightarrow> hint_event list" where
  "unstarted_hints rows applied = (if applied = [] then [] else
     [HFeed (map (\<lambda>(_, s). state_value s) applied),
      HWake (map t_type (filter (\<lambda>r. map_of applied (t_id r) = Some Queued) rows))])"

text \<open>\<open>_claim_batch_and_dispatch\<close>.\<close>

definition claim_hints :: "task_row list \<Rightarrow> hint_event list" where
  "claim_hints rows = (if rows = [] then [] else [HFeed [lit ''running'']])"

section \<open>Passes of the background loops\<close>

text \<open>
  \<open>_scavenge\<close>: an \<open>OSError\<close> is only logged. The result is what was killed, or the error that ends
  the loop.
\<close>

definition scavenge :: "exn + (nat \<times> ustr) list \<Rightarrow> exn + (nat \<times> ustr) list" where
  "scavenge found = (case found of
     Inr killed \<Rightarrow> Inr killed
   | Inl e \<Rightarrow> if e = OSError \<or> e = ProcessLookupError then Inr [] else Inl e)"

text \<open>
  One pass of \<open>_reaper\<close>: a database error ends it, whether or not the statement was committed;
  \<open>found\<close> is what the scavenger finds if the pass gets there.
\<close>

definition reaper_pass :: "pg \<Rightarrow> (int \<Rightarrow> bool) \<Rightarrow> claim_reply \<Rightarrow> bool \<Rightarrow> exn + (nat \<times> ustr) list \<Rightarrow> db
     \<Rightarrow> db \<times> hint_event list \<times> (exn + (nat \<times> ustr) list)" where
  "reaper_pass env busy reply has_processes found d =
     (case store_reap env 100 busy d of (d', reaped) \<Rightarrow> (case reply of
        ClaimAnswered \<Rightarrow> (d', transition_hints (map snd reaped), if has_processes then scavenge found else Inr [])
      | ClaimLost committed \<Rightarrow> (if committed then d' else d, [], Inr [])
      | ClaimLate \<Rightarrow> (d', [], Inr [])
      | ClaimRejected \<Rightarrow> (d, [], Inr [])))"

text \<open>One pass of \<open>_purger\<close> whose statements are all answered: tasks, then events.\<close>

definition purger_pass :: "nat \<Rightarrow> (nat \<Rightarrow> pg) \<Rightarrow> (nat \<Rightarrow> pg) \<Rightarrow> (event_row list \<Rightarrow> event_row list) \<Rightarrow> settings
     \<Rightarrow> (nat \<Rightarrow> int \<Rightarrow> bool) \<Rightarrow> (nat \<Rightarrow> int \<Rightarrow> bool) \<Rightarrow> db \<Rightarrow> (db \<times> int \<times> (ustr \<times> int) list) option" where
  "purger_pass fuel env env' scan s busy busy' d =
     (case purge_loop fuel env (retention_s s) (nat (purge_batch s)) busy 0 0 d of
        None \<Rightarrow> None
      | Some (d1, deleted) \<Rightarrow> map_option (\<lambda>(d2, expired). (d2, deleted, expired))
          (expire_loop fuel env' scan (retention_s s) (nat (purge_batch s)) busy' 0 d1))"

text \<open>
  \<open>_listen\<close>: notices while connected; a lost connection is opened again, and what was sent meanwhile
  never arrives. The state is the wake event, the renewal event and the attempts.
\<close>

datatype listen_event = Notice ustr ustr | ListenerLost

fun listen :: "(ustr \<Rightarrow> exn + int) \<Rightarrow> ustr list \<Rightarrow> listen_event list \<Rightarrow> bool \<times> bool \<times> attempt list
     \<Rightarrow> bool \<times> bool \<times> attempt list" where
  "listen si types [] st = st"
| "listen si types (ListenerLost # es) st = listen si types es st"
| "listen si types (Notice channel payload # es) (wake, renew, atts) =
     (case on_notify si types channel payload atts of (w, r, atts') \<Rightarrow>
        listen si types es (wake \<or> w, renew \<or> r, atts'))"

section \<open>The start\<close>

definition PROBE_OUTPUT :: "nat list" where
  "PROBE_OUTPUT = lit ''FRONTA_SANDBOX_OK'' @ [10]"

text \<open>\<open>probe\<close>: launch, run within the time limit, and compare; \<open>answer\<close> is what the run gives.\<close>

definition probe :: "os \<Rightarrow> nat \<Rightarrow> (nat list \<Rightarrow> exn + json) \<Rightarrow> (ustr \<Rightarrow> exn + int) \<Rightarrow> ustr \<Rightarrow> int \<Rightarrow> launch
     \<Rightarrow> exn + process_result \<Rightarrow> exn + unit" where
  "probe w t loads si hex pid la answer =
     (case bind_result (fst (spawn w t loads si (lit ''probe-'' @ hex) pid la)) (\<lambda>_. answer) of
        Inl e \<Rightarrow> Inl (if e = SandboxError \<or> e = TimeoutError then SandboxError else e)
      | Inr r \<Rightarrow> if exit_code r \<noteq> 0 then Inl SandboxError
          else bind_result (utf8_encode (p_stdout r)) (\<lambda>bytes.
            if bytes \<noteq> PROBE_OUTPUT then Inl SandboxError else Inr ()))"

fun run_probes :: "(sandbox \<Rightarrow> exn + unit) \<Rightarrow> sandbox list \<Rightarrow> exn + unit" where
  "run_probes prb [] = Inr ()"
| "run_probes prb (s # ss) = bind_result (prb s) (\<lambda>_. run_probes prb ss)"

text \<open>
  \<open>_start_checks\<close>: \<open>conn\<close> is how getting a connection within the time limit ends, \<open>prb\<close> the probe
  of a sandbox, \<open>found\<close> what the scavenger finds.
\<close>

definition start_checks :: "exn + unit \<Rightarrow> (ustr \<Rightarrow> exn + int) \<Rightarrow> pg \<Rightarrow> (json \<Rightarrow> json) \<Rightarrow> (task_type_spec \<Rightarrow> ustr)
     \<Rightarrow> task_type_spec list \<Rightarrow> sandbox list \<Rightarrow> (sandbox \<Rightarrow> exn + unit) \<Rightarrow> exn + (nat \<times> ustr) list \<Rightarrow> db
     \<Rightarrow> db \<times> (exn + unit)" where
  "start_checks conn si env jcast fp specs sandboxes prb found d = (case conn of
     Inl e \<Rightarrow> (d, Inl e)
   | Inr _ \<Rightarrow> (case start_publish si env jcast fp specs d of
       (d', Some e) \<Rightarrow> (d', Inl e)
     | (d', None) \<Rightarrow> (d', bind_result (run_probes prb (probe_plan [] sandboxes)) (\<lambda>_.
          if probe_plan [] sandboxes = [] then Inr () else map_sum id (\<lambda>_. ()) (scavenge found)))))"

section \<open>The life of a worker\<close>

text \<open>
  \<open>_finish_cleanup\<close>: the clean-up runs to its end whatever cancellations arrive; its error wins over
  them.
\<close>

definition finish_cleanup :: "bool \<Rightarrow> exn + unit \<Rightarrow> exn + unit" where
  "finish_cleanup cancelled done = (case done of
     Inl e \<Rightarrow> Inl e
   | Inr _ \<Rightarrow> if cancelled then Inl CancelledError else Inr ())"

datatype life_act =
    PoolOpened nat
  | StartChecked
  | LifespanEntered
  | LoopsStarted
  | AttemptsDrained
  | AttemptsCut "int list"
  | LoopsCancelled
  | LifespanLeft
  | CompletionsClosed
  | HintsClosed bool
  | PoolClosed nat

text \<open>
  \<open>_abandon_leftovers\<close>: the attempts whose tasks are not done, which it cancels and waits for.
\<close>

definition abandon_leftovers :: "(int \<times> bool) list \<Rightarrow> int list" where
  "abandon_leftovers atts = map fst (filter (\<lambda>(_, over). \<not> over) atts)"

text \<open>
  How the parts of \<open>_serve\<close> end: the claim loop, the drain after it, the drain after a failure, the
  attempts that are left with whether their tasks are done, and whether a cancellation arrives
  during the clean-up.
\<close>

record serving =
  se_claims :: "exn + unit"
  se_drain :: "exn + unit"
  se_redrain :: "exn + unit"
  se_left :: "(int \<times> bool) list"
  se_cancelled :: bool

definition stop_loops :: "(int \<times> bool) list \<Rightarrow> life_act list" where
  "stop_loops left = (if abandon_leftovers left = [] then [] else [AttemptsCut (abandon_leftovers left)]) @ [LoopsCancelled]"

definition serve_worker :: "serving \<Rightarrow> life_act list \<times> (exn + unit)" where
  "serve_worker v =
     (let (tried, r) = (case se_claims v of
            Inl e \<Rightarrow> ([], Inl e)
          | Inr _ \<Rightarrow> ([AttemptsDrained], se_drain v));
          (again, r') = (case r of
            Inr _ \<Rightarrow> ([], Inr ())
          | Inl e \<Rightarrow> ([AttemptsDrained], bind_result (se_redrain v) (\<lambda>_. Inl e)));
          done = finish_cleanup (se_cancelled v) (Inr ())
      in (LoopsStarted # tried @ again @ stop_loops (se_left v), bind_result done (\<lambda>_. r')))"

text \<open>
  \<open>_close\<close>: each step may raise, which skips the rest; a fatal attempt ends the process itself
  (\<open>os._exit\<close>), which is the left result.
\<close>

record closing =
  cl_hints :: "exn + unit"
  cl_renewal :: "exn + unit"
  cl_pool :: "exn + unit"

definition close_worker :: "control \<Rightarrow> closing \<Rightarrow> life_act list \<times> (exn + int option)" where
  "close_worker c v =
     (let begun = [CompletionsClosed, HintsClosed (wc_immediate c)]
      in case cl_hints v of
           Inl e \<Rightarrow> (begun, Inl e)
         | Inr _ \<Rightarrow> (case cl_renewal v of
             Inl e \<Rightarrow> (begun @ [PoolClosed 1], Inl e)
           | Inr _ \<Rightarrow> (begun @ [PoolClosed 1, PoolClosed 0],
               bind_result (cl_pool v) (\<lambda>_. Inr (if wc_exit c = EXIT_FATAL then Some EXIT_FATAL else None)))))"

text \<open>
  \<open>_run\<close>. \<open>lf_left\<close> is what leaving the lifespan makes of the way it is left (a context manager may
  replace or suppress an error); \<open>lf_control\<close> the shutdown state at the end.
\<close>

record life =
  lf_settings :: "exn + settings_object"
  lf_opened :: "nat \<Rightarrow> (exn + unit) \<times> (exn + unit)"
  lf_checks :: "exn + unit"
  lf_entered :: "exn + unit"
  lf_serving :: serving
  lf_left :: "exn + unit \<Rightarrow> exn + unit"
  lf_closing :: closing
  lf_cancelled :: bool
  lf_control :: control

definition worker_body :: "life \<Rightarrow> life_act list \<times> (exn + unit)" where
  "worker_body v =
     (let opened = (\<lambda>k. snd (open_ready (fst (lf_opened v k)) (snd (lf_opened v k))))
      in case opened 0 of
           Inl e \<Rightarrow> ([], Inl e)
         | Inr _ \<Rightarrow> (case opened 1 of
             Inl e \<Rightarrow> ([PoolOpened 0], Inl e)
           | Inr _ \<Rightarrow> (case lf_checks v of
               Inl e \<Rightarrow> ([PoolOpened 0, PoolOpened 1], Inl e)
             | Inr _ \<Rightarrow> (case lf_entered v of
                 Inl e \<Rightarrow> ([PoolOpened 0, PoolOpened 1, StartChecked], Inl e)
               | Inr _ \<Rightarrow> (case serve_worker (lf_serving v) of (acts, r) \<Rightarrow>
                   ([PoolOpened 0, PoolOpened 1, StartChecked, LifespanEntered] @ acts @ [LifespanLeft],
                    lf_left v r))))))"

text \<open>How the process of a worker ends: with a status, or with an exception that leaves \<open>run()\<close>.\<close>

datatype worker_end = Exits int | Raises exn

definition run_worker :: "life \<Rightarrow> life_act list \<times> worker_end" where
  "run_worker v = (case bind_result (lf_settings v) (\<lambda>s. make_pool s None None) of
     Inl e \<Rightarrow> ([], Raises e)
   | Inr _ \<Rightarrow> (case worker_body v of (acts, r) \<Rightarrow>
       (case close_worker (lf_control v) (lf_closing v) of (shut, done) \<Rightarrow>
         (acts @ shut, case done of
            Inr (Some status) \<Rightarrow> Exits status
          | Inl e \<Rightarrow> Raises e
          | Inr None \<Rightarrow> (case bind_result (finish_cleanup (lf_cancelled v) (Inr ())) (\<lambda>_. r) of
              Inl e \<Rightarrow> Raises e
            | Inr _ \<Rightarrow> Exits (wc_exit (lf_control v)))))))"

section \<open>Facts\<close>

subsection \<open>Passes and hints\<close>

lemma reaper_pass_stmt:
  "fst (reaper_pass env busy reply p found d) \<in> {d, run_stmt env (SReap 100 busy) d}"
  by (auto simp: reaper_pass_def split: prod.split claim_reply.split)

text \<open>Whoever waits for a reaped task hears of it: its new state, and its type if it waits again.\<close>

lemma reaped_hinted:
  assumes "(i, ty, st) \<in> set (snd (store_reap env 100 busy d))"
  shows "\<exists>d' states types k. reaper_pass env busy ClaimAnswered p found d = (d', [HFeed states, HWake types], k)
    \<and> state_value st \<in> set states \<and> (st = Queued \<longrightarrow> ty \<in> set types)"
proof -
  obtain d' reaped where reap: "store_reap env 100 busy d = (d', reaped)" by fastforce
  have "(ty, st) \<in> set (map snd reaped)" using assms reap by force
  then have "transition_hints (map snd reaped)
      = [HFeed (map (\<lambda>(_, s). state_value s) (map snd reaped)), HWake (map fst (filter (\<lambda>(_, s). s = Queued) (map snd reaped)))]"
    "state_value st \<in> set (map (\<lambda>(_, s). state_value s) (map snd reaped))"
    "st = Queued \<longrightarrow> ty \<in> set (map fst (filter (\<lambda>(_, s). s = Queued) (map snd reaped)))"
    by (auto simp: transition_hints_def simp del: map_map intro: rev_image_eqI)
  then show ?thesis using reap by (auto simp: reaper_pass_def)
qed

lemma listen_frame:
  assumes "listen si types es (wake, renew, atts) = (wake', renew', atts')"
  shows "map at_cause atts' = map at_cause atts \<and> map at_id atts' = map at_id atts
    \<and> map at_renewed atts' = map at_renewed atts \<and> (wake \<longrightarrow> wake') \<and> (renew \<longrightarrow> renew')"
  using assms
proof (induction si types es "(wake, renew, atts)" arbitrary: wake renew atts rule: listen.induct)
  case (3 si types channel payload es wake renew atts)
  obtain w r a where n: "on_notify si types channel payload atts = (w, r, a)" by (cases "on_notify si types channel payload atts")
  show ?case using "3.hyps" [OF n [symmetric] refl] "3.prems" on_notify_frame [OF n] n by auto
qed simp_all

subsection \<open>Recovery from a crash\<close>

lemma reaped_row:
  assumes "db_inv d" "length (filter (lease_expired (tx_now env)) (tasks d)) \<le> limit" "\<forall>i. \<not> busy i"
    "r \<in> set (tasks d)" "lease_expired (tx_now env) r"
  shows "(t_id r, t_type r, t_state (reap_upd env r)) \<in> set (snd (store_reap env limit busy d))"
proof -
  have "length (filter (\<lambda>r. lease_expired (tx_now env) r \<and> \<not> busy (t_id r)) (tasks d)) \<le> limit"
    using assms(2,3) by simp
  then have "reap_guard (expired_ids env limit busy (tasks d)) r"
    using assms(3-5) by (simp add: reap_guard_def expired_ids_def order_limit_def)
  then have "reap_upd env r \<in> set (returning (reap_guard (expired_ids env limit busy (tasks d))) (reap_upd env) (tasks d))"
    using assms(4) by (simp add: set_returning)
  then have "(t_id (reap_upd env r), t_type (reap_upd env r), t_state (reap_upd env r)) \<in> set (snd (store_reap env limit busy d))"
    unfolding store_reap_def Let_def case_prod_beta snd_conv with_events_frame by (simp add: rev_image_eqI)
  then show ?thesis by (simp add: reap_upd_def)
qed

text \<open>The token of a reaped row is nobody's any more.\<close>

lemma reaped_stale:
  assumes "db_inv d" "length (filter (lease_expired (tx_now env)) (tasks d)) \<le> limit" "\<forall>i. \<not> busy i"
    "r \<in> set (tasks d)" "lease_expired (tx_now env) r"
  shows "stale (t_id r) tok (fst (store_reap env limit busy d))"
proof -
  have ids: "distinct (map t_id (tasks (fst (store_reap env limit busy d))))"
    by (rule db_inv_ids [OF db_inv_reap [OF assms(1)]])
  have upd: "t_id (reap_upd env r) = t_id r" "t_token (reap_upd env r) = None" by (simp_all add: reap_upd_def)
  have "t_token x = None" if "x \<in> set (tasks (fst (store_reap env limit busy d)))" "t_id x = t_id r" for x
    using key_unique [OF ids that(1) reap_takes [OF assms]] that(2) upd by simp
  then show ?thesis by (simp add: stale_def)
qed

lemma crash_recovery:
  assumes inv: "db_inv d" and r: "r \<in> set (tasks d)" "lease_expired (tx_now env) r" "t_cancel_at r = None" "t_failures r + 1 < t_max_attempts r"
    and room: "length (filter (lease_expired (tx_now env)) (tasks d)) \<le> 100" "\<forall>i. \<not> busy i"
    and rnd: "0 \<le> rnd env (t_id r)" "rnd env (t_id r) \<le> 1"
    and pass: "reaper_pass env busy ClaimAnswered p found d = (d1, hs, k)"
  shows "\<exists>x \<in> set (tasks d1). same_task r x \<and> t_state x = Queued \<and> t_attempt x = t_attempt r \<and> t_failures x = t_failures r + 1
    \<and> t_run_at x \<le> tx_now env + b_cap (t_backoff r) \<and> (\<exists>types. HWake types \<in> set hs \<and> t_type r \<in> set types)
    \<and> (\<forall>env' lk clk types w l dl n. unlocked lk \<and> claimable env' d1 types x \<and> n \<ge> 1
         \<longrightarrow> (\<exists>y ys. snd (store_claim env' lk clk types w l dl n d1) = y # ys \<and> claim_key y \<le> claim_key x))
    \<and> (\<forall>env' c. c_id c = t_id r \<longrightarrow> t_token r = Some (c_token c) \<longrightarrow> complete_stmt env' [c] d1 = (d1, []))"
proof -
  let ?x = "reap_upd env r"
  have d1: "d1 = fst (store_reap env 100 busy d)" using pass by (auto simp: reaper_pass_def split: prod.splits)
  have x: "?x \<in> set (tasks d1)" unfolding d1 by (rule reap_takes [OF inv room r(1,2)])
  have queued: "t_state ?x = Queued" using reap_outcome(1) [OF inv r(1,2)] r(3,4) by simp
  have "t_run_at ?x = backoff_until env r" using r(3,4) by (simp add: reap_upd_def)
  then have run: "t_run_at ?x \<le> tx_now env + b_cap (t_backoff r)"
    using backoff_until_bounds(2) [OF row_invD(9) [OF db_inv_row [OF inv r(1)]] rnd] by simp
  have hint: "\<exists>types. HWake types \<in> set hs \<and> t_type r \<in> set types"
    using reaped_hinted [OF reaped_row [OF inv room r(1,2)], of p found] pass queued by auto
  have head: "\<exists>y ys. snd (store_claim env' lk clk types w l dl n d1) = y # ys \<and> claim_key y \<le> claim_key ?x"
    if "unlocked lk" "claimable env' d1 types ?x" "n \<ge> 1" for env' lk clk types w l dl n
    using claim_takes_head [OF _ that] db_inv_reap [OF inv] d1 by blast
  have late: "complete_stmt env' [c] d1 = (d1, [])" if "c_id c = t_id r" "t_token r = Some (c_token c)" for env' c
    using complete_other_rows [of "[c]" d1 env'] reaped_stale [OF inv room r(1,2), of "c_token c"] that by (simp add: d1)
  show ?thesis
    by (intro bexI [OF _ x] conjI allI impI; (elim conjE)?)
      (use queued run hint head late r(3) in \<open>simp_all add: reap_upd_def same_task_def\<close>)
qed

subsection \<open>The start\<close>

lemma probe_ok_iff:
  "probe w t loads si hex pid la answer = Inr () \<longleftrightarrow>
     (\<exists>s r. fst (spawn w t loads si (lit ''probe-'' @ hex) pid la) = Inr s \<and> answer = Inr r
        \<and> exit_code r = 0 \<and> utf8_encode (p_stdout r) = Inr PROBE_OUTPUT)"
  by (cases "fst (spawn w t loads si (lit ''probe-'' @ hex) pid la)"; cases answer)
    (auto simp: probe_def bind_result_Inr_iff)

lemma run_probes_Inr_iff: "run_probes prb ss = Inr () \<longleftrightarrow> (\<forall>s \<in> set ss. prb s = Inr ())"
  by (induction ss) (auto simp: bind_result_Inr_iff)

lemma probe_plan_sub: "set (probe_plan probed ss) \<subseteq> set ss"
  by (induction probed ss rule: probe_plan.induct) auto

text \<open>A worker starts only if each kind of sandbox it needs has passed its probe.\<close>

lemma start_checks_Inr:
  assumes "start_checks conn si env jcast fp specs sandboxes prb found d = (d', Inr ())"
  shows "start_publish si env jcast fp specs d = (d', None)
    \<and> (\<forall>s \<in> set sandboxes. \<exists>x \<in> set sandboxes. sandbox_identity x = sandbox_identity s \<and> prb x = Inr ())"
proof -
  have pub: "start_publish si env jcast fp specs d = (d', None)" and probes: "run_probes prb (probe_plan [] sandboxes) = Inr ()"
    using assms by (auto simp: start_checks_def bind_result_Inr_iff split: sum.splits prod.splits option.splits)
  have plan: "set (probe_plan [] sandboxes) \<subseteq> set sandboxes"
    "sandbox_identity ` set (probe_plan [] sandboxes) = sandbox_identity ` set sandboxes"
    using probe_plan_covers [of "[]" sandboxes] probe_plan_sub by auto
  have "\<exists>x \<in> set sandboxes. sandbox_identity x = sandbox_identity s \<and> prb x = Inr ()" if "s \<in> set sandboxes" for s
  proof -
    have "sandbox_identity s \<in> sandbox_identity ` set (probe_plan [] sandboxes)" using plan(2) that by blast
    then show ?thesis using plan(1) probes [unfolded run_probes_Inr_iff] by (metis imageE subsetD)
  qed
  with pub show ?thesis by blast
qed

subsection \<open>The end\<close>

lemma serve_worker_acts:
  "\<exists>drains. fst (serve_worker v) = LoopsStarted # drains @ stop_loops (se_left v) \<and> set drains \<subseteq> {AttemptsDrained}"
  by (auto simp: serve_worker_def Let_def split: sum.split prod.split)

lemma worker_body_acts:
  "set (fst (worker_body v)) \<inter> {LoopsStarted, LoopsCancelled, AttemptsDrained, LifespanLeft} = {}
   \<or> (\<exists>pre drains. fst (worker_body v) = pre @ LoopsStarted # drains @ stop_loops (se_left (lf_serving v)) @ [LifespanLeft]
        \<and> set drains \<subseteq> {AttemptsDrained} \<and> PoolOpened 0 \<in> set pre \<and> PoolOpened 1 \<in> set pre)"
proof -
  obtain acts r where acts: "serve_worker (lf_serving v) = (acts, r)" by fastforce
  obtain drains where drains: "acts = LoopsStarted # drains @ stop_loops (se_left (lf_serving v))" "set drains \<subseteq> {AttemptsDrained}"
    using serve_worker_acts [of "lf_serving v"] acts by auto
  have "fst (worker_body v) = [PoolOpened 0, PoolOpened 1, StartChecked, LifespanEntered] @ acts @ [LifespanLeft]
      \<or> set (fst (worker_body v)) \<inter> {LoopsStarted, LoopsCancelled, AttemptsDrained, LifespanLeft} = {}"
    by (auto simp: worker_body_def Let_def acts split: sum.split)
  then show ?thesis
  proof
    assume "fst (worker_body v) = [PoolOpened 0, PoolOpened 1, StartChecked, LifespanEntered] @ acts @ [LifespanLeft]"
    with drains show ?thesis
      by (intro disjI2 exI [of _ "[PoolOpened 0, PoolOpened 1, StartChecked, LifespanEntered]"] exI [of _ drains]) simp
  qed (rule disjI1)
qed

definition closes :: "closing \<Rightarrow> bool" where
  "closes v \<longleftrightarrow> cl_hints v = Inr () \<and> cl_renewal v = Inr () \<and> cl_pool v = Inr ()"

lemma close_worker_all:
  "closes v \<Longrightarrow> close_worker c v = ([CompletionsClosed, HintsClosed (wc_immediate c), PoolClosed 1, PoolClosed 0],
     Inr (if wc_exit c = EXIT_FATAL then Some EXIT_FATAL else None))"
  by (simp add: close_worker_def closes_def Let_def)

text \<open>
  Whichever way the worker leaves: the loops end and the attempts that are left are cut before the
  lifespan is left, and only then are completions, hints and pools closed.
\<close>

lemma run_worker_order:
  assumes "bind_result (lf_settings v) (\<lambda>s. make_pool s None None) = Inr args" "closes (lf_closing v)"
  shows "\<exists>body. fst (run_worker v) = body @ [CompletionsClosed, HintsClosed (wc_immediate (lf_control v)), PoolClosed 1, PoolClosed 0]
    \<and> (LoopsStarted \<in> set body \<longrightarrow> (\<exists>pre drains. body = pre @ LoopsStarted # drains @ stop_loops (se_left (lf_serving v)) @ [LifespanLeft]
        \<and> set drains \<subseteq> {AttemptsDrained}))"
proof -
  obtain acts r where body: "worker_body v = (acts, r)" by fastforce
  have "fst (run_worker v) = acts @ [CompletionsClosed, HintsClosed (wc_immediate (lf_control v)), PoolClosed 1, PoolClosed 0]"
    using assms body close_worker_all [OF assms(2), of "lf_control v"] by (simp add: run_worker_def)
  moreover have "LoopsStarted \<in> set acts \<longrightarrow> (\<exists>pre drains. acts = pre @ LoopsStarted # drains @ stop_loops (se_left (lf_serving v)) @ [LifespanLeft]
      \<and> set drains \<subseteq> {AttemptsDrained})"
    using worker_body_acts [of v] body by fastforce
  ultimately show ?thesis by blast
qed

lemma run_worker_status:
  assumes "snd (run_worker v) = Exits n"
  shows "n = wc_exit (lf_control v)"
proof -
  have "close_worker c w = (as, Inr (Some k)) \<Longrightarrow> k = wc_exit c" for c w as k
    by (auto simp: close_worker_def Let_def bind_result_Inr_iff split: sum.splits if_splits)
  then show ?thesis using assms
    by (auto simp: run_worker_def split: sum.splits prod.splits option.splits)
qed

text \<open>A fatal attempt decides the status even if \<open>run()\<close> was cancelled or failed.\<close>

lemma run_worker_fatal:
  assumes "bind_result (lf_settings v) (\<lambda>s. make_pool s None None) = Inr args" "closes (lf_closing v)"
    "wc_exit (lf_control v) = EXIT_FATAL"
  shows "snd (run_worker v) = Exits EXIT_FATAL"
  using assms close_worker_all [OF assms(2), of "lf_control v"] by (simp add: run_worker_def split: prod.split)

end
