(* ===== verification/Commands.thy ===== *)
theory Commands
  imports Upkeep Http
begin

text \<open>
  The command line (\<open>cli.py\<close>) with what it starts: the schema command, the worker with its exit
  status, and the server with its preflight (\<open>serve\<close>, \<open>create_app\<close>) and the start and stop of its
  service (\<open>server/service.py\<close>). What importing a module, reading the environment or connecting gives
  is an argument.
\<close>

section \<open>How a command ends\<close>

text \<open>
  An exit status (0, or 1 for a \<open>ClickException\<close>, 2 for a bad parameter, or the worker's), or an
  exception that escapes.
\<close>

datatype cli_end = Status int | Uncaught exn

definition is_psycopg_error :: "exn \<Rightarrow> bool" where
  "is_psycopg_error e \<longleftrightarrow> e \<in> {UniqueViolation, OperationalError, PsycopgError}"

text \<open>The handlers of a command: the exceptions \<open>caught\<close> become status 1.\<close>

definition click_end :: "(exn \<Rightarrow> bool) \<Rightarrow> exn + 'a \<Rightarrow> cli_end" where
  "click_end caught m = (case m of Inr _ \<Rightarrow> Status 0 | Inl e \<Rightarrow> if caught e then Status 1 else Uncaught e)"

section \<open>Loading the worker\<close>

definition partition_colon :: "ustr \<Rightarrow> ustr \<times> bool \<times> ustr" where
  "partition_colon s = (let m = takeWhile (\<lambda>c. c \<noteq> 58) s; rest = dropWhile (\<lambda>c. c \<noteq> 58) s
     in (m, rest \<noteq> [], tl rest))"

text \<open>
  \<open>load_object\<close>: \<open>modules\<close> imports a name under a search path and gives its attributes; \<open>expected\<close> is
  the type test. The search path keeps the current directory.
\<close>

definition load_object :: "(ustr list \<Rightarrow> ustr \<Rightarrow> exn + (ustr \<Rightarrow> exn + 'o)) \<Rightarrow> ('o \<Rightarrow> bool) \<Rightarrow> ustr \<Rightarrow> ustr list
     \<Rightarrow> ustr \<Rightarrow> ustr list \<times> (cli_end + 'o)" where
  "load_object modules expected cwd path target =
     (case partition_colon target of (m, sep, attr) \<Rightarrow>
        if \<not> sep \<or> m = [] \<or> attr = [] then (path, Inl (Status 2))
        else let path' = (if cwd \<in> set path then path else cwd # path)
             in (path', case modules path' m of
                  Inl e \<Rightarrow> Inl (if e = ImportError then Status 2 else Uncaught e)
                | Inr attrs \<Rightarrow> (case attrs attr of
                    Inl e \<Rightarrow> Inl (if e = AttributeError then Status 2 else Uncaught e)
                  | Inr obj \<Rightarrow> if expected obj then Inr obj else Inl (Status 2))))"

section \<open>The commands\<close>

text \<open>\<open>db init\<close>: \<open>made\<close> is the settings, \<open>conn\<close> the connection; the functions are those installed.\<close>

definition db_init :: "exn + settings \<Rightarrow> exn + unit \<Rightarrow> (ustr \<Rightarrow> exn + int) \<Rightarrow> (int \<Rightarrow> ustr) \<Rightarrow> bool \<Rightarrow> db \<times> ustr list
     \<Rightarrow> (db \<times> ustr list) \<times> cli_end" where
  "db_init made conn si str_int prune dbf =
     (case bind_result made (\<lambda>_. bind_result conn (\<lambda>_. store_init_schema si str_int (fst dbf))) of
        Inr d' \<Rightarrow> ((d', if prune then prune_functions (snd dbf) else snd dbf), Status 0)
      | Inl e \<Rightarrow> (dbf, if e = ValidationError \<or> is_psycopg_error e then Status 1 else Uncaught e))"

text \<open>\<open>worker\<close>: \<open>loaded\<close> is what \<open>load_object\<close> gives; the settings of the instance are read next.\<close>

definition worker_command :: "cli_end + 'o \<Rightarrow> life \<Rightarrow> cli_end" where
  "worker_command loaded v = (case loaded of
     Inl e \<Rightarrow> e
   | Inr _ \<Rightarrow> (case lf_settings v of
       Inl e \<Rightarrow> if e = ValidationError then Status 1 else Uncaught e
     | Inr _ \<Rightarrow> (case snd (run_worker v) of
         Exits n \<Rightarrow> Status n
       | Raises e \<Rightarrow> if e = OperationalError \<or> e = ConfigurationError then Status 1 else Uncaught e)))"

definition SERVER_EXTRA_MODULES :: "ustr list" where
  "SERVER_EXTRA_MODULES = map lit [''fastapi'', ''starlette'', ''uvicorn'', ''mcp'']"

text \<open>
  \<open>server\<close>: a module of the optional dependencies that is missing (\<open>missing\<close>, the name in the error) is
  explained; then the settings, with \<open>--host\<close> and \<open>--port\<close> validated again; then \<open>serve\<close>.
\<close>

definition server_settings :: "exn + settings_object \<Rightarrow> (ustr option \<Rightarrow> int option \<Rightarrow> exn + settings_object)
     \<Rightarrow> ustr option \<Rightarrow> int option \<Rightarrow> exn + settings_object" where
  "server_settings made remade host port = bind_result made (\<lambda>s.
     if host = None \<and> port = None then Inr s else remade host port)"

definition server_command :: "ustr option option \<Rightarrow> exn + settings_object \<Rightarrow> (ustr option \<Rightarrow> int option \<Rightarrow> exn + settings_object)
     \<Rightarrow> ustr option \<Rightarrow> int option \<Rightarrow> (settings_object \<Rightarrow> exn + unit) \<Rightarrow> cli_end" where
  "server_command missing made remade host port served = (case missing of
     Some name \<Rightarrow> if hd (split_on 46 (case name of None \<Rightarrow> [] | Some n \<Rightarrow> n)) \<in> set SERVER_EXTRA_MODULES
       then Status 1 else Uncaught ImportError
   | None \<Rightarrow> (case server_settings made remade host port of
       Inl e \<Rightarrow> if e = ValidationError then Status 1 else Uncaught e
     | Inr s \<Rightarrow> click_end (\<lambda>e. e = OperationalError \<or> e = TimeoutError \<or> e = ConfigurationError) (served s)))"

section \<open>The server\<close>

text \<open>\<open>serve\<close>: no application without a token, and a preflight of the schema before the server starts.\<close>

definition serve :: "ustr option \<Rightarrow> exn + unit \<Rightarrow> (ustr \<Rightarrow> exn + int) \<Rightarrow> db \<Rightarrow> exn + unit \<Rightarrow> settings_object \<Rightarrow> exn + unit" where
  "serve token conn si d ran_server so =
     bind_result (create_app_token token) (\<lambda>_.
     bind_result (dsn_of so) (\<lambda>_.
     bind_result conn (\<lambda>_.
     bind_result (store_check_schema si d) (\<lambda>_. ran_server))))"

text \<open>
  \<open>Service.start\<close> and \<open>stop\<close>: whether the service holds an open pool afterwards. \<open>conn\<close> is how getting a
  connection within the time limit ends.
\<close>

definition service_start :: "settings_object \<Rightarrow> (exn + unit) \<times> (exn + unit) \<Rightarrow> exn + unit \<Rightarrow> (ustr \<Rightarrow> exn + int) \<Rightarrow> db
     \<Rightarrow> bool \<times> (exn + unit)" where
  "service_start so opened conn si d =
     (case make_pool so None None of
        Inl e \<Rightarrow> (False, Inl e)
      | Inr _ \<Rightarrow> (case open_ready (fst opened) (snd opened) of
          (_, Inl e) \<Rightarrow> (False, Inl e)
        | (ready, Inr _) \<Rightarrow> (case bind_result conn (\<lambda>_. store_check_schema si d) of
            Inl e \<Rightarrow> (False, Inl e)
          | Inr _ \<Rightarrow> (ready, Inr ()))))"

definition service_stop :: "nat \<Rightarrow> bool \<Rightarrow> registry \<Rightarrow> registry \<times> bool" where
  "service_stop loop ready rg = (if ready then (fst (close_hints loop rg), False) else (rg, False))"

section \<open>Facts\<close>

lemma partition_colon_append: "58 \<notin> set m \<Longrightarrow> partition_colon (m @ 58 # a) = (m, True, a)"
  by (auto simp: partition_colon_def Let_def takeWhile_append dropWhile_append)

text \<open>A worker is loaded only from a name before the first colon and a non-empty attribute behind it.\<close>

lemma load_object_Inr:
  assumes "load_object modules expected cwd path target = (path', Inr obj)"
  shows "\<exists>m a attrs. target = m @ 58 # a \<and> 58 \<notin> set m \<and> m \<noteq> [] \<and> a \<noteq> [] \<and> cwd \<in> set path' \<and> set path \<subseteq> set path'
    \<and> modules path' m = Inr attrs \<and> attrs a = Inr obj \<and> expected obj"
proof -
  obtain m sep a where p: "partition_colon target = (m, sep, a)" by (cases "partition_colon target")
  have ok: "sep" "m \<noteq> []" "a \<noteq> []" "path' = (if cwd \<in> set path then path else cwd # path)"
    using assms p by (auto simp: load_object_def Let_def split: if_splits)
  have "\<exists>attrs. modules path' m = Inr attrs \<and> attrs a = Inr obj \<and> expected obj"
    using assms p ok by (auto simp: load_object_def Let_def split: if_splits sum.splits)
  moreover have "target = m @ 58 # a" "58 \<notin> set m"
  proof -
    have d: "dropWhile (\<lambda>c. c \<noteq> 58) target \<noteq> []" "m = takeWhile (\<lambda>c. c \<noteq> 58) target"
      "a = tl (dropWhile (\<lambda>c. c \<noteq> 58) target)"
      using p ok(1) by (auto simp: partition_colon_def Let_def)
    have "dropWhile (\<lambda>c. c \<noteq> 58) target = 58 # a"
      using d(1,3) hd_dropWhile [OF d(1)] by (cases "dropWhile (\<lambda>c. c \<noteq> 58) target") auto
    then show "target = m @ 58 # a" using d(2) takeWhile_dropWhile_id [of "\<lambda>c. c \<noteq> 58" target] by simp
    show "58 \<notin> set m" using d(2) set_takeWhileD by fastforce
  qed
  moreover have "cwd \<in> set path'" "set path \<subseteq> set path'" using ok(4) by (auto split: if_splits)
  ultimately show ?thesis using ok(2,3) by blast
qed

text \<open>A schema that was initialised passes the check a worker and the server make.\<close>

lemma db_init_checks:
  assumes "db_init made conn si str_int prune (d, fs) = ((d', fs'), Status 0)" "\<And>n. si (str_int n) = Inr n"
  shows "store_check_schema si d' = Inr ()"
proof -
  have "store_init_schema si str_int d = Inr d'"
    using assms(1) by (auto simp: db_init_def bind_result_Inr_iff split: sum.splits if_splits)
  then show ?thesis
    using assms(2) by (auto simp: store_init_schema_def store_check_schema_def installed_version_def
        split: option.splits sum.splits)
qed

lemma db_init_failed: "db_init made conn si str_int prune dbf = (dbf', x) \<Longrightarrow> x \<noteq> Status 0 \<Longrightarrow> dbf' = dbf"
  by (auto simp: db_init_def split: sum.splits)

lemma service_start_held: "service_start so opened conn si d = (ready, res) \<Longrightarrow> ready \<longleftrightarrow> res = Inr ()"
  by (auto simp: service_start_def open_ready_def split: sum.splits)

text \<open>The server starts only with a token and on a schema it knows.\<close>

lemma serve_runs:
  assumes "serve token conn si d (Inr ()) so = Inr ()"
  shows "token \<noteq> None \<and> so_dsn so \<noteq> None \<and> store_check_schema si d = Inr ()"
  using assms by (auto simp: serve_def bind_result_Inr_iff create_app_token_def dsn_of_def split: option.splits)

text \<open>
  The exit status of \<open>fronta worker\<close>, from what happened while it ran: a fatal attempt gives 70
  whatever else happens; otherwise a status other than 1 and 2 tells how the loops ended.
\<close>

lemma worker_status:
  assumes "lf_control v = run_control es" "closes (lf_closing v)" "lf_settings v = Inr so" "so_dsn so \<noteq> None"
  shows "AttemptDone True \<in> set es \<Longrightarrow> worker_command (Inr obj) v = Status 70"
    "worker_command (Inr obj) v = Status n \<Longrightarrow> n \<noteq> 1 \<Longrightarrow>
       n = (if AttemptDone True \<in> set es then 70 else if LoopEnded LoopDied \<in> set es then 71 else 0)"
proof -
  obtain args where args: "bind_result (lf_settings v) (\<lambda>s. make_pool s None None) = Inr args"
    using assms(3,4) by (auto simp: make_pool_def dsn_of_def)
  show "AttemptDone True \<in> set es \<Longrightarrow> worker_command (Inr obj) v = Status 70"
    using run_worker_fatal [OF args assms(2)] assms(1,3) by (simp add: worker_command_def run_control_exit EXIT_FATAL_def)
  show "worker_command (Inr obj) v = Status n \<Longrightarrow> n \<noteq> 1 \<Longrightarrow>
      n = (if AttemptDone True \<in> set es then 70 else if LoopEnded LoopDied \<in> set es then 71 else 0)"
    using run_worker_status [of v] assms(1,3)
    by (auto simp: worker_command_def run_control_exit split: worker_end.splits if_splits)
qed

text \<open>
  What the start raises reaches the command: a database that does not answer in time, or a failed
  probe, is not among the errors it explains.
\<close>

lemma worker_start_escapes:
  assumes "lf_settings v = Inr so" "so_dsn so \<noteq> None" "\<forall>k. lf_opened v k = (Inr (), Inr ())" "lf_checks v = Inl e"
    "closes (lf_closing v)" "wc_exit (lf_control v) = 0" "\<not> lf_cancelled v" "e = TimeoutError \<or> e = SandboxError"
  shows "worker_command (Inr obj) v = Uncaught e"
proof -
  obtain args where "make_pool so None None = Inr args" using assms(2) by (auto simp: make_pool_def dsn_of_def)
  then show ?thesis
    using assms by (auto simp: worker_command_def run_worker_def worker_body_def open_ready_def close_worker_all
        finish_cleanup_def EXIT_FATAL_def)
qed

end
