(* ===== verification/Sdk.thy ===== *)
theory Sdk
  imports Service TaskDefs Runtime
begin

text \<open>
  The SDK functions of \<open>definitions.py\<close> on the process-wide runtime: each takes the settings and the
  pool of the running event loop before its statement. What the runtime meets (the event loop, how
  building settings and opening a pool end, which pools somebody else has closed) is \<open>sdk_env\<close>.
\<close>

record sdk_env =
  sk_loop :: nat
  sk_made :: "exn + settings_object"
  sk_closed :: "nat \<Rightarrow> bool"
  sk_fresh :: "nat \<times> (exn + unit) \<times> (exn + unit)"

definition sdk_pool :: "sdk_env \<Rightarrow> registry \<Rightarrow> registry \<times> (exn + nat)" where
  "sdk_pool k rg = (case open_pool (sk_loop k) None (sk_made k) (sk_closed k) (sk_fresh k) rg of
     (rg', _, _, res) \<Rightarrow> (rg', res))"

definition with_pool :: "sdk_env \<Rightarrow> registry \<Rightarrow> exn + 'a \<Rightarrow> registry \<times> (exn + 'a)" where
  "with_pool k rg answer = (case sdk_pool k rg of (rg', res) \<Rightarrow> (rg', bind_result res (\<lambda>_. answer)))"

definition sdk_pause :: "sdk_env \<Rightarrow> registry \<Rightarrow> ustr \<Rightarrow> db \<Rightarrow> registry \<times> (exn + db \<times> hint_event list)" where
  "sdk_pause k rg ty d = with_pool k rg (sdk_set_paused ty True d)"

definition sdk_resume :: "sdk_env \<Rightarrow> registry \<Rightarrow> ustr \<Rightarrow> db \<Rightarrow> registry \<times> (exn + db \<times> hint_event list)" where
  "sdk_resume k rg ty d = with_pool k rg (sdk_set_paused ty False d)"

definition sdk_requeue_task :: "sdk_env \<Rightarrow> registry \<Rightarrow> pg \<Rightarrow> int \<Rightarrow> db \<Rightarrow> registry \<times> (exn + db \<times> hint_event list)" where
  "sdk_requeue_task k rg env tid d = with_pool k rg (sdk_requeue env tid d)"

definition sdk_stats :: "sdk_env \<Rightarrow> registry \<Rightarrow> (ustr \<Rightarrow> ustr) \<Rightarrow> pg \<Rightarrow> db
     \<Rightarrow> registry \<times> (exn + type_stats list \<times> sub_stats list)" where
  "sdk_stats k rg collate env d = with_pool k rg (Inr (store_stats collate env d))"

text \<open>\<open>get_task\<close>: a connection of the caller needs no pool.\<close>

definition sdk_find_task :: "sdk_env \<Rightarrow> registry \<Rightarrow> bool \<Rightarrow> int \<Rightarrow> db \<Rightarrow> registry \<times> (exn + task_row)" where
  "sdk_find_task k rg own_conn tid d =
     (if own_conn then (rg, sdk_get_task tid d) else with_pool k rg (sdk_get_task tid d))"

text \<open>\<open>TaskDefinition.enqueue\<close>: the input is encoded before a pool is opened.\<close>

definition sdk_enqueue ::
  "sdk_env \<Rightarrow> registry \<Rightarrow> nat \<Rightarrow> (nat \<Rightarrow> pg) \<Rightarrow> (nat \<Rightarrow> db \<Rightarrow> db) \<Rightarrow> (nat \<Rightarrow> rat) \<Rightarrow> rat \<Rightarrow> (rat \<Rightarrow> ustr) \<Rightarrow> ('m, 'v) task_def
     \<Rightarrow> enqueue_conn \<Rightarrow> 'm task_input \<Rightarrow> scalar \<Rightarrow> (time \<times> bool) option \<Rightarrow> ustr option \<Rightarrow> ustr option \<Rightarrow> pyobj \<Rightarrow> db
     \<Rightarrow> registry \<times> ((exn + db \<times> int \<times> (ustr \<times> ustr) list) \<times> hint_event list) option" where
  "sdk_enqueue k rg fuel env others ticks start fr td conn inp prio run_at key ckey md d =
     (case get_settings (sk_made k) rg of
        (rg1, Inl e) \<Rightarrow> (rg1, Some (Inl e, []))
      | (rg1, Inr so) \<Rightarrow>
          (case prepared_task fr (so_values so) td inp prio run_at key ckey md of
             Inl e \<Rightarrow> (rg1, Some (Inl e, []))
           | Inr nt \<Rightarrow>
               (case (if conn = PoolConn then sdk_pool k rg1 else (rg1, Inr 0)) of
                  (rg2, Inl e) \<Rightarrow> (rg2, Some (Inl e, []))
                | (rg2, Inr _) \<Rightarrow> (rg2, enqueue_with fuel env others ticks start fr (so_values so) td conn inp prio
                    run_at key ckey md d))))"

section \<open>Facts\<close>

text \<open>A pool that nobody closed is used again, with the same settings; nothing is opened.\<close>

lemma sdk_pool_again:
  assumes "rg_settings rg = Some s" "rg_pools rg (sk_loop k) = Some (owner, p)" "so_id owner = so_id s" "\<not> sk_closed k p"
  shows "sdk_pool k rg = (rg, Inr p)"
  using assms by (simp add: sdk_pool_def open_pool_def get_settings_def Let_def)

lemma sdk_pool_settings:
  assumes "sdk_pool k rg = (rg', Inr p)"
  shows "\<exists>owner s. rg_settings rg' = Some s \<and> rg_pools rg' (sk_loop k) = Some (owner, p) \<and> so_id owner = so_id s
    \<and> (\<forall>s0. rg_settings rg = Some s0 \<longrightarrow> s = s0)"
  using assms unfolding sdk_pool_def open_pool_def get_settings_def configure_def
  by (auto simp: Let_def split: option.splits sum.splits prod.splits if_splits)

lemma with_pool_Inr:
  assumes "with_pool k rg answer = (rg', Inr x)"
  shows "answer = Inr x \<and> (\<exists>p. sdk_pool k rg = (rg', Inr p))"
  using assms by (auto simp: with_pool_def bind_result_Inr_iff split: prod.splits)

text \<open>A refused input reaches neither the database nor a pool.\<close>

lemma sdk_enqueue_refused:
  assumes "rg_settings rg = Some so" "prepared_task fr (so_values so) td inp prio run_at key ckey md = Inl e"
  shows "sdk_enqueue k rg fuel env others ticks start fr td conn inp prio run_at key ckey md d = (rg, Some (Inl e, []))"
  using assms by (simp add: sdk_enqueue_def get_settings_def)

text \<open>Otherwise it is \<open>enqueue_with\<close> under the process-wide settings, whatever the connection.\<close>

lemma sdk_enqueue_runs:
  assumes "rg_settings rg = Some so" "conn = PoolConn \<longrightarrow> sdk_pool k rg = (rg', Inr p)" "conn \<noteq> PoolConn \<longrightarrow> rg' = rg"
    "prepared_task fr (so_values so) td inp prio run_at key ckey md = Inr nt"
  shows "sdk_enqueue k rg fuel env others ticks start fr td conn inp prio run_at key ckey md d
    = (rg', enqueue_with fuel env others ticks start fr (so_values so) td conn inp prio run_at key ckey md d)"
  using assms by (cases conn) (simp_all add: sdk_enqueue_def get_settings_def)

end
