(* ===== verification/App.thy ===== *)
theory App
  imports Api Commands
begin

text \<open>
  The application \<open>create_app\<close> puts together: the body limit around everything, the REST router behind
  its bearer dependency, the public pages, and the MCP endpoint as the fall-through behind the bearer
  gate. Which of them a request is for, and its typed arguments, are what FastAPI and the MCP library
  make of its path and body.
\<close>

section \<open>Requests\<close>

datatype route = RestRoute api_call | PublicPage | McpRoute "ustr option" api_call | McpOther int

datatype answer_body = RestBody "api_value option" | ToolBody "exn tool_failure + api_value" | PlainBody

text \<open>
  A response with its status; what a request may change is the validator cache, the tables and the
  hints. \<open>McpOther n\<close> is a request the MCP library answers itself with status \<open>n\<close>, such as an unknown path.
\<close>

type_synonym app_response = "validators \<times> db \<times> (int \<times> answer_body) \<times> hint_event list"

definition mcp_answer :: "exn tool_failure + api_value \<Rightarrow> int \<times> answer_body" where
  "mcp_answer m = (200, ToolBody m)"

definition routed :: "api_env \<Rightarrow> ustr option \<Rightarrow> (ustr \<Rightarrow> exn + time \<times> bool) \<Rightarrow> (ustr \<times> nat list) list \<Rightarrow> validators \<Rightarrow> db
     \<Rightarrow> route \<Rightarrow> app_response option" where
  "routed ae token from_iso headers cache d rt = (case rt of
     RestRoute c \<Rightarrow> map_option (\<lambda>(cache', d', (status, v), hs). (cache', d', (status, RestBody v), hs))
       (rest_call ae token headers cache d c)
   | PublicPage \<Rightarrow> Some (cache, d, (200, PlainBody), [])
   | McpRoute stamp c \<Rightarrow> (case bearer_gate True headers token of
       PassOn \<Rightarrow> map_option (\<lambda>(cache', d', m, hs). (cache', d', mcp_answer m, hs))
         (mcp_call ae from_iso stamp cache d c)
     | Respond n \<Rightarrow> Some (cache, d, (n, PlainBody), [])
     | GateRaises e \<Rightarrow> Some (cache, d, (500, PlainBody), []))
   | McpOther n \<Rightarrow> (case bearer_gate True headers token of
       PassOn \<Rightarrow> Some (cache, d, (n, PlainBody), [])
     | Respond k \<Rightarrow> Some (cache, d, (k, PlainBody), [])
     | GateRaises e \<Rightarrow> Some (cache, d, (500, PlainBody), [])))"

text \<open>
  The whole application: \<open>body\<close> is how many bytes of the body are read before the handler acts (none, if
  it takes no body); past the limit the handler never acts.
\<close>

definition app_request :: "api_env \<Rightarrow> ustr option \<Rightarrow> (ustr \<Rightarrow> exn + time \<times> bool) \<Rightarrow> (ustr \<times> nat list) list \<Rightarrow> int
     \<Rightarrow> validators \<Rightarrow> db \<Rightarrow> route \<Rightarrow> app_response option" where
  "app_request ae token from_iso headers body cache d rt =
     (let limit = body_limit (ae_settings ae)
      in if declared_over limit (map_of (rev headers) (lit ''content-length'')) \<or> body > limit
         then Some (cache, d, (413, PlainBody), [])
         else routed ae token from_iso headers cache d rt)"

section \<open>Facts\<close>

text \<open>Whether some \<open>Authorization\<close> header carries the token; the two surfaces look at different ones.\<close>

definition authorized :: "(ustr \<times> nat list) list \<Rightarrow> ustr option \<Rightarrow> bool" where
  "authorized headers token \<longleftrightarrow> (\<exists>a. (lit ''authorization'', a) \<in> set headers \<and> bearer_ok (Some a) token = Inr True)"

lemma unauthorized_rest: "\<not> authorized headers token \<Longrightarrow> require_auth headers token \<in> {Some 401, Some 500}"
proof (cases "map_of headers (lit ''authorization'')")
  case (Some a)
  assume "\<not> authorized headers token"
  then have "bearer_ok (Some a) token \<noteq> Inr True" using map_of_SomeD [OF Some] by (auto simp: authorized_def)
  then show ?thesis using Some by (auto simp: require_auth_def split: sum.split)
qed (simp add: require_auth_def bearer_ok_none)

lemma unauthorized_gate:
  "\<not> authorized headers token \<Longrightarrow> bearer_gate True headers token \<noteq> PassOn
    \<and> (\<forall>n. bearer_gate True headers token = Respond n \<longrightarrow> n = 401)"
proof (cases "map_of (rev headers) (lit ''authorization'')")
  case (Some a)
  assume "\<not> authorized headers token"
  then have "bearer_ok (Some a) token \<noteq> Inr True" using map_of_SomeD [OF Some] by (auto simp: authorized_def)
  then show ?thesis using Some by (auto simp: bearer_gate_def split: sum.split)
qed (simp add: bearer_gate_def bearer_ok_none)

lemma routed_unauthorized:
  assumes "\<not> authorized headers token" "routed ae token from_iso headers cache d rt = Some (cache', d', (status, b), hs)"
  shows "cache' = cache \<and> d' = d \<and> hs = [] \<and> (if rt = PublicPage then status = 200 else status \<in> {401, 500})"
proof (cases rt)
  case (RestRoute c)
  obtain n where n: "require_auth headers token = Some n" "n \<in> {401, 500}" using unauthorized_rest [OF assms(1)] by auto
  then show ?thesis using assms(2) rest_unauthorized [OF n(1)] RestRoute by (auto simp: routed_def)
next
  case (McpRoute stamp c)
  then show ?thesis using assms(2) unauthorized_gate [OF assms(1)] by (auto simp: routed_def split: gate.splits)
next
  case (McpOther n)
  then show ?thesis using assms(2) unauthorized_gate [OF assms(1)] by (auto simp: routed_def split: gate.splits)
qed (use assms(2) in \<open>simp add: routed_def\<close>)

lemma app_unauthorized:
  assumes "\<not> authorized headers token" "app_request ae token from_iso headers body cache d rt = Some (cache', d', (status, b), hs)"
  shows "cache' = cache \<and> d' = d \<and> hs = [] \<and> status \<in> {200, 401, 413, 500} \<and> (status = 200 \<longrightarrow> rt = PublicPage)"
  using assms(2) routed_unauthorized [OF assms(1), of ae from_iso cache d rt cache' d' status b hs]
  by (auto simp: app_request_def Let_def split: if_splits)

text \<open>A body over the limit reaches no handler.\<close>

lemma app_over_limit:
  "body > body_limit (ae_settings ae) \<Longrightarrow> app_request ae token from_iso headers body cache d rt = Some (cache, d, (413, PlainBody), [])"
  by (simp add: app_request_def Let_def)

end
