(* ===== verification/SchemaText.thy ===== *)
theory SchemaText
  imports Catalog Processes
begin

text \<open>
  How \<open>store.py\<close> assembles the schema script from its SQL resources (\<open>candidate_sql\<close>, \<open>schema_sql\<close>), whose
  texts are arguments (ASCII, as in the package), and the loop at the head of \<open>schema.sql\<close> that locks the existing tables together
  before any of them is altered.
\<close>

section \<open>Templates\<close>

definition word_char :: "nat \<Rightarrow> bool" where
  "word_char c \<longleftrightarrow> is_digit c \<or> (65 \<le> c \<and> c \<le> 90) \<or> (97 \<le> c \<and> c \<le> 122) \<or> c = 95"

text \<open>The pattern \<open>%(name)s\<close> at the head of a text: the name and what follows.\<close>

definition match_param :: "ustr \<Rightarrow> (ustr \<times> ustr) option" where
  "match_param s =
     (if starts_with (lit ''%('') s
      then (let name = takeWhile word_char (drop 2 s); rest = dropWhile word_char (drop 2 s)
            in if name \<noteq> [] \<and> starts_with (lit '')s'') rest then Some (name, drop 2 rest) else None)
      else None)"

lemma match_param_shorter: "match_param s = Some (name, rest) \<Longrightarrow> length rest < length s"
proof -
  assume m: "match_param s = Some (name, rest)"
  then have "starts_with (lit ''%('') s" and rest: "rest = drop 2 (dropWhile word_char (drop 2 s))"
    by (auto simp: match_param_def Let_def split: if_splits)
  then have "length (take 2 s) = 2" by (simp add: starts_with_def numeral_2_eq_2)
  then have "2 \<le> length s" by simp
  moreover have "length (dropWhile word_char (drop 2 s)) \<le> length s - 2" using length_dropWhile_le [of word_char "drop 2 s"] by simp
  ultimately show ?thesis unfolding rest length_drop by linarith
qed

text \<open>\<open>re.sub\<close> with a look-up of the name; an unknown name raises.\<close>

function subst_params :: "(ustr \<Rightarrow> ustr option) \<Rightarrow> ustr \<Rightarrow> exn + ustr" where
  "subst_params names [] = Inr []"
| "subst_params names (c # s) = (case match_param (c # s) of
     Some (name, rest) \<Rightarrow> (case names name of
         None \<Rightarrow> Inl KeyError
       | Some v \<Rightarrow> map_sum id (\<lambda>out. v @ out) (subst_params names rest))
   | None \<Rightarrow> map_sum id (\<lambda>out. c # out) (subst_params names s))"
  by pat_completeness auto
termination
  by (relation "measure (\<lambda>(names, s). length s)") (auto dest: match_param_shorter)

definition candidate_names :: "(ustr \<times> ustr) list" where
  "candidate_names = map (\<lambda>(k, v). (lit k, lit v))
     [(''types'', ''p_types''), (''skip'', ''v_skip''), (''skip_keys'', ''v_skip_keys''), (''skip_types'', ''v_skip_types''),
      (''skip_key_types'', ''v_skip_key_types''), (''count'', ''(v_cap - cardinality(v_ids))'')]"

definition candidate_sql :: "ustr \<Rightarrow> exn + ustr" where
  "candidate_sql candidate = subst_params (map_of candidate_names) candidate"

text \<open>\<open>str.replace\<close> of a text that is not empty.\<close>

function replace_all :: "ustr \<Rightarrow> ustr \<Rightarrow> ustr \<Rightarrow> ustr" where
  "replace_all needle v [] = []"
| "replace_all needle v (c # s) =
     (if needle \<noteq> [] \<and> starts_with needle (c # s) then v @ replace_all needle v (drop (length needle) (c # s))
      else c # replace_all needle v s)"
  by pat_completeness auto
termination
  by (relation "measure (\<lambda>(needle, v, s). length s)") (auto simp: length_greater_0_conv [symmetric] simp del: length_greater_0_conv)

definition schema_sql :: "ustr \<Rightarrow> ustr \<Rightarrow> ustr \<Rightarrow> ustr \<Rightarrow> exn + ustr" where
  "schema_sql ddl claim candidate published = bind_result (candidate_sql candidate) (\<lambda>c.
     let body = replace_all (lit ''{published}'') published (replace_all (lit ''{candidate}'') c claim);
         body' = replace_all (lit ''{version}'') (dec_int SCHEMA_VERSION) body
     in Inr (ddl @ [10] @ body' @ [10] @ lit ''INSERT INTO fronta.meta (key, value) VALUES ('' @ [39] @ lit ''schema_version''
          @ [39] @ lit '', '' @ [39] @ dec_int SCHEMA_VERSION @ [39] @ lit '') ON CONFLICT (key) DO UPDATE SET value = greatest('' @ [10]
          @ lit ''fronta.meta.value::int, EXCLUDED.value::int)::text;'' @ [10]))"

text \<open>\<open>fronta db sql\<close>: the script as one transaction.\<close>

definition db_sql :: "ustr \<Rightarrow> ustr \<Rightarrow> ustr \<Rightarrow> ustr \<Rightarrow> exn + ustr" where
  "db_sql ddl claim candidate published =
     map_sum id (\<lambda>text. lit ''BEGIN;'' @ [10] @ text @ lit ''COMMIT;'') (schema_sql ddl claim candidate published)"

section \<open>Locking before DDL\<close>

text \<open>
  The loop of \<open>schema.sql\<close>: \<open>free k\<close> tells which tables nobody else holds at try \<open>k\<close>. A try takes all
  existing tables or, at the first one that is held, gives back those it took.
\<close>

fun lock_some :: "(ustr \<Rightarrow> bool) \<Rightarrow> ustr list \<Rightarrow> ustr list \<times> bool" where
  "lock_some free [] = ([], True)"
| "lock_some free (t # ts) = (if \<not> free t then ([], False)
     else (case lock_some free ts of (taken, ok) \<Rightarrow> if ok then (t # taken, True) else ([], False)))"

fun lock_loop :: "nat \<Rightarrow> (nat \<Rightarrow> ustr \<Rightarrow> bool) \<Rightarrow> ustr list \<Rightarrow> nat \<Rightarrow> (nat \<times> ustr list) option" where
  "lock_loop 0 free existing k = None"
| "lock_loop (Suc fuel) free existing k = (case lock_some (free k) existing of
     (taken, True) \<Rightarrow> Some (k, taken)
   | (_, False) \<Rightarrow> lock_loop fuel free existing (Suc k))"

section \<open>Facts\<close>

text \<open>The parameters a template names, in order.\<close>

function params_of :: "ustr \<Rightarrow> ustr list" where
  "params_of [] = []"
| "params_of (c # s) = (case match_param (c # s) of
     Some (name, rest) \<Rightarrow> name # params_of rest | None \<Rightarrow> params_of s)"
  by pat_completeness auto
termination
  by (relation "measure length") (auto dest: match_param_shorter)

lemma subst_params_ok_iff: "(\<exists>out. subst_params names s = Inr out) \<longleftrightarrow> (\<forall>n \<in> set (params_of s). names n \<noteq> None)"
proof (induction names s rule: subst_params.induct)
  case (2 names c s)
  show ?case
  proof (cases "match_param (c # s)")
    case None
    then show ?thesis using "2.IH"(1) by (cases "subst_params names s") auto
  next
    case (Some p)
    obtain name rest where p: "p = (name, rest)" by (cases p)
    show ?thesis
    proof (cases "names name")
      case (Some v)
      then show ?thesis using "2.IH"(2) \<open>match_param (c # s) = Some p\<close> p
        by (cases "subst_params names rest") auto
    qed (use Some p in simp)
  qed
qed simp

text \<open>A text without a placeholder stays as it is.\<close>

lemma subst_params_plain: "params_of s = [] \<Longrightarrow> subst_params names s = Inr s"
  by (induction names s rule: subst_params.induct) (auto split: option.splits prod.splits)

lemma candidate_sql_ok_iff:
  "(\<exists>out. candidate_sql c = Inr out) \<longleftrightarrow> set (params_of c) \<subseteq> set (map fst candidate_names)"
  unfolding candidate_sql_def subst_params_ok_iff by (force simp: map_of_eq_None_iff)

text \<open>The tables are locked all together, at the first try at which none of them is held.\<close>

lemma lock_some_iff: "lock_some free ts = (if \<forall>t \<in> set ts. free t then (ts, True) else ([], False))"
  by (induction ts) (auto split: if_splits)

lemma lock_loop_result:
  assumes "lock_loop fuel free existing k = Some (n, taken)"
  shows "taken = existing \<and> k \<le> n \<and> (\<forall>t \<in> set existing. free n t) \<and> (\<forall>j. k \<le> j \<and> j < n \<longrightarrow> (\<exists>t \<in> set existing. \<not> free j t))"
  using assms
proof (induction fuel arbitrary: k)
  case (Suc fuel)
  show ?case
  proof (cases "\<forall>t \<in> set existing. free k t")
    case True
    then show ?thesis using Suc.prems by (auto simp: lock_some_iff)
  next
    case False
    then have "lock_loop fuel free existing (Suc k) = Some (n, taken)"
      using Suc.prems by (simp only: lock_loop.simps lock_some_iff if_not_P [OF False] if_False prod.case bool.case)
    from Suc.IH [OF this] show ?thesis using False by (metis Suc_leD Suc_leI le_neq_implies_less)
  qed
qed simp

lemma lock_loop_ends:
  assumes "\<forall>t \<in> set existing. free (k + n) t" "n < fuel"
  shows "lock_loop fuel free existing k \<noteq> None"
  using assms
proof (induction fuel arbitrary: k n)
  case (Suc fuel)
  show ?case
  proof (cases "\<forall>t \<in> set existing. free k t")
    case False
    then obtain m where m: "n = Suc m" using Suc.prems(1) by (cases n) auto
    have "lock_loop fuel free existing (Suc k) \<noteq> None"
      by (rule Suc.IH [where n = m]) (use Suc.prems m in auto)
    then show ?thesis by (simp only: lock_loop.simps lock_some_iff if_not_P [OF False] if_False prod.case bool.case) simp
  qed (simp add: lock_some_iff)
qed simp

end
