(* ===== verification/Budget.thy ===== *)
theory Budget
  imports Controller WorkerLife
begin

text \<open>
  How long the stop protocol of an attempt takes (\<open>Attempt._run_execution\<close> from its stop on, without the
  outcome's own transition), against the budget the drain of the worker gives it (\<open>_stop_budget_s\<close>).

  Times count from the stop. A wait takes what its time-out allows; \<open>ProcessExecution.stop\<close> returns at
  once while no sandbox is there yet, and \<open>ProcessExecution.kill\<close> first waits for a launch in flight.
  \<open>tm_launched\<close> is when that launch ends, not positive when none is in flight.
\<close>

section \<open>The clock of a stop\<close>

record timing =
  tm_launched :: rat
  tm_stop :: rat
  tm_grace :: rat
  tm_kill :: "nat \<Rightarrow> rat"
  tm_after :: rat
  tm_cancelled :: rat
  tm_cleanup :: rat

text \<open>A kill that begins at \<open>now\<close> and takes \<open>x\<close> once there is a sandbox to kill.\<close>

definition kill_span :: "settings \<Rightarrow> rat \<Rightarrow> rat \<Rightarrow> rat \<Rightarrow> rat" where
  "kill_span s launched now x =
     (if launched \<le> now then x
      else if launched - now > kill_timeout_s s then kill_timeout_s s
      else (launched - now) + x)"

text \<open>The verification loop: kill until it is answered, with a pause after every failure.\<close>

fun verify_span :: "settings \<Rightarrow> scenario \<Rightarrow> timing \<Rightarrow> nat list \<Rightarrow> rat \<Rightarrow> rat" where
  "verify_span s sc tm [] now = now"
| "verify_span s sc tm (i # is) now =
     (let t = now + kill_span s (tm_launched tm) now (tm_kill tm i)
      in verify_span s sc tm is (if sc_kill sc i then t else t + min 1 (kill_timeout_s s)))"

text \<open>
  The moment the runner's cleanup is over, when the verification needs the kills up to \<open>k\<close>. The kill
  of \<open>_end_runner\<close> finds the sandbox verified dead and takes no time.
\<close>

definition settle_span :: "settings \<Rightarrow> scenario \<Rightarrow> timing \<Rightarrow> nat \<Rightarrow> rat" where
  "settle_span s sc tm k =
     (let graceful = (if sc_process sc \<and> tm_launched tm \<le> 0 then tm_stop tm else 0) + tm_grace tm;
          killed = (if ended sc 1 then graceful
            else graceful + (if sc_process sc then kill_span s (tm_launched tm) graceful (tm_kill tm 0) else 0) + tm_after tm);
          cancelled = (if \<not> ended sc 1 \<and> \<not> ended sc 2 \<and> sc_process sc then killed + tm_cancelled tm else killed)
      in if sc_process sc then verify_span s sc tm [kill_index sc..<k] cancelled + tm_cleanup tm else cancelled)"

text \<open>
  What the time-outs allow: a kill takes its time-out at most, and a failed one may also sleep after an
  \<open>OSError\<close> (\<open>_kill_execution\<close>).
\<close>

definition timing_ok :: "settings \<Rightarrow> scenario \<Rightarrow> timing \<Rightarrow> bool" where
  "timing_ok s sc tm \<longleftrightarrow> 0 \<le> tm_stop tm \<and> tm_stop tm \<le> kill_timeout_s s
     \<and> 0 \<le> tm_grace tm \<and> tm_grace tm \<le> grace_s s
     \<and> (\<forall>i. 0 \<le> tm_kill tm i
          \<and> tm_kill tm i \<le> kill_timeout_s s + (if sc_kill sc i then 0 else min 1 (kill_timeout_s s)))
     \<and> 0 \<le> tm_after tm \<and> tm_after tm \<le> kill_timeout_s s
     \<and> 0 \<le> tm_cancelled tm \<and> tm_cancelled tm \<le> kill_timeout_s s
     \<and> 0 \<le> tm_cleanup tm \<and> tm_cleanup tm \<le> kill_timeout_s s"

section \<open>The budget\<close>

text \<open>What is still to be waited for a launch: at most one kill time-out more, once.\<close>

definition launch_due :: "settings \<Rightarrow> timing \<Rightarrow> rat \<Rightarrow> rat" where
  "launch_due s tm now = (if tm_launched tm \<le> now then 0 else kill_timeout_s s)"

lemma launch_due_mono: "timing_ok s sc tm \<Longrightarrow> y \<le> z \<Longrightarrow> launch_due s tm z \<le> launch_due s tm y"
  by (simp add: launch_due_def timing_ok_def)

lemma kill_span_bound:
  assumes "timing_ok s sc tm"
  shows "0 \<le> kill_span s (tm_launched tm) now (tm_kill tm i)"
    "kill_span s (tm_launched tm) now (tm_kill tm i)
        + launch_due s tm (now + kill_span s (tm_launched tm) now (tm_kill tm i))
      \<le> kill_timeout_s s + (if sc_kill sc i then 0 else min 1 (kill_timeout_s s)) + launch_due s tm now"
proof -
  have k: "0 \<le> tm_kill tm i" "tm_kill tm i \<le> kill_timeout_s s + (if sc_kill sc i then 0 else min 1 (kill_timeout_s s))"
    and t: "0 \<le> kill_timeout_s s"
    using assms unfolding timing_ok_def by (blast, blast, linarith)
  have m: "0 \<le> (if sc_kill sc i then 0 else min 1 (kill_timeout_s s))" using t by simp
  show "0 \<le> kill_span s (tm_launched tm) now (tm_kill tm i)" using k(1) t by (simp add: kill_span_def)
  consider "tm_launched tm \<le> now" | "tm_launched tm - now > kill_timeout_s s"
    | "now < tm_launched tm" "tm_launched tm - now \<le> kill_timeout_s s" by linarith
  then show "kill_span s (tm_launched tm) now (tm_kill tm i)
        + launch_due s tm (now + kill_span s (tm_launched tm) now (tm_kill tm i))
      \<le> kill_timeout_s s + (if sc_kill sc i then 0 else min 1 (kill_timeout_s s)) + launch_due s tm now"
  proof cases
    case 1
    then show ?thesis using k by (simp add: kill_span_def launch_due_def)
  next
    case 2
    then show ?thesis using m t by (simp add: kill_span_def launch_due_def)
  next
    case 3
    then show ?thesis using k by (simp add: kill_span_def launch_due_def)
  qed
qed

lemma verify_span_bound:
  assumes "timing_ok s sc tm"
  shows "verify_span s sc tm is now \<le> now + launch_due s tm now + of_nat (length is) * kill_timeout_s s
    + of_nat (length (filter (\<lambda>i. \<not> sc_kill sc i) is)) * (2 * min 1 (kill_timeout_s s))"
proof (induction "is" arbitrary: now)
  case Nil
  have "0 \<le> kill_timeout_s s" using assms by (auto simp: timing_ok_def)
  then show ?case by (simp add: launch_due_def)
next
  case (Cons i "is")
  let ?t = "now + kill_span s (tm_launched tm) now (tm_kill tm i)"
  let ?m = "if sc_kill sc i then 0 else min 1 (kill_timeout_s s)"
  have t0: "0 \<le> kill_timeout_s s" using assms by (auto simp: timing_ok_def)
  have "launch_due s tm (?t + ?m) \<le> launch_due s tm ?t" by (rule launch_due_mono [OF assms]) (use t0 in simp)
  moreover note Cons.IH [of "?t + ?m"] kill_span_bound(2) [OF assms, of now i]
  ultimately show ?case by (cases "sc_kill sc i") (simp_all add: Let_def algebra_simps)
qed

lemma verified_failures:
  assumes "verified_at fuel sc = Some k" "sc_process sc"
  shows "kill_index sc < k" "length (filter (\<lambda>i. \<not> sc_kill sc i) [kill_index sc..<k]) = k - Suc (kill_index sc)"
proof -
  have v: "kill_index sc < k" "sc_kill sc (k - 1)" "\<forall>j. kill_index sc \<le> j \<and> j < k - 1 \<longrightarrow> \<not> sc_kill sc j"
    using assms verify_dead_SomeD [of fuel "sc_kill sc" "kill_index sc" k] by (auto simp: verified_at_def)
  then show "kill_index sc < k" by simp
  have "[kill_index sc..<k] = [kill_index sc..<k - 1] @ [k - 1]"
    using v(1) by (metis Suc_diff_1 less_Suc_eq_le not_less_zero gr0I upt_Suc_append)
  moreover have "filter (\<lambda>i. \<not> sc_kill sc i) [kill_index sc..<k - 1] = [kill_index sc..<k - 1]"
    using v(3) by (simp add: filter_id_conv)
  ultimately show "length (filter (\<lambda>i. \<not> sc_kill sc i) [kill_index sc..<k]) = k - Suc (kill_index sc)"
    using v(2) by simp
qed

text \<open>
  The stop protocol keeps to its budget; every failed verification prolongs it by a kill time-out
  and two pauses.
\<close>

lemma settle_span_bound:
  assumes "timing_ok s sc tm" "verified_at fuel sc = Some k"
  shows "settle_span s sc tm k \<le> stop_budget_s s
    + of_nat (k - Suc (kill_index sc)) * (kill_timeout_s s + 2 * min 1 (kill_timeout_s s))"
proof -
  let ?T = "kill_timeout_s s"
  have b: "0 \<le> ?T" "0 \<le> tm_stop tm" "tm_stop tm \<le> ?T" "0 \<le> tm_grace tm" "tm_grace tm \<le> grace_s s"
    "tm_after tm \<le> ?T" "tm_cancelled tm \<le> ?T" "0 \<le> tm_after tm" "0 \<le> tm_cancelled tm" "tm_cleanup tm \<le> ?T"
    using assms(1) by (auto simp: timing_ok_def)
  define g where "g = (if sc_process sc \<and> tm_launched tm \<le> 0 then tm_stop tm else 0) + tm_grace tm"
  define x where "x = (if ended sc 1 then g
    else g + (if sc_process sc then kill_span s (tm_launched tm) g (tm_kill tm 0) else 0) + tm_after tm)"
  define c where "c = (if \<not> ended sc 1 \<and> \<not> ended sc 2 \<and> sc_process sc then x + tm_cancelled tm else x)"
  have span: "settle_span s sc tm k = (if sc_process sc then verify_span s sc tm [kill_index sc..<k] c + tm_cleanup tm else c)"
    by (simp add: settle_span_def g_def x_def c_def Let_def)
  show ?thesis
  proof (cases "sc_process sc")
    case False
    have "c \<le> grace_s s + ?T" using False b by (simp add: c_def x_def g_def)
    moreover have "0 \<le> of_nat (k - Suc (kill_index sc)) * (?T + 2 * min 1 ?T)" using b(1) by simp
    moreover have "settle_span s sc tm k = c" using False by (simp add: span)
    ultimately show ?thesis using b(1) unfolding stop_budget_s_def by linarith
  next
    case True
    have g: "g + launch_due s tm g \<le> grace_s s + ?T" and g0: "0 \<le> g"
      using b by (auto simp: g_def launch_due_def)
    note mono = launch_due_mono [OF assms(1)]
    have m: "(if sc_kill sc 0 then 0 else min 1 ?T) \<le> 1" by simp
    have x: "x + launch_due s tm x \<le> grace_s s + 3 * ?T + 1"
    proof (cases "ended sc 1")
      case True
      then show ?thesis using g b(1) by (simp add: x_def)
    next
      case False
      let ?k = "kill_span s (tm_launched tm) g (tm_kill tm 0)"
      have "launch_due s tm x \<le> launch_due s tm (g + ?k)"
        by (rule mono) (use False True b in \<open>simp add: x_def\<close>)
      moreover have "x = g + ?k + tm_after tm" using False True by (simp add: x_def)
      ultimately show ?thesis using kill_span_bound(2) [OF assms(1), of g 0] g m b by linarith
    qed
    have c: "c + launch_due s tm c \<le> grace_s s + 4 * ?T + 1"
      using x mono [of x c] b by (auto simp: c_def)
    let ?n = "k - Suc (kill_index sc)"
    note fails = verified_failures [OF assms(2) True]
    have "length [kill_index sc..<k] = Suc ?n" using fails(1) by simp
    then have "verify_span s sc tm [kill_index sc..<k] c
        \<le> c + launch_due s tm c + of_nat (Suc ?n) * ?T + of_nat ?n * (2 * min 1 ?T)"
      using verify_span_bound [OF assms(1), of "[kill_index sc..<k]" c] fails(2) by (simp only:)
    moreover have "of_nat (Suc ?n) * ?T + of_nat ?n * (2 * min 1 ?T) = ?T + of_nat ?n * (?T + 2 * min 1 ?T)"
      by (simp add: algebra_simps)
    moreover have "settle_span s sc tm k = verify_span s sc tm [kill_index sc..<k] c + tm_cleanup tm"
      using True by (simp add: span)
    ultimately show ?thesis using c b(10) unfolding stop_budget_s_def by linarith
  qed
qed

text \<open>The budget is used up by a sandbox that answers nothing before its time-outs.\<close>

definition slow_stop :: "settings \<Rightarrow> timing" where
  "slow_stop s = \<lparr>tm_launched = 0, tm_stop = kill_timeout_s s, tm_grace = grace_s s,
     tm_kill = (\<lambda>i. if i = 0 then kill_timeout_s s + 1 else kill_timeout_s s), tm_after = kill_timeout_s s,
     tm_cancelled = kill_timeout_s s, tm_cleanup = kill_timeout_s s\<rparr>"

definition slow_sandbox :: scenario where
  "slow_sandbox = \<lparr>sc_process = True, sc_signals = (\<lambda>_. []), sc_end = None, sc_result = SelfCancelled, sc_kill = (\<lambda>i. i > 0)\<rparr>"

lemma stop_budget_attained:
  assumes "1 \<le> kill_timeout_s s" "0 \<le> grace_s s"
  shows "timing_ok s slow_sandbox (slow_stop s) \<and> verified_at 1 slow_sandbox = Some 2
    \<and> settle_span s slow_sandbox (slow_stop s) 2 = stop_budget_s s"
  using assms by (simp add: timing_ok_def slow_sandbox_def slow_stop_def verified_at_def kill_index_def ended_def
      settle_span_def kill_span_def stop_budget_s_def numeral_2_eq_2 Let_def)

text \<open>A shutdown that is immediate waits for two budgets at most.\<close>

definition waited :: "drain_act list \<Rightarrow> rat option" where
  "waited acts = fold (\<lambda>a t. case a of WaitAll None b \<Rightarrow> None | WaitAll (Some x) b \<Rightarrow> map_option ((+) x) t | _ \<Rightarrow> t) acts (Some 0)"

lemma immediate_drain_waits:
  assumes "0 \<le> stop_budget_s s"
  shows "\<exists>t. waited (drain s pend (\<lambda>_. True)) = Some t \<and> t \<le> 2 * stop_budget_s s"
  using assms by (auto simp: waited_def drain_def)

end
