(* ===== verification/Replies.thy ===== *)
theory Replies
  imports Codec Http
begin

text \<open>
  The error responses of the server (\<open>_json\<close>, \<open>_handler\<close>, \<open>_request_validation\<close> of \<open>server/app.py\<close>): JSON with
  every character outside printable ASCII escaped, so that a rejected text can be echoed whatever
  it holds. The rendering of a float is \<open>fr\<close>; the list of validation errors is pydantic's.
\<close>

definition hex4 :: "nat \<Rightarrow> ustr" where
  "hex4 n = map hex_digit [n div 4096 mod 16, n div 256 mod 16, n div 16 mod 16, n mod 16]"

text \<open>The encoder's escapes with \<open>ensure_ascii=True\<close>; beyond the basic plane, a pair of surrogates.\<close>

definition escape_ascii :: "nat \<Rightarrow> ustr" where
  "escape_ascii cp =
     (if cp = 34 then [92, 34] else if cp = 92 then [92, 92]
      else if cp = 8 then [92, 98] else if cp = 12 then [92, 102] else if cp = 10 then [92, 110]
      else if cp = 13 then [92, 114] else if cp = 9 then [92, 116]
      else if 32 \<le> cp \<and> cp \<le> 126 then [cp]
      else if cp < 0x10000 then 92 # 117 # hex4 cp
      else (let n = cp - 0x10000
            in 92 # 117 # hex4 (0xD800 + n div 1024 mod 1024) @ 92 # 117 # hex4 (0xDC00 + n mod 1024)))"

definition quote_ascii :: "ustr \<Rightarrow> ustr" where
  "quote_ascii s = 34 # concat (map escape_ascii s) @ [34]"

fun dumps_ascii :: "(rat \<Rightarrow> ustr) \<Rightarrow> json \<Rightarrow> ustr" where
  "dumps_ascii fr JNull = lit ''null''"
| "dumps_ascii fr (JBool b) = (if b then lit ''true'' else lit ''false'')"
| "dumps_ascii fr (JInt i) = dec_int i"
| "dumps_ascii fr (JFloat (Fin r)) = fr r"
| "dumps_ascii fr (JFloat PosInf) = lit ''Infinity''"
| "dumps_ascii fr (JFloat NegInf) = lit ''-Infinity''"
| "dumps_ascii fr (JFloat NaN) = lit ''NaN''"
| "dumps_ascii fr (JStr s) = quote_ascii s"
| "dumps_ascii fr (JArr xs) = 91 # commas (map (dumps_ascii fr) xs) @ [93]"
| "dumps_ascii fr (JObj kvs) =
     123 # commas (map (\<lambda>kv. quote_ascii (fst kv) @ 58 # dumps_ascii fr (snd kv)) kvs) @ [125]"

text \<open>A response: its status and the bytes of its body, or the encoding error that would end it.\<close>

definition json_response :: "(rat \<Rightarrow> ustr) \<Rightarrow> json \<Rightarrow> int \<Rightarrow> exn + (int \<times> nat list)" where
  "json_response fr payload status = bind_result (utf8_encode (dumps_ascii fr payload)) (\<lambda>body. Inr (status, body))"

definition error_response :: "(rat \<Rightarrow> ustr) \<Rightarrow> int \<Rightarrow> ustr \<Rightarrow> exn + (int \<times> nat list)" where
  "error_response fr status message = json_response fr (JObj [(lit ''detail'', JStr message)]) status"

definition validation_response :: "(rat \<Rightarrow> ustr) \<Rightarrow> json list \<Rightarrow> exn + (int \<times> nat list)" where
  "validation_response fr errors = json_response fr (JObj [(lit ''detail'', JArr errors)]) 422"

section \<open>No text spoils a response\<close>

definition printable :: "ustr \<Rightarrow> bool" where
  "printable s \<longleftrightarrow> (\<forall>c \<in> set s. 32 \<le> c \<and> c \<le> 126)"

lemma printable_simps [simp]:
  "printable []" "printable (c # s) \<longleftrightarrow> 32 \<le> c \<and> c \<le> 126 \<and> printable s" "printable (s @ t) \<longleftrightarrow> printable s \<and> printable t"
  by (auto simp: printable_def)

lemma printable_concat: "(\<forall>s \<in> set ss. printable s) \<Longrightarrow> printable (concat ss)"
  by (induction ss) auto

lemma printable_commas: "(\<forall>s \<in> set ss. printable s) \<Longrightarrow> printable (commas ss)"
  by (induction ss rule: commas.induct) auto

lemma printable_hex_digit: "n < 16 \<Longrightarrow> 32 \<le> hex_digit n \<and> hex_digit n \<le> 126"
  by (simp add: hex_digit_def)

lemma printable_hex4: "printable (hex4 n)"
  by (simp add: hex4_def printable_hex_digit)

lemma printable_escape: "printable (escape_ascii cp)"
  by (simp add: escape_ascii_def Let_def printable_hex4)

lemma printable_quote: "printable (quote_ascii s)"
proof -
  have "printable (concat (map escape_ascii s))" by (rule printable_concat) (simp add: printable_escape)
  then show ?thesis by (simp add: quote_ascii_def)
qed

lemma printable_dec_nat: "printable (dec_nat n)"
proof (induction n rule: dec_nat.induct)
  case (1 n)
  have "n mod 10 < 10" by simp
  then have "32 \<le> 48 + n mod 10 \<and> 48 + n mod 10 \<le> 126" by linarith
  with 1 show ?case by (subst dec_nat.simps) simp
qed

lemma printable_dumps: "(\<And>r. printable (fr r)) \<Longrightarrow> printable (dumps_ascii fr v)"
  by (induction fr v rule: dumps_ascii.induct)
    (auto simp: printable_quote printable_dec_nat dec_int_def lit_def intro!: printable_commas)

lemma utf8_encode_printable: "printable s \<Longrightarrow> utf8_encode s = Inr s"
proof -
  assume p: "printable s"
  have "concat (map utf8_bytes s) = s" using p by (induction s) (simp_all add: utf8_bytes_def)
  moreover have "\<not> has_surrogate s" using p by (auto simp: has_surrogate_def is_surrogate_def printable_def)
  ultimately show ?thesis by (simp add: utf8_encode_def)
qed

text \<open>Any payload, whatever its texts hold, makes a response of printable ASCII.\<close>

lemma json_response_total:
  assumes "\<And>r. printable (fr r)"
  shows "json_response fr payload status = Inr (status, dumps_ascii fr payload) \<and> printable (dumps_ascii fr payload)"
  using utf8_encode_printable [OF printable_dumps [OF assms]] printable_dumps [OF assms] by (simp add: json_response_def)

end
