(* ===== verification/Samples.thy ===== *)
theory Samples
  imports Supervise Dispatch WorkerLife Hints Executors Settlement Subscribing Api Runtime QueueSpec
    Commands Sdk App SchemaText Budget Replies
begin

text \<open>
  Concrete values at which the properties of the root theory are applied: a server
  environment, a task type with limits, and a database with tasks in every phase.
\<close>

definition env0 :: pg where
  "env0 = \<lparr>tx_now = 100, clock = 100, rnd = (\<lambda>_. 1 / 2), fresh_uuid = (\<lambda>i. nat i + 7),
     to_jsonb = JStr, column_size = (\<lambda>_. 10)\<rparr>"

text \<open>Another session's server, which draws another token.\<close>

definition env1 :: pg where
  "env1 = env0\<lparr>fresh_uuid := (\<lambda>_. 50)\<rparr>"

definition policy0 :: policy where
  "policy0 = \<lparr>p_max_attempts = 3, p_attempt_timeout = 60, p_backoff = default_backoff,
     p_max_concurrency = Some 2, p_max_concurrency_per_key = Some 1\<rparr>"

definition mail :: ustr where "mail = lit ''mail''"

definition type0 :: task_type_row where
  "type0 = \<lparr>ty_name = mail, ty_executor = Asyncio, ty_input_schema = JNull, ty_output_schema = None,
     ty_policy = JNull, ty_max_conc = Some 2, ty_max_conc_key = Some 1, ty_fingerprint = [],
     ty_updated_at = 0, ty_paused = False\<rparr>"

definition row0 :: task_row where
  "row0 = \<lparr>t_id = 1, t_type = mail, t_state = Queued, t_priority = 0, t_key = Some (lit ''k''), t_ckey = None,
     t_input = JNull, t_result = None, t_error = None, t_progress = None, t_attempt = 0, t_failures = 0,
     t_max_attempts = 3, t_timeout = 60, t_backoff = default_backoff, t_token = None, t_lease_until = None,
     t_worker = None, t_cancel_at = None, t_created_at = 0, t_run_at = 50, t_started_at = None,
     t_finished_at = None, t_metadata = None\<rparr>"

definition running0 :: task_row where
  "running0 = row0\<lparr>t_id := 2, t_key := None, t_state := Running, t_attempt := 1, t_token := Some 9,
     t_lease_until := Some 90, t_worker := Some (lit ''w''), t_started_at := Some 40\<rparr>"

definition done0 :: task_row where
  "done0 = row0\<lparr>t_id := 3, t_key := None, t_state := Failed, t_attempt := 3, t_failures := 3,
     t_worker := Some (lit ''w''), t_finished_at := Some 60\<rparr>"

definition sub0 :: sub_row where
  "sub0 = \<lparr>s_name = lit ''audit'', s_states = [Queued, Running, Succeeded, Failed, Cancelled],
     s_types = None, s_created_at = 0, s_backfill = None, s_generation = 5\<rparr>"

definition db0 :: db where
  "db0 = \<lparr>tasks = [row0, running0, done0], task_types = [type0], subscriptions = [sub0], events = [],
     next_id = 4, next_seq = 1, schema_version = Some (lit ''1'')\<rparr>"

definition nolocks :: locks where
  "nolocks = \<lparr>lk_task = (\<lambda>_. False), lk_share = (\<lambda>_. False), lk_update = (\<lambda>_. False)\<rparr>"

definition newtask0 :: new_task where
  "newtask0 = \<lparr>n_type = mail, n_input = [], n_policy = policy0, n_priority = SInt 0, n_run_at = None,
     n_key = Some (lit ''k''), n_ckey = None, n_metadata = None\<rparr>"

lemmas sample_defs = env0_def policy0_def mail_def type0_def row0_def running0_def done0_def sub0_def
  db0_def nolocks_def newtask0_def default_backoff_def

lemma policy0_ok: "policy_ok policy0"
  using default_backoff_ok by (simp add: policy_ok_def policy0_def limit_ok_def MAX_DURATION_S_def)

lemma db0_inv: "db_inv db0"
  using default_backoff_ok
  by (simp add: db_inv_def tasks_inv_def outbox_inv_def active_keys_unique_def row_inv_def sample_defs
      limit_ok_def)

section \<open>Executions, attempts and consumers\<close>

definition stubborn :: scenario where
  "stubborn = \<lparr>sc_process = True, sc_signals = (\<lambda>w. if w = 0 then [Shutdown] else []), sc_end = None,
     sc_result = Returned [], sc_kill = (\<lambda>i. i = 3)\<rparr>"

definition plain_doc :: "rat \<Rightarrow> ustr" where "plain_doc r = [54, 48]"

lemma run_stubborn:
  "run_execution plain_doc (\<lambda>_. []) 1024 60 5 None stubborn
    = Some ([DoStop, DoKill False, DoCancelRunner, DoKill False, DoKill False, DoKill True,
        DoWrite Release None, DoKill False, DoCancelRunner], False)"
  by (simp add: run_execution_def stubborn_def verified_at_def kill_index_def ended_def eval_nat_numeral
      stop_trace_def settled_outcome_def finish_stopped_def stop_recorded_def signal_all_def
      stop_cause_def outcome_action_def cleanup_simps fatal_end_def upt_rec)

definition failing :: scenario where
  "failing = \<lparr>sc_process = False, sc_signals = (\<lambda>_. []), sc_end = Some 0,
     sc_result = RaisedOther \<lparr>x_qualname = lit ''KeyError'', x_str = Inr [], x_traceback = Inr []\<rparr>,
     sc_kill = (\<lambda>_. False)\<rparr>"

definition attempt0 :: attempt where
  "attempt0 = \<lparr>at_id = 2, at_token = 9, at_renewed = 60, at_requested = False, at_settled = False, at_cause = None\<rparr>"

definition feed0 :: feed where
  "feed0 = \<lparr>fd_name = lit ''audit'', fd_generation = 5, fd_batch_size = 10, fd_closed = False, fd_batch = None\<rparr>"

definition event0 :: event_row where
  "event0 = \<lparr>e_seq = 1, e_sub = lit ''audit'', e_task = 3, e_type = mail, e_state = Failed, e_attempt = 3,
     e_created_at = 60\<rparr>"

definition db1 :: db where "db1 = db0\<lparr>events := [event0], next_seq := 2\<rparr>"

lemma db1_inv: "db_inv db1"
  using db0_inv by (simp add: db_inv_def outbox_inv_def db1_def event0_def db0_def sub0_def)

definition feed_sys1 :: feed_sys where
  "feed_sys1 = \<lparr>fs_db = db1, fs_feeds = [fst (feed_next (\<lambda>_. False) db1 feed0), feed0]\<rparr>"

lemma feed0_next:
  "feed_next (\<lambda>_. False) db1 feed0
     = (feed0\<lparr>fd_batch := Some \<lparr>ba_events = [to_event event0], ba_active = True\<rparr>\<rparr>, Deliver [to_event event0])"
  by (simp add: feed_next_def feed0_def feed_rollback_def db1_def find_sub_def sample_defs order_limit_def
      event0_def Let_def)

lemma feed_sys1_reach: "feed_reach feed_sys1"
proof -
  let ?fs = "[feed0, feed0]"
  have "feed_reach \<lparr>fs_db = db1, fs_feeds = [] @ [feed0]\<rparr>"
    by (rule more_steps [OF start [OF db1_inv] FOpen]) (simp add: feed0_def)
  then have "feed_reach \<lparr>fs_db = db1, fs_feeds = [feed0]\<rparr>" by simp
  from more_steps [OF this FOpen [of feed0]] have two: "feed_reach \<lparr>fs_db = db1, fs_feeds = ?fs\<rparr>"
    by (simp add: feed0_def)
  have none: "held_by_others 0 ?fs = (\<lambda>_. False)"
    by (rule ext) (auto simp: held_by_others_def held_def feed0_def less_Suc_eq)
  have "feed_step \<lparr>fs_db = db1, fs_feeds = ?fs\<rparr> (ANext 0)
      \<lparr>fs_db = db1, fs_feeds = ?fs[0 := fst (feed_next (\<lambda>_. False) db1 feed0)]\<rparr>"
    by (rule FNext [where res = "snd (feed_next (\<lambda>_. False) db1 feed0)"]) (simp_all add: none)
  from more_steps [OF two this] show ?thesis by (simp add: feed_sys1_def)
qed

definition marker0 :: backfill_marker where
  "marker0 = \<lparr>bf_since = None, bf_pending = [(Failed, 0), (Queued, 0)]\<rparr>"

definition db2 :: db where
  "db2 = db0\<lparr>subscriptions := [sub0\<lparr>s_backfill := Some marker0\<rparr>]\<rparr>"

section \<open>Hosts, sandboxes and models\<close>

definition si0 :: "ustr \<Rightarrow> exn + int" where "si0 s = Inr (digits_value s)"

definition host0 :: host where
  "host0 = \<lparr>host_name = lit ''h'', proc_stat = (\<lambda>_. None), kill_zero = (\<lambda>_. Inl ProcessLookupError)\<rparr>"

definition stat0 :: ustr where
  "stat0 = lit ''7'' @ 32 # 40 # lit ''a) b'' @ 41 # concat (map ((#) 32) (replicate 19 (lit ''0'') @ [lit ''5'']))"

definition host1 :: host where "host1 = host0\<lparr>proc_stat := (\<lambda>_. Some stat0)\<rparr>"

definition environ0 :: "nat list" where
  "environ0 = environ_bytes [text_bytes (lit ''FRONTA_WORKER_ID=h:7:5-a''), text_bytes (lit ''FRONTA_SANDBOX_ID=x'')]"

definition os0 :: os where
  "os0 = \<lparr>os_proc = (\<lambda>t pid. if (pid = 8 \<or> pid = 9) \<and> t < 100
            then Some \<lparr>ps_uid = nat pid, ps_environ = (\<lambda>_. Some environ0)\<rparr> else None),
     open_error = (\<lambda>_ _. False), signal_error = (\<lambda>_ _. False)\<rparr>"

lemma alive_os0: "alive_as os0 t pid u \<longleftrightarrow> (pid = 8 \<or> pid = 9) \<and> t < 100 \<and> u = nat pid"
  by (auto simp: alive_as_def os0_def)

lemma os0_lawful: "lawful os0"
  by (auto simp: lawful_def alive_os0)

definition loads0 :: "nat list \<Rightarrow> exn + json" where
  "loads0 _ = Inr (JObj [(lit ''child-pid'', JInt 9)])"

definition launch0 :: launch where
  "launch0 = \<lparr>la_start = Inr (), la_interrupt = None, la_line = [123, 125]\<rparr>"

definition sandbox0 :: sandbox_process where
  "sandbox0 = \<lparr>sx_pid = 8, sx_returncode = None, sx_sandbox_id = lit ''x'', sx_init_pid = 9, sx_init = Some 9,
     sx_outer = Some 8, sx_dead = False\<rparr>"

lemma marker0_occurs: "occurs (marker SANDBOX_ENV (lit ''x'')) environ0"
  by (simp add: marker_def SANDBOX_ENV_def environ0_def environ_bytes_def text_bytes_def utf8_bytes_def)

lemma spawn_os0: "spawn os0 0 loads0 si0 (lit ''x'') 8 launch0
    = (Inr sandbox0, [ProcessStarted, WriteEndClosed, ReadEndHandedOver])"
  using marker0_occurs
  by (simp add: spawn_def launch0_def loads0_def child_pid_def obj_item_def open_marked_def pidfd_open_def
      environ_has_def os0_def sandbox0_def)

definition unit_api :: "unit input_api" where
  "unit_api = \<lparr>ia_validate = (\<lambda>_. Inr ()), ia_dump = (\<lambda>_. Inr (\<lambda>i. if i = 0 then Some (PyDict []) else None, PyRef 0)),
     ia_load = (\<lambda>_. Inr ()), ia_schema = JNull\<rparr>"

definition token0 :: ustr where "token0 = lit ''s3''"


definition view0 :: "nat \<Rightarrow> server_view" where
  "view0 k = \<lparr>sv_locks = (if k < 2 then [\<lparr>lo_type = lit ''virtualxid'', lo_mode = lit ''ExclusiveLock'', lo_granted = True,
       lo_vxid = lit ''3/7'', lo_pid = 9\<rparr>] else []),
     sv_activity = [\<lparr>ac_pid = 9, ac_database = Some (lit ''q''), ac_user = None, ac_application = None, ac_xact_start = None\<rparr>],
     sv_backend = 4, sv_database = lit ''q'', sv_clock = of_nat k\<rparr>"

definition txn0 :: txn where "txn0 = \<lparr>tx_vxid = lit ''3/7'', tx_begin = 0, tx_end = Some 5\<rparr>"

lemma blockers_view0:
  "backfill_blockers (view0 k) ts = (if k < 2 \<and> (case ts of None \<Rightarrow> True | Some xs \<Rightarrow> lit ''3/7'' \<in> set xs)
     then [(lit ''3/7'', 9, None, None, None)] else [])"
  by (cases ts) (simp_all add: backfill_blockers_def view0_def)

definition api0 :: api_env where
  "api0 = \<lparr>ae_settings = default_settings, ae_fuel = 1, ae_pg = (\<lambda>_. env0), ae_others = (\<lambda>_. id), ae_ticks = (\<lambda>_. 0),
     ae_start = 0, ae_float = (\<lambda>_. []), ae_collate = id, ae_policy = (\<lambda>_. Inr policy0), ae_errors = (\<lambda>_ _. Inr 0)\<rparr>"

definition life0 :: life where
  "life0 = \<lparr>lf_settings = Inr \<lparr>so_id = 1, so_values = default_settings, so_dsn = Some (lit ''q'')\<rparr>,
     lf_opened = (\<lambda>_. (Inr (), Inr ())), lf_checks = Inr (), lf_entered = Inr (),
     lf_serving = \<lparr>se_claims = Inl CancelledError, se_drain = Inr (), se_redrain = Inr (), se_left = [(3, True), (7, False)],
       se_cancelled = True\<rparr>,
     lf_left = id, lf_closing = \<lparr>cl_hints = Inr (), cl_renewal = Inr (), cl_pool = Inr ()\<rparr>, lf_cancelled = True,
     lf_control = run_control [AttemptDone True, ServeFailed]\<rparr>"

end
