(* ===== verification/Spec2Isabelle.thy ===== *)
theory Spec2Isabelle
  imports Samples Supervise Dispatch WorkerLife Hints Decode Processes Sandboxes TaskDefs Executors Service Http
    Catalog Config Model Codec Utf8 Truncate Enqueue Errors Json
begin

text \<open>
  Fronta is an asyncio task queue on PostgreSQL (\<open>src/src/fronta\<close>). Clients enqueue tasks, workers
  claim them under a lease, run handlers or sandboxed processes, and write one outcome per attempt;
  a reaper recovers expired leases; subscribers read an outbox of state changes. All coordination
  goes through single SQL statements fenced by an execution token, so the development models the
  tables, every statement that writes them, and the code of the client, the worker and the server
  that issues the statements.

  \<^bold>\<open>Theories: values and storage.\<close>
  Prelude holds text, time, results and the two table operations (\<open>UPDATE \<dots> WHERE\<close>,
  \<open>ORDER BY \<dots> LIMIT\<close>). Errors, Json and Model translate \<open>errors.py\<close> and \<open>model.py\<close>; Utf8, Codec
  and Truncate translate \<open>codec.py\<close>, Decode the decoding of process output; Config translates \<open>config.py\<close>.
  Database is the schema, the outbox insert shared by all transitions, and the table invariant \<open>db_inv\<close>
  with the locales \<open>row_update\<close> and \<open>row_transition\<close>. Enqueue, Claim (with Admission and ClaimOrder),
  Transitions and Catalog translate \<open>store.py\<close>, \<open>claim.sql\<close>, \<open>claim_candidate.sql\<close> and \<open>complete.sql\<close>;
  SchemaText translates the assembly of the schema script and its loop that locks the tables; Feed,
  Delivery and Subscribing translate \<open>feed.py\<close> and its store operations. Lifecycle composes every
  statement into one step relation (\<open>run_stmt\<close>, \<open>reachable\<close>); Outcomes proves what single statements and
  sequences of them promise; QueueSpec is the abstract queue that the statements refine.

  \<^bold>\<open>Theories: worker, client and server.\<close>
  Controller, Renewal, Batcher, Supervise, Dispatch and WorkerLife translate \<open>worker.py\<close>: the attempt
  controller, lease renewal, the completion batcher, fenced writes with the pace of the claim loop,
  one turn of the claim loop with its releases, and start, exit status, drain and watchdog; Upkeep adds
  the background passes and the life of a worker from its pools to its exit, Budget the time a stop
  takes. Hints translates \<open>hints.py\<close>. Processes and Sandboxes translate \<open>sandbox.py\<close>: worker ids, marked processes,
  pidfds and the scavenger; argument vector, launch, output and kill of a sandbox. TaskDefs and
  Executors translate \<open>definitions.py\<close> and \<open>executors.py\<close>; Settlement joins the attempt controller with the
  process execution it drives. Service, Http, Api, Replies and App translate \<open>server/\<close>, Runtime \<open>runtime.py\<close>, Sdk the
  SDK functions on it, Commands \<open>cli.py\<close> with the start of the server. Samples holds concrete values
  for the witnesses. This theory holds the properties C1 to C40 and supporting theorems.

  \<^bold>\<open>State.\<close> A database is a record \<open>db\<close> of lists of rows, one record per table with the columns of
  \<open>schema.sql\<close>. What a statement reads from the server (transaction and wall clock, \<open>random()\<close>,
  \<open>gen_random_uuid()\<close>, the \<open>jsonb\<close> cast, column sizes) is an argument \<open>env :: pg\<close>; locks that other
  sessions hold are \<open>locks\<close> or \<open>busy\<close>. A statement is atomic, as PostgreSQL executes it; interleaving is
  the order of statements. Where the code retries over several statements (\<open>enqueue\<close>, the wait and the
  backfill of \<open>subscribe\<close>, \<open>fenced_write\<close> as \<open>fenced_db\<close> and \<open>retry_complete\<close>), what other sessions or the connection do in between is an
  argument. Coroutines that share state are step functions over histories of their suspension points
  (\<open>batcher_step\<close>, \<open>hints_step\<close>, \<open>px_step\<close>, \<open>pidfd_step\<close>, \<open>control_step\<close>, \<open>limit_step\<close>). The processes of a
  host are a timeline \<open>os\<close>: who holds a pid at a time, with which environment, and when opening or
  signalling fails; a pidfd is the process it was opened on. \<open>lawful\<close> is what Linux guarantees: a
  process that has exited does not come back.

  \<^bold>\<open>Abstract specification.\<close> QueueSpec reads a database as a queue of slots (\<open>abs_queue\<close>) and every
  statement as a request on it (\<open>request_of\<close>); the locale \<open>row_refines\<close> is the contract between a
  statement's guard and new row and its request, \<open>forward_simulation\<close> lifts single steps to runs (C4).
  \<open>hard_kill\<close> (Settlement) is the contract of a kill that answers only after a verified exit, given by
  the sandbox and by the execution around it.

  \<^bold>\<open>Cancellation and time.\<close> A controller is run to its end or cut at any of its waits (\<open>controlled\<close>, with
  \<open>cut\<close> and the \<open>finally\<close> clause \<open>end_runner\<close>). Budget counts the time of a stop from the time-outs of its
  waits; how long the runner's own clean-up takes is an argument, bounded by a kill time-out.

  \<^bold>\<open>Parameters.\<close> Code outside \<open>src/\<close> is an argument: pydantic models are records of functions
  (\<open>input_api\<close>, \<open>output_api\<close>), the JSON parser \<open>loads\<close>, the conversion \<open>int\<close> of a text \<open>si\<close>, the shortest text
  of a float \<open>fr\<close>, the JSON Schema validator, SHA-256, and the views of \<open>pg_locks\<close> and \<open>pg_stat_activity\<close>.

  \<^bold>\<open>Fuel.\<close> Loops that wait for the outside world take fuel: \<open>enqueue_loop\<close> (enough once the clock passes
  the deadline, \<open>enqueue_ends\<close>), \<open>wait_loop\<close> (enough for the polls until the captured transactions have
  ended, \<open>Subscribing.wait_ends\<close>), \<open>backfill_loop\<close> (enough for the outstanding rows and pending states,
  \<open>subscribe_projects\<close>), \<open>feed_anext\<close> (enough for the pass at which an event is there, \<open>event_delivered\<close>),
  \<open>verify_dead\<close> (enough for the first verified kill, \<open>settlement_ends\<close>), \<open>fenced_db\<close> (enough for the first
  answered try, \<open>claims_tracked\<close>), \<open>fenced_loop\<close> (enough for the first
  definite answer, \<open>fenced_write_ends\<close>), \<open>lock_loop\<close> (enough for the first try at which no table is held,
  \<open>SchemaText.lock_loop_ends\<close>), \<open>release_loop\<close>, \<open>purge_loop\<close> and \<open>expire_loop\<close> (enough for one
  statement per row, \<open>claims_tracked\<close> and Dispatch) and \<open>follow_pages\<close> (one page per row, \<open>service_pages\<close>).
  All other loops are total functions.

  \<^bold>\<open>Properties.\<close> They follow the life of a task: the tables under any statements and the queue they
  refine; claiming; fencing and retries; the attempt controller and its sandbox; leases and
  cancellation; the batcher; feeds and hints; enqueueing; processes and sandboxes; recovery; the server;
  text, JSON and error documents. \<open>replaced_attempt_untracked\<close> states a defect, as do the supporting
  theorems \<open>unopened_sandbox_reported_dead\<close> and \<open>unsanitized_name_raises\<close>. Lemmas of the component
  theories carry the proofs; interfaces are locales interpreted on the model (\<open>row_transition\<close>,
  \<open>published_update\<close> and \<open>row_refines\<close> on each transition, \<open>one_shot\<close> on completion, claim and requeue,
  \<open>outcome_writer\<close> on \<open>store_complete\<close>, \<open>forward_simulation\<close> on \<open>run_stmt\<close>, \<open>hard_kill\<close> on the two kills).

  \<^bold>\<open>Limits of the model.\<close> Times and durations are rationals where the code has binary64 and
  microseconds; integers of any size are rendered, where the interpreter limits the digits of
  \<open>int\<close> to text conversion. PostgreSQL's planner, indexes and lock queues are represented only by
  what rows a statement sees and skips.

  \<^bold>\<open>Not modelled.\<close> The text of the SQL resources, which is an argument; the event loop itself
  (tasks, signal handlers, the sockets of listening connections), whose results and cancellations are
  arguments; the parsing of requests into typed arguments by FastAPI and the MCP library, and static
  files; the options of the command line and the environment behind the settings; logging.
\<close>

section \<open>The task table and its life cycle\<close>

text \<open>C1: every database the program can produce from the empty schema, by any interleaving of
  its committed statements, satisfies the table invariant: ids are unique and below the sequence,
  a row has a token and a lease exactly while it runs, attempt and failure counts stay in bounds,
  and no two active tasks of a type share a dedupe key.\<close>

theorem reachable_db_inv: "reachable d \<Longrightarrow> db_inv d"
  by (rule reachable_inv)

theorem reachable_db_inv_witness:
  "db_inv (run_stmt env0 (SEnqueue newtask0) empty_db)"
proof -
  have "reachable (run_stmt env0 (SEnqueue newtask0) empty_db)"
    by (rule reachable.stmt [OF reachable.init]) (simp add: newtask0_def policy0_ok)
  from reachable_db_inv [OF this] show ?thesis .
qed

text \<open>C2: a statement changes a task only along the documented state graph, never touches an
  immutable column, counts one attempt per claim, never sends a running task with a requested
  cancellation back to the queue, removes only terminal tasks and inserts only fresh queued ones.\<close>

theorem statements_legal:
  assumes "db_inv d" "stmt_ok s"
  shows "legal_tasks (tasks d) (tasks (run_stmt env s d))"
  by (rule legal_run [OF assms])

theorem statements_legal_witness:
  "legal_tasks (tasks db0) (tasks (run_stmt env0 (SReap 100 (\<lambda>_. False)) db0))
    \<and> map t_state (tasks (run_stmt env0 (SReap 100 (\<lambda>_. False)) db0)) = [Queued, Queued, Failed]"
  using statements_legal [OF db0_inv, of "SReap 100 (\<lambda>_. False)" env0]
  by (simp add: store_reap_def with_events_def update_where_def expired_ids_def lease_expired_def sample_defs
      order_limit_def reap_upd_def Let_def reap_guard_def)

text \<open>C3: whenever a statement changes a task's state, the same statement appends, for every
  subscription that matches the new state, an event with the task's new state and attempt.\<close>

theorem state_changes_logged:
  assumes "db_inv d" "stmt_ok s" "r \<in> set (tasks d)" "x \<in> set (tasks (run_stmt env s d))"
    "t_id x = t_id r" "t_state x \<noteq> t_state r" "sub \<in> set (subscriptions d)" "matches sub x"
  shows "(s_name sub, t_id x, t_type x, t_state x, t_attempt x)
    \<in> event_content ` set (drop (length (events d)) (events (run_stmt env s d)))"
  by (rule logged_run [OF assms])

theorem state_changes_logged_witness:
  "(lit ''audit'', 1, mail, Cancelled, 0) \<in> event_content ` set (events (run_stmt env0 (SCancel 1) db0))"
proof -
  let ?x = "row0\<lparr>t_state := Cancelled, t_cancel_at := Some 100, t_finished_at := Some 100\<rparr>"
  have "?x \<in> set (tasks (run_stmt env0 (SCancel 1) db0))"
    by (simp add: store_request_cancel_def with_events_def update_where_def cancel_guard_def cancel_upd_def
        Let_def sample_defs)
  then show ?thesis
    using state_changes_logged [OF db0_inv, of "SCancel 1" row0 ?x env0 sub0]
    by (simp add: db0_def row0_def sub0_def matches_def)
qed

text \<open>C4: the tables implement the abstract queue of \<open>QueueSpec\<close>: any sequence of statements performs, one
  by one, the requests those statements stand for (take, settle under a token, give back, ask for
  cancellation, expire, revive, forget); hence identifiers are never reused, attempts are never taken
  back, and one attempt is held under one token only.\<close>

theorem queue_refined:
  assumes "db_inv d" "\<forall>l \<in> set ls. stmt_ok (snd l)"
  shows "spec_run (map (\<lambda>l. request_of (fst l) (snd l)) ls) (abs_queue d) (abs_queue (run_all ls d))
    \<and> (\<forall>i. later (abs_queue d i) (abs_queue (run_all ls d) i))"
  using store_sim.trace_refines [OF assms] store_sim.slots_later [OF assms] by (simp add: run_all_fold)

theorem queue_refined_witness:
  "spec_run [Expire, Ask 1] (abs_queue db0) (abs_queue (run_all [(env0, SReap 100 (\<lambda>_. False)), (env0, SCancel 1)] db0))
    \<and> (\<exists>n t. abs_queue db0 2 = Task n (Held t False)
         \<and> abs_queue (run_all [(env0, SReap 100 (\<lambda>_. False)), (env0, SCancel 1)] db0) 2 = Task n Waiting)"
proof -
  have "abs_queue (run_all [(env0, SReap 100 (\<lambda>_. False)), (env0, SCancel 1)] db0) 2 = Task 1 Waiting"
    by (simp add: run_all_fold run_one_def abs_queue_def store_get_task_def store_reap_def store_request_cancel_def with_events_def
        update_where_def expired_ids_def lease_expired_def sample_defs order_limit_def reap_upd_def Let_def reap_guard_def
        cancel_guard_def cancel_upd_def slot_simps)
  moreover have "\<exists>t. abs_queue db0 2 = Task 1 (Held t False)"
    by (simp add: abs_queue_def store_get_task_def sample_defs slot_simps)
  ultimately show ?thesis
    using queue_refined [OF db0_inv, of "[(env0, SReap 100 (\<lambda>_. False)), (env0, SCancel 1)]"] by auto
qed

section \<open>Claiming\<close>

text \<open>C5: a claim never pushes the number of running tasks of a type over the type's concurrency limit,
  nor the number of those with one concurrency key over the limit per key (if a limit was lowered
  below the running count, it adds nothing).\<close>

theorem limits_kept:
  assumes "db_inv d" "find_type d name = Some ty"
  shows "(\<forall>m. ty_max_conc ty = Some m \<longrightarrow> running_count (tasks (fst (store_claim env lk clk types w l dl n d))) name
      \<le> max m (running_count (tasks d) name))
    \<and> (\<forall>m key. ty_max_conc_key ty = Some m \<longrightarrow> running_key_count (tasks (fst (store_claim env lk clk types w l dl n d))) name key
      \<le> max m (running_key_count (tasks d) name key))"
  using claim_type_limit [OF assms] claim_key_limit [OF assms] by blast

theorem limits_kept_witness:
  "running_count (tasks (fst (store_claim env0 nolocks (\<lambda>_. 0) [mail] (lit ''w'') 60 5 10 db0))) mail \<le> 2
    \<and> running_key_count (tasks (fst (store_claim env0 nolocks (\<lambda>_. 0) [mail] (lit ''w'') 60 5 10 db0))) mail (lit ''c'') \<le> 1"
proof -
  have ty: "find_type db0 mail = Some type0" by (simp add: find_type_def sample_defs)
  have now: "running_count (tasks db0) mail = 1" "running_key_count (tasks db0) mail (lit ''c'') = 0"
    by (simp_all add: running_count_def running_key_count_def sample_defs)
  have lims: "ty_max_conc type0 = Some 2" "ty_max_conc_key type0 = Some 1" by (simp_all add: type0_def)
  note kept = limits_kept [OF db0_inv ty, of env0 nolocks "\<lambda>_. 0" "[mail]" "lit ''w''" 60 5 10]
  show ?thesis
    using mp [OF spec [OF conjunct1 [OF kept], of 2] lims(1)] mp [OF spec [OF spec [OF conjunct2 [OF kept], of 1], of "lit ''c''"] lims(2)] now
    by linarith
qed

text \<open>C6: a claim returns at most the requested number of rows and at most 256; each of them was
  queued, due, not locked by another session, of a requested and unpaused type, and now runs
  with a fresh token, one attempt more and a lease that ends a full lease after the statement.\<close>

theorem claimed_rows_eligible:
  assumes "db_inv d" "n \<ge> 1"
  shows "int (length (snd (store_claim env lk clk types w l dl n d))) \<le> min n 256
    \<and> (\<forall>x \<in> set (snd (store_claim env lk clk types w l dl n d)).
         \<exists>r \<in> set (tasks d). t_state r = Queued \<and> t_run_at r \<le> tx_now env \<and> \<not> lk_task lk (t_id r)
           \<and> t_type r \<in> set types \<and> (\<exists>ty. find_type d (t_type r) = Some ty \<and> \<not> ty_paused ty)
           \<and> t_id x = t_id r \<and> t_state x = Running \<and> t_attempt x = t_attempt r + 1
           \<and> t_token x = Some (fresh_uuid env (t_id r)) \<and> t_lease_until x = Some (clock env + l))"
proof (rule conjI [OF claim_length [OF assms]], rule ballI)
  fix x assume x: "x \<in> set (snd (store_claim env lk clk types w l dl n d))"
  from claimed_row [OF assms x] obtain r where
    "r \<in> set (tasks d)" "claim_guard (v_ids (claim_admission env lk clk types dl n d)) r" "x = claim_upd env w l r"
    "t_run_at r \<le> tx_now env" "\<not> lk_task lk (t_id r)" "t_type r \<in> set types"
    "\<exists>ty. find_type d (t_type r) = Some ty \<and> \<not> ty_paused ty" by blast
  then show "\<exists>r \<in> set (tasks d). t_state r = Queued \<and> t_run_at r \<le> tx_now env \<and> \<not> lk_task lk (t_id r)
      \<and> t_type r \<in> set types \<and> (\<exists>ty. find_type d (t_type r) = Some ty \<and> \<not> ty_paused ty)
      \<and> t_id x = t_id r \<and> t_state x = Running \<and> t_attempt x = t_attempt r + 1
      \<and> t_token x = Some (fresh_uuid env (t_id r)) \<and> t_lease_until x = Some (clock env + l)"
    by (intro bexI [of _ r]) (simp_all add: claim_guard_def claim_upd_def)
qed

theorem claimed_rows_eligible_witness:
  "int (length (snd (store_claim env0 nolocks (\<lambda>_. 0) [mail] (lit ''w'') 60 5 1 db0))) \<le> 1"
  using claimed_rows_eligible [OF db0_inv, of 1] by simp

text \<open>C7: when no other session holds locks and some task can be claimed, a claim is not empty,
  and its first row is at least as urgent (higher priority, then due earlier, then lower id) as
  every claimable task.\<close>

theorem claim_serves_head:
  assumes "db_inv d" "unlocked lk" "claimable env d types r" "n \<ge> 1"
  shows "\<exists>x xs. snd (store_claim env lk clk types w l dl n d) = x # xs \<and> claim_key x \<le> claim_key r"
  by (rule claim_takes_head [OF assms])

theorem claim_serves_head_witness:
  "\<exists>x xs. snd (store_claim env0 nolocks (\<lambda>_. 0) [mail] (lit ''w'') 60 5 10 db0) = x # xs
     \<and> claim_key x \<le> claim_key row0"
  by (rule claim_serves_head [OF db0_inv])
    (simp_all add: unlocked_def claimable_def find_type_def running_count_def sample_defs)

text \<open>C8: one turn of the claim loop ends once the database answers the release it may have to write,
  however often the connection is lost before. Whatever the claim statement answered - rows, a
  connection lost before or after the commit, an error - and also when a shutdown lands meanwhile,
  afterwards every row that runs under the worker's name is tracked as an attempt, unless the
  release was given up (aborted by an immediate shutdown, or refused by the database) or the claim
  committed only after the release; and the worker has no more attempts than its concurrency (or
  than it had).\<close>

theorem claims_tracked:
  assumes "db_inv d" "tracked w atts d" "length (tasks d) < fuel" "tries j = TryAnswered" "j < fuel"
  shows "\<exists>d' atts' dispatched.
      claim_turn fuel env env' lk clk types w s stopping abort tries reply atts d = Some (d', atts', dispatched)
    \<and> int (length atts') \<le> max (int (length atts)) (concurrency s)
    \<and> (reply \<noteq> ClaimLate \<and> (\<forall>i \<le> j. \<not> abort i \<and> (\<forall>n. tries i \<noteq> TryRefused n)) \<longrightarrow> tracked w atts' d')"
  by (rule claim_turn_tracks [where tries = tries and j = j, OF assms])

theorem claims_tracked_witness:
  "\<exists>d' atts' dispatched. claim_turn 4 env0 (\<lambda>_ _. env0) nolocks (\<lambda>_. 0) [mail] (lit ''w'') default_settings False
      (\<lambda>_. False) (\<lambda>k. if k = 0 then TryLost 0 True else TryAnswered) (ClaimLost True) [2] db0 = Some (d', atts', dispatched)
    \<and> tracked (lit ''w'') atts' d' \<and> int (length atts') \<le> 10"
proof -
  let ?tries = "\<lambda>k::nat. if k = 0 then TryLost 0 True else TryAnswered"
  have old: "tracked (lit ''w'') [2] db0"
    by (simp add: tracked_def orphan_def sample_defs)
  have len: "length (tasks db0) < 4" by (simp add: db0_def)
  have c: "concurrency default_settings = 10" by (simp add: default_settings_def)
  have t: "?tries 1 = TryAnswered" by simp
  have lt: "(1::nat) < 4" by simp
  from claims_tracked [where tries = ?tries and j = 1 and reply = "ClaimLost True" and abort = "\<lambda>_. False" and s = default_settings,
      OF db0_inv old len t lt, of env0 "\<lambda>_ _. env0" nolocks "\<lambda>_. 0" "[mail]" False]
  show ?thesis unfolding c by (auto split: if_splits)
qed

text \<open>C9: the worker loses sight of a task it claims again too early. An attempt that has lost its lease
  is kept by the task's id until it has settled; if its row, requeued by the reaper, is claimed by
  the same worker meanwhile, the end of the old attempt removes the entry of the new one, and the
  row then runs under the worker's name without being tracked (or renewed, or drained).\<close>

theorem replaced_attempt_untracked:
  assumes "db_inv d" "tracked w atts d" "int (length atts) < concurrency s"
    "claim_turn fuel env env' lk clk types w s False abort tries ClaimAnswered atts d = Some (d', atts', dispatched)"
    "x \<in> set (snd (store_claim env lk clk types w (lease_s s) (poll_interval_s s) (concurrency s - int (length atts)) d))"
    "t_id x \<in> set atts"
  shows "tracked w atts' d' \<and> \<not> tracked w (attempt_ended (t_id x) atts') d'"
  using dispatched_tracked [OF assms(1,2,4)] ended_attempt_untracks [OF assms(1,4,5,3)] by blast

theorem replaced_attempt_untracked_witness:
  "\<exists>d' atts' dispatched. claim_turn 5 (env0\<lparr>tx_now := 5000, clock := 5000\<rparr>) (\<lambda>_ _. env0) nolocks (\<lambda>_. 0) [mail] (lit ''w'')
      default_settings False (\<lambda>_. False) (\<lambda>_. TryAnswered) ClaimAnswered [2] (fst (store_reap env0 100 (\<lambda>_. False) (db0\<lparr>tasks := [running0]\<rparr>)))
      = Some (d', atts', dispatched)
    \<and> tracked (lit ''w'') atts' d' \<and> \<not> tracked (lit ''w'') (attempt_ended 2 atts') d'"
proof -
  let ?env = "env0\<lparr>tx_now := 5000, clock := 5000\<rparr>" and ?d = "fst (store_reap env0 100 (\<lambda>_. False) (db0\<lparr>tasks := [running0]\<rparr>))"
  have "db_inv (db0\<lparr>tasks := [running0]\<rparr>)"
    using db0_inv by (simp add: db_inv_def tasks_inv_def db0_def running0_def row0_def active_keys_unique_def)
  then have inv: "db_inv ?d" by (rule db_inv_reap)
  have tasks: "tasks ?d = [reap_upd env0 running0]"
    by (simp add: store_reap_def with_events_def update_where_def expired_ids_def lease_expired_def sample_defs
        order_limit_def Let_def reap_guard_def)
  have "backoff_until env0 running0 \<le> 5000"
    using backoff_until_bounds(2) [of running0 env0] default_backoff_ok
    by (simp add: running0_def row0_def env0_def default_backoff_def)
  then have row: "t_id (reap_upd env0 running0) = 2" "t_state (reap_upd env0 running0) = Queued" "t_type (reap_upd env0 running0) = mail"
    "t_ckey (reap_upd env0 running0) = None" "t_run_at (reap_upd env0 running0) \<le> 5000"
    by (simp_all add: reap_upd_def running0_def row0_def)
  have types: "task_types ?d = [type0]" by (simp add: store_reap_def with_events_def Let_def db0_def)
  have c: "concurrency default_settings - int (length [2::int]) = 9" by (simp add: default_settings_def)
  have "\<exists>x xs. snd (store_claim ?env nolocks (\<lambda>_. 0) [mail] (lit ''w'') (lease_s default_settings) (poll_interval_s default_settings) 9 ?d) = x # xs
      \<and> claim_key x \<le> claim_key (hd (tasks ?d))"
    by (rule claim_takes_head [OF inv]) (simp_all add: unlocked_def claimable_def find_type_def running_count_def tasks row nolocks_def type0_def types)
  then obtain x where x: "x \<in> set (snd (store_claim ?env nolocks (\<lambda>_. 0) [mail] (lit ''w'') (lease_s default_settings)
      (poll_interval_s default_settings) 9 ?d))" by (metis list.set_intros(1))
  from claimed_row [OF inv _ x] have i: "t_id x = 2" using tasks row(1) by (auto simp: claim_upd_def)
  have old: "tracked (lit ''w'') [2] ?d" by (simp add: tracked_def orphan_def tasks row)
  obtain d' atts' dispatched where turn: "claim_turn 5 ?env (\<lambda>_ _. env0) nolocks (\<lambda>_. 0) [mail] (lit ''w'')
      default_settings False (\<lambda>_. False) (\<lambda>_. TryAnswered) ClaimAnswered [2] ?d = Some (d', atts', dispatched)"
    using claim_turn_tracks [where j = 0 and tries = "\<lambda>_. TryAnswered", OF inv old, of 5 ?env "\<lambda>_ _. env0" nolocks "\<lambda>_. 0" "[mail]"
        default_settings False "\<lambda>_. False" ClaimAnswered]
    by (auto simp: tasks)
  from replaced_attempt_untracked [OF inv old _ turn, of x] x i c turn show ?thesis by (auto simp: default_settings_def)
qed

section \<open>Fencing\<close>

text \<open>C10: once a token is stale, no statement of any worker, reaper or client makes it valid
  again: after any sequence of statements that does not draw the same random token for that task,
  completing, renewing or reporting progress with it changes nothing and reports nothing.\<close>

theorem stale_token_fenced:
  assumes "db_inv d" "stale i tok d" "\<forall>(env, s) \<in> set ss. stmt_ok s \<and> fresh_uuid env i \<noteq> tok"
    "c_id c = i" "c_token c = tok"
  shows "complete_stmt env (c # []) (run_all ss d) = (run_all ss d, [])
    \<and> store_heartbeat env [(i, tok)] l (run_all ss d) = Inr (run_all ss d, [])
    \<and> store_set_progress env i tok text (run_all ss d) = (run_all ss d, False)"
proof -
  have st: "stale i tok (run_all ss d)" by (rule stale_run_all [OF assms(1-3)])
  have "\<not> heartbeat_guard [(i, tok)] r" if "r \<in> set (tasks (run_all ss d))" for r
    using st that by (auto simp: heartbeat_guard_def stale_def)
  then have "store_heartbeat env [(i, tok)] l (run_all ss d) = Inr (run_all ss d, [])"
    by (simp add: store_heartbeat_def update_where_none returning_none)
  with complete_other_rows [of "[c]" "run_all ss d" env] progress_stale [OF st] st assms(4,5) show ?thesis by simp
qed

theorem stale_token_fenced_witness:
  "store_set_progress env0 2 5 [] (run_all [(env0, SReap 100 (\<lambda>_. False))] db0)
     = (run_all [(env0, SReap 100 (\<lambda>_. False))] db0, False)"
  using stale_token_fenced [OF db0_inv, of 2 5 "[(env0, SReap 100 (\<lambda>_. False))]"
      "\<lparr>c_id = 2, c_token = 5, c_kind = Succeed, c_data = None\<rparr>" env0 60 "[]"]
  by (simp add: stale_def sample_defs)

text \<open>C11: an outcome batch written through \<open>fenced_write\<close> takes effect exactly once, whatever number
  of connections is lost before or after the commit and whatever other sessions commit between the
  tries (short of drawing one of the batch's tokens again): the tables end as the others' statements
  and one application of the batch, at one moment among them, leave them. What the worker is told is
  what that application did, or nothing, and the batch's tokens are spent for good. Cancellations are
  reported for tasks whose cancellation is requested (what \<open>cancelled_by_durable_flag\<close> gives).\<close>

theorem outcome_applied_once:
  assumes "db_inv d" "cancels_flagged cs d" "others_ok cs (concat (map snd tries))"
    "retry_complete env cs tries k d = Some (d', out)"
  shows "\<exists>j xs ys zs d1 o1. concat (map snd tries) = xs @ ys @ zs
    \<and> store_complete (env j) cs (run_all xs d) = Inr (d1, o1) \<and> d' = run_all ys d1
    \<and> (out = o1 \<and> ys = [] \<or> out = [])
    \<and> (\<forall>c \<in> set cs. stale (c_id c) (c_token c) d1 \<and> stale (c_id c) (c_token c) d')"
  by (rule retry_complete_once [OF assms(4,3,1,2)])

theorem outcome_applied_once_witness:
  "\<exists>d' out. retry_complete (\<lambda>_. env0) [\<lparr>c_id = 2, c_token = 9, c_kind = Succeed, c_data = None\<rparr>]
       [(LostBefore, [(env1, SCancel 2)]), (LostAfter, []), (Answered, [(env1, SReap 100 (\<lambda>_. False))])] 0 db0
       = Some (d', out)
     \<and> stale 2 9 d'"
proof -
  let ?cs = "[\<lparr>c_id = 2, c_token = 9, c_kind = Succeed, c_data = None\<rparr>]"
  let ?ts = "[(LostBefore, [(env1, SCancel 2)]), (LostAfter, []), (Answered, [(env1, SReap 100 (\<lambda>_. False))])]"
  have ok: "\<exists>z. store_complete env0 ?cs d = Inr z" for d
    by (simp add: store_complete_def Let_def case_prod_beta)
  have "retry_complete (\<lambda>_. env0) ?cs ?ts 0 db0 \<noteq> None"
    unfolding retry_complete.simps by (metis ok option.distinct(1) sum.case(2))
  then obtain d' out where run: "retry_complete (\<lambda>_. env0) ?cs ?ts 0 db0 = Some (d', out)" by fastforce
  have "cancels_flagged ?cs db0" "others_ok ?cs (concat (map snd ?ts))"
    by (simp_all add: cancels_flagged_def others_ok_def env1_def)
  from outcome_applied_once [OF db0_inv this run] run show ?thesis by auto
qed

section \<open>The attempt controller, its sandbox and the worker\<close>



text \<open>C13: the outcome of a sandboxed attempt is written only when its sandbox is gone. Take the
  trace of a controller that settles or is cancelled and the history of the process execution it drives, whose kills gave the
  answers in the trace: at the write, either the sandbox's run had finished by itself, or its init
  had exited by the deadline of some kill, and never comes back. (A launch that pinned no init is
  the defect of \<open>unopened_sandbox_reported_dead\<close>.)\<close>

theorem outcome_after_sandbox_end:
  assumes "controlled fr ps cap timeout fuel recorded sc c = Some (tr, fatal)" "sc_process sc"
    "tr = xs @ DoWrite k v # ys"
    "px_run w (SpawnBegins # es) new_execution = Some (x, acts)" "SpawnBegins \<notin> set es"
    "kill_answers acts = kills_of xs"
    "lawful w" "spawn w t0 loads si sid pid la = (Inr s, steps)" "sx_init s = Some u" "SpawnEnds (Inr s) t walk \<in> set es"
    "\<forall>t deadline b. KillCall t deadline \<in> set es \<or> RunEnds t deadline b \<in> set es \<longrightarrow> t0 + 2 \<le> deadline"
  shows "(\<exists>t deadline. RunEnds t deadline True \<in> set es)
    \<or> (\<exists>t deadline. (KillCall t deadline \<in> set es \<or> RunEnds t deadline False \<in> set es)
         \<and> (\<forall>later \<ge> deadline. \<not> alive_as w later (sx_init_pid s) u))"
proof -
  have "True \<in> set (kill_answers acts)" using written_after_true [OF assms(1-3)] assms(6) by simp
  from verified_kill_ended [OF assms(4,5) this assms(10,9) spawn_process(4) [OF assms(8)]]
  show ?thesis by (rule ended_by_final [OF assms(7-9) _ assms(11)])
qed

theorem outcome_after_sandbox_end_witness:
  "\<exists>deadline \<in> {20, 40, 60, 120}. \<forall>later \<ge> deadline. \<not> alive_as os0 later 9 9"
proof -
  let ?es = "[SpawnEnds (Inr sandbox0) 4 None, KillCall 10 20, KillCall 30 40, KillCall 50 60, KillCall 70 120]"
  let ?xs = "[DoStop, DoKill False, DoCancelRunner, DoKill False, DoKill False, DoKill True]"
  have run: "controlled plain_doc (\<lambda>_. []) 1024 60 5 None stubborn None
      = Some (?xs @ DoWrite Release None # [DoKill False, DoCancelRunner], False)"
    by (simp add: controlled_def run_stubborn)
  have proc: "sc_process stubborn" by (simp add: stubborn_def)
  obtain x acts where px: "px_run os0 (SpawnBegins # ?es) new_execution = Some (x, acts)"
    "kill_answers acts = kills_of ?xs"
    by (simp add: new_execution_def px_spawned_def px_kill_def sx_kill_def sandbox0_def alive_os0 Let_def kills_of_def)
  have i: "sx_init sandbox0 = Some 9" "sx_init_pid sandbox0 = 9" by (simp_all add: sandbox0_def)
  from outcome_after_sandbox_end [OF run proc refl px(1) _ px(2) os0_lawful spawn_os0 i(1), of 4 None] i(2)
  show ?thesis by auto
qed



text \<open>C15: the settlement protocol returns as soon as one kill of the sandbox is answered as
  verified, and it makes the worker exit exactly when a coroutine outlives its grace and its
  kill timeout.\<close>

theorem settlement_ends:
  assumes "sc_kill sc n" "n < fuel" "1 \<le> n"
  shows "\<exists>tr fatal. run_execution fr ps cap timeout fuel recorded sc = Some (tr, fatal)
    \<and> (fatal \<longleftrightarrow> \<not> sc_process sc \<and> \<not> ended sc 1 \<and> \<not> ended sc 2)"
  using run_execution_ends [OF assms] fatal_iff by blast

theorem settlement_ends_witness:
  "\<exists>tr. run_execution plain_doc (\<lambda>_. []) 1024 60 5 None stubborn = Some (tr, False)"
  using settlement_ends [of stubborn 3 5 plain_doc "\<lambda>_. []" 1024 60 None]
  by (auto simp: stubborn_def)

text \<open>C16: the stop protocol of an attempt keeps to the budget the drain gives it (\<open>_stop_budget_s\<close>: the
  grace period, six kill time-outs and a second), whatever the moment the launch of its sandbox
  ends and whether the kills answer in time, as long as the sandbox is verified dead at the first
  try; every further try adds at most a kill time-out and two pauses.\<close>

theorem stop_within_budget:
  assumes "timing_ok s sc tm" "verified_at fuel sc = Some k"
  shows "settle_span s sc tm k \<le> stop_budget_s s
    + of_nat (k - Suc (kill_index sc)) * (kill_timeout_s s + 2 * min 1 (kill_timeout_s s))"
  by (rule settle_span_bound [OF assms])

theorem stop_within_budget_witness:
  "settle_span default_settings slow_sandbox (slow_stop default_settings) 2 = stop_budget_s default_settings
    \<and> settle_span default_settings slow_sandbox (slow_stop default_settings) 2 \<le> stop_budget_s default_settings"
proof -
  have k: "kill_timeout_s default_settings \<ge> 1" "grace_s default_settings \<ge> 0" by (simp_all add: default_settings_def)
  have "kill_index slow_sandbox = 1" by (simp add: kill_index_def ended_def slow_sandbox_def)
  with stop_budget_attained [OF k] stop_within_budget [of default_settings slow_sandbox "slow_stop default_settings" 1 2]
  show ?thesis by simp
qed



section \<open>Leases and cancellation\<close>

text \<open>C18: renewal keeps a worker safe. If every attempt's stored lease ends no earlier than the
  deadline the worker keeps for it, the same holds after a renewal pass, confirmed or not; and
  while an attempt is inside its own deadline, the reaper does not see its row as expired.\<close>

theorem renewed_attempts_not_reaped:
  assumes "db_inv d" "distinct (map at_id atts)" "started + off \<le> clock env"
    "\<forall>a \<in> set atts. covered s off d a \<and> at_renewed a \<le> started"
    "store_heartbeat env (map (\<lambda>a. (at_id a, at_token a)) (filter (renewable s started batch) atts)) (lease_s s) d
      = Inr (d', beats)"
    "renew_attempts s started (\<lambda>_. if confirmed then Some beats else None) batch atts = (atts', ok)"
    "a \<in> set atts'"
  shows "covered s off d' a \<and> (\<forall>r \<in> set (tasks d'). \<forall>now srv. t_id r = at_id a \<and> t_token r = Some (at_token a)
      \<and> \<not> out_of_lease s now a \<and> srv \<le> now + off \<longrightarrow> \<not> lease_expired srv r)"
proof -
  have "covered s off d' a" using renewal_keeps_covered [OF assms(1-6)] assms(7) by blast
  then show ?thesis using covered_not_expired by blast
qed

theorem renewed_attempts_not_reaped_witness:
  "\<not> lease_expired 105 (running0\<lparr>t_lease_until := Some 130\<rparr>)"
proof -
  let ?d = "db0\<lparr>tasks := [row0, running0\<lparr>t_lease_until := Some 130\<rparr>, done0]\<rparr>"
  have beat: "store_heartbeat env0 (map (\<lambda>a. (at_id a, at_token a))
      (filter (renewable default_settings 80 [2]) [attempt0])) (lease_s default_settings) db0 = Inr (?d, [(2, None)])"
    by (simp add: store_heartbeat_def renewable_def attempt0_def out_of_lease_def default_settings_def
        update_where_def returning_def heartbeat_guard_def heartbeat_upd_def sample_defs)
  have run: "renew_attempts default_settings 80 (\<lambda>_. if True then Some [(2, None)] else None) [2] [attempt0]
      = ([attempt0\<lparr>at_renewed := 80\<rparr>], True)"
    by (simp add: renew_attempts_def renewable_def attempt0_def out_of_lease_def default_settings_def
        apply_beat_def Let_def)
  have cov: "\<forall>a \<in> set [attempt0]. covered default_settings 0 db0 a \<and> at_renewed a \<le> 80"
    by (simp add: covered_def attempt0_def default_settings_def sample_defs)
  let ?a = "attempt0\<lparr>at_renewed := 80\<rparr>" and ?r = "running0\<lparr>t_lease_until := Some 130\<rparr>"
  have safe: "\<forall>r \<in> set (tasks ?d). \<forall>now srv. t_id r = at_id ?a \<and> t_token r = Some (at_token ?a)
      \<and> \<not> out_of_lease default_settings now ?a \<and> srv \<le> now + 0 \<longrightarrow> \<not> lease_expired srv r"
    by (rule conjunct2 [OF renewed_attempts_not_reaped [OF db0_inv _ _ cov beat run]])
      (simp_all add: env0_def)
  have "?r \<in> set (tasks ?d)" by simp
  moreover have "t_id ?r = at_id ?a \<and> t_token ?r = Some (at_token ?a)
      \<and> \<not> out_of_lease default_settings 105 ?a \<and> 105 \<le> (105::rat) + 0"
    by (simp add: running0_def attempt0_def out_of_lease_def default_settings_def)
  ultimately show ?thesis using safe by blast
qed

text \<open>C19: an attempt is cancelled through a renewal only by the durable flag: if a renewal leaves an
  attempt with that cause, the row that runs under the attempt's own token has a requested
  cancellation. Notices merely bring the renewal forward.\<close>

theorem cancelled_by_durable_flag:
  assumes "distinct (map at_id atts)" "a \<in> set atts" "at_cause a = None"
    "store_heartbeat env (map (\<lambda>a. (at_id a, at_token a)) (filter (renewable s started batch) atts)) (lease_s s) d
      = Inr (d', beats)"
    "renew_attempts s started (\<lambda>_. if confirmed then Some beats else None) batch atts = (atts', ok)"
    "a' \<in> set atts'" "at_id a' = at_id a" "at_cause a' = Some CancelRequested"
  shows "\<exists>r \<in> set (tasks d). t_id r = at_id a \<and> t_token r = Some (at_token a) \<and> t_state r = Running \<and> t_cancel_at r \<noteq> None"
  by (rule cancelled_by_flag [OF assms])

theorem cancelled_by_durable_flag_witness:
  "\<exists>r \<in> set (tasks (db0\<lparr>tasks := [row0, running0\<lparr>t_cancel_at := Some 70\<rparr>, done0]\<rparr>)).
     t_id r = 2 \<and> t_token r = Some 9 \<and> t_state r = Running \<and> t_cancel_at r \<noteq> None"
proof -
  let ?d = "db0\<lparr>tasks := [row0, running0\<lparr>t_cancel_at := Some 70\<rparr>, done0]\<rparr>"
  let ?d' = "db0\<lparr>tasks := [row0, running0\<lparr>t_cancel_at := Some 70, t_lease_until := Some 130\<rparr>, done0]\<rparr>"
  let ?a' = "attempt0\<lparr>at_renewed := 80, at_cause := Some CancelRequested\<rparr>"
  have beat: "store_heartbeat env0 (map (\<lambda>a. (at_id a, at_token a))
      (filter (renewable default_settings 80 [2]) [attempt0])) (lease_s default_settings) ?d = Inr (?d', [(2, Some 70)])"
    by (simp add: store_heartbeat_def renewable_def attempt0_def out_of_lease_def default_settings_def
        update_where_def returning_def heartbeat_guard_def heartbeat_upd_def sample_defs)
  have run: "renew_attempts default_settings 80 (\<lambda>_. if True then Some [(2, Some 70)] else None) [2] [attempt0]
      = ([?a'], True)"
    by (simp add: renew_attempts_def renewable_def attempt0_def out_of_lease_def default_settings_def
        apply_beat_def Let_def stop_attempt_def stop_cause_def)
  from cancelled_by_durable_flag [OF _ _ _ beat run, of attempt0 ?a'] show ?thesis
    by (simp add: attempt0_def)
qed

section \<open>The completion batcher\<close>

text \<open>C20: in every reachable state of the batcher no future is resolved twice, every submitted
  future is resolved or still queued, and the store accepts the batch it would write now: at
  most 256 outcomes and never two of one task.\<close>

theorem batcher_resolves_once:
  assumes "batcher_reach fs b"
  shows "distinct (map fst (bt_results b)) \<and> (\<forall>f \<in> set fs. fut_done b f \<or> f \<in> snd ` set (waiting b))
    \<and> (\<exists>d' out. store_complete env (active_entries b) d = Inr (d', out))"
proof -
  have inv: "batcher_inv fs b" by (rule batcher_inv_reach [OF assms])
  then have "distinct (map fst (bt_results b))" "\<forall>f \<in> set fs. fut_done b f \<or> f \<in> snd ` set (waiting b)"
    by (auto simp: batcher_inv_def fut_done_def)
  with store_writer.batch_accepted [OF inv] show ?thesis by blast
qed

theorem batcher_resolves_once_witness:
  "\<exists>b. batcher_reach [0] b \<and> active_entries b = [\<lparr>c_id = 2, c_token = 9, c_kind = Release, c_data = None\<rparr>]
     \<and> (\<exists>d' out. store_complete env0 (active_entries b) db0 = Inr (d', out))"
proof -
  let ?c = "\<lparr>c_id = 2, c_token = 9, c_kind = Release, c_data = None\<rparr>"
  let ?b = "\<lparr>bt_pending = [], bt_batch = [(?c, 0)], bt_writing = True, bt_results = []\<rparr>"
  have "batcher_reach [0] (new_batcher\<lparr>bt_pending := [(?c, 0)]\<rparr>)"
    using b_submit [OF b_start, of ?c 0] by (simp add: new_batcher_def fut_done_def)
  from b_other [OF this, of Take ?b] have "batcher_reach [0] ?b" by (simp add: new_batcher_def)
  with batcher_resolves_once [OF this, of env0 db0] show ?thesis
    by (intro exI [of _ ?b]) (simp add: active_entries_def)
qed

section \<open>Feeds and hints\<close>

text \<open>C21: however consumers, publications, expiry and removals interleave, two consumers never
  hold the same event, and a consumer holds only retained events of its own subscription, at
  most its batch size of them.\<close>

theorem deliveries_disjoint:
  assumes "feed_reach s" "i < length (fs_feeds s)" "j < length (fs_feeds s)" "i \<noteq> j"
  shows "set (held (fs_feeds s ! i)) \<inter> set (held (fs_feeds s ! j)) = {}
    \<and> set (held (fs_feeds s ! i)) \<subseteq> seqs_of (fs_db s) (fd_name (fs_feeds s ! i))
    \<and> length (held (fs_feeds s ! i)) \<le> fd_batch_size (fs_feeds s ! i)"
proof -
  have "feeds_inv s" by (rule feeds_inv_reach [OF assms(1)])
  then show ?thesis using assms(2-4) by (auto simp: feeds_inv_def feeds_disjoint_def feed_ok_def)
qed

theorem deliveries_disjoint_witness:
  "held (fs_feeds feed_sys1 ! 0) = [1]
    \<and> set (held (fs_feeds feed_sys1 ! 0)) \<inter> set (held (fs_feeds feed_sys1 ! 1)) = {}"
proof -
  have "held (fs_feeds feed_sys1 ! 0) = [1]"
    by (simp add: feed_sys1_def feed0_next held_def to_event_def event0_def)
  with deliveries_disjoint [OF feed_sys1_reach, of 0 1] show ?thesis by (simp add: feed_sys1_def)
qed

text \<open>C22: an event leaves the outbox only when the consumer that holds it acknowledges its batch,
  when it is older than the expiry cut and nobody holds it, or when its subscription is removed.\<close>

theorem events_leave_acknowledged:
  assumes "feed_reach s" "feed_step s a s'" "e \<in> set (events (fs_db s))" "e \<notin> set (events (fs_db s'))"
  shows "(\<exists>i < length (fs_feeds s). a = AAck i \<and> e_seq e \<in> set (held (fs_feeds s ! i))
            \<and> e_sub e = fd_name (fs_feeds s ! i))
    \<or> (\<exists>cut. a = AExpire cut \<and> e_created_at e < cut \<and> \<not> held_by_any (fs_feeds s) (e_seq e))
    \<or> a = AUnsubscribe (e_sub e)"
  by (rule event_leaves [OF assms(2) feeds_inv_reach [OF assms(1)] assms(3,4)])

theorem events_leave_acknowledged_witness:
  "\<exists>s'. feed_step feed_sys1 (AAck 0) s' \<and> event0 \<notin> set (events (fs_db s'))
     \<and> e_seq event0 \<in> set (held (fs_feeds feed_sys1 ! 0))"
proof -
  let ?f = "fst (feed_next (\<lambda>_. False) db1 feed0)"
  let ?g = "feed0\<lparr>fd_batch := Some \<lparr>ba_events = [to_event event0], ba_active = True\<rparr>\<rparr>"
  have "feed_ack db1 ?g = Inr (db1\<lparr>events := []\<rparr>, ?g\<lparr>fd_batch := Some \<lparr>ba_events = [to_event event0], ba_active = False\<rparr>\<rparr>)"
    by (simp add: feed_ack_def to_event_def db1_def event0_def feed0_def)
  then obtain d' f' where ack: "feed_ack db1 ?f = Inr (d', f')" "events d' = []"
    by (simp add: feed0_next)
  let ?s' = "\<lparr>fs_db = d', fs_feeds = [?f, feed0][0 := f']\<rparr>"
  have step: "feed_step feed_sys1 (AAck 0) ?s'"
    unfolding feed_sys1_def by (rule FAck) (simp_all add: ack)
  have here: "event0 \<in> set (events (fs_db feed_sys1))" by (simp add: feed_sys1_def db1_def)
  from events_leave_acknowledged [OF feed_sys1_reach step here] ack(2) step show ?thesis by auto
qed

text \<open>C23: a backfill reads the tasks only after every transaction has ended that may have read the
  subscriptions before the new one was committed: when the wait is over, all transactions that
  were running when it began have ended; and it is held up by those only, never by later ones.\<close>

theorem backfill_waits_for_writers:
  assumes "wait_for_transactions fuel view dbs name g = Some (True, n)" "\<forall>T \<in> set txns. shows_running view tm T"
    "tm 0 \<le> tm n"
  shows "(\<forall>T \<in> set txns. tx_begin T \<le> tm 0 \<longrightarrow> (\<exists>e. tx_end T = Some e \<and> e \<le> tm n))
    \<and> (\<forall>j < n. \<exists>x. shown (view 0) x \<and> shown (view j) x)"
  using waited_over [OF assms(1) _ _ assms(3)] wait_result [OF assms(1)] assms(2) by blast

theorem backfill_waits_for_writers_witness:
  "wait_for_transactions 5 view0 (\<lambda>_. db0) (lit ''audit'') 5 = Some (True, 2) \<and> (\<exists>e. tx_end txn0 = Some e \<and> e \<le> (6::rat))"
proof -
  have run: "wait_for_transactions 5 view0 (\<lambda>_. db0) (lit ''audit'') 5 = Some (True, 2)"
    by (simp add: wait_for_transactions_def blockers_view0 find_sub_def db0_def sub0_def eval_nat_numeral)
  have "shown (view0 k) (tx_vxid txn0) \<longleftrightarrow> k < 2" for k
    by (cases "k < 2") (simp_all add: shown_def blockers_view0 txn0_def)
  then have sh: "\<forall>T \<in> set [txn0]. shows_running view0 (\<lambda>k. of_nat k * 3) T"
    by (auto simp: shows_running_def running_at_def txn0_def)
  have le: "of_nat 0 * 3 \<le> of_nat 2 * (3::rat)" by simp
  from backfill_waits_for_writers [OF run sh le] run show ?thesis by (simp add: txn0_def)
qed



text \<open>C25: a consumer whose registration stays is delivered something by the first pass at which an event
  of its subscription is there that nobody else holds; a delivery at that pass starts with this
  event or an older one.\<close>

theorem event_delivered:
  assumes "\<not> fd_closed f" "fd_batch_size f \<ge> 1"
    "\<forall>k \<le> n. \<exists>s. find_sub (dbs k) (fd_name f) = Some s \<and> s_generation s = fd_generation f"
    "e \<in> set (events (dbs n))" "e_sub e = fd_name f" "\<not> busy n (e_seq e)" "n < fuel"
  shows "\<exists>k f' evs. feed_anext fuel busy dbs 0 f = Some (k, f', Deliver evs) \<and> k \<le> n \<and> evs \<noteq> []
    \<and> (k = n \<longrightarrow> ev_seq (hd evs) \<le> e_seq e)"
  using feed_anext_delivers [of f 0 n dbs e busy fuel] assms by simp

theorem event_delivered_witness:
  "\<exists>k f' evs. feed_anext 5 (\<lambda>k _. k < 2) (\<lambda>_. db1) 0 feed0 = Some (k, f', Deliver evs) \<and> k \<le> 2 \<and> evs \<noteq> []"
proof -
  have "\<exists>k f' evs. feed_anext 5 (\<lambda>k _. k < 2) (\<lambda>_. db1) 0 feed0 = Some (k, f', Deliver evs) \<and> k \<le> 2 \<and> evs \<noteq> []
      \<and> (k = 2 \<longrightarrow> ev_seq (hd evs) \<le> e_seq event0)"
    by (rule event_delivered)
      (simp_all add: feed0_def db1_def event0_def find_sub_def db0_def sub0_def)
  then show ?thesis by blast
qed

text \<open>C26: no hint is lost and none is made up while the sender lives: at any time the hints sent,
  in flight and pending are together exactly the ones requested, failures included; and pending
  hints always have a live sender that is, or will be, awake to take them.\<close>

theorem hints_conserved:
  assumes "run_hints es new_hints = Some (h, sent)" "list_all harmless es"
  shows "(\<Union>e \<in> set es. requested e)
      = (\<Union>l \<in> set sent. hints_of l) \<union> hints_of (hn_pending h) \<union> hints_of (in_flight h)
    \<and> (hn_pending h \<noteq> no_load \<longrightarrow> hn_ready h \<and> hn_sender h \<notin> {SNoTask, SFinished})"
proof -
  have new: "hints_of (hn_pending new_hints) = {}" "hints_of (in_flight new_hints) = {}"
    by (simp_all add: new_hints_def in_flight_def)
  from run_hints_conserved [OF assms hints_inv_new] show ?thesis
    unfolding new hints_inv_def by blast
qed

theorem hints_conserved_witness:
  "\<exists>h sent. run_hints [HWake [mail], HResumed, HFailed, HFeed [lit ''queued''], HResumed, HResumed, HCommitted] new_hints
      = Some (h, sent) \<and> {WakeHint mail, FeedHint (lit ''queued'')} = (\<Union>l \<in> set sent. hints_of l)"
proof -
  let ?es = "[HWake [mail], HResumed, HFailed, HFeed [lit ''queued''], HResumed, HResumed, HCommitted]"
  obtain h sent where run: "run_hints ?es new_hints = Some (h, sent)" "hn_pending h = no_load" "in_flight h = no_load"
    by (simp add: new_hints_def schedule_def no_load_def load_join_def in_flight_def)
  have "list_all harmless ?es" by simp
  from hints_conserved [OF run(1) this] run show ?thesis by auto
qed

section \<open>Enqueueing\<close>

text \<open>C27: without a concurrent writer, a valid \<open>enqueue\<close> answers at once: it inserts one queued row
  under a fresh id, or, when an active task of the type has the key, changes nothing and returns
  that one task's id.\<close>

theorem enqueue_deduplicates:
  assumes "check_new_task nt = Inr ()" "others 0 = id" "db_inv d"
  shows "\<exists>d' i sent. store_enqueue (Suc fuel) env others ticks start dl in_tx nt d = Some (Inr (d', i, sent))
    \<and> (if \<exists>r \<in> set (tasks d). active_with_key (n_type nt) (n_key nt) r
       then tasks d' = tasks d \<and> sent = []
         \<and> (\<forall>r \<in> set (tasks d). active_with_key (n_type nt) (n_key nt) r \<longrightarrow> t_id r = i)
       else i \<notin> t_id ` set (tasks d) \<and> tasks d' = tasks d @ [new_row (env 0) nt i]
         \<and> sent = enqueue_notices in_tx (n_type nt))"
proof -
  have fresh: "next_id d \<notin> t_id ` set (tasks d)"
    using assms(3) by (auto simp: db_inv_def dest: tasks_invD(3))
  have only: "t_id r = i" if "r \<in> set (tasks d)" "active_with_key (n_type nt) (n_key nt) r"
    "find_active_by_key d (n_type nt) (n_key nt) = Some i" for r i
    using find_active_unique [OF assms(3) that(1,2)] that(3) by simp
  from enqueue_alone [OF assms(1), where others = others and fuel = fuel and env = env and ticks = ticks
      and start = start and dl = dl and in_tx = in_tx and d = d] assms(2) fresh only show ?thesis
    by (cases "\<exists>r \<in> set (tasks d). active_with_key (n_type nt) (n_key nt) r") auto
qed

theorem enqueue_deduplicates_witness:
  "\<exists>d' sent. store_enqueue 1 (\<lambda>_. env0) (\<lambda>_. id) (\<lambda>_. 0) 0 30 False newtask0 db0 = Some (Inr (d', 1, sent))
     \<and> tasks d' = tasks db0"
proof -
  have "check_arg_text mail MAX_NAME_BYTES = Inr ()" "check_arg_text (lit ''k'') MAX_KEY_BYTES = Inr ()"
    by (simp_all add: check_arg_text_iff MAX_NAME_BYTES_def MAX_KEY_BYTES_def has_surrogate_def is_surrogate_def
        mail_def utf8_size_def)
  then have chk: "check_new_task newtask0 = Inr ()"
    by (simp add: check_new_task_def newtask0_def check_name_def check_key_def MIN_PRIORITY_def MAX_PRIORITY_def)
  have act: "active_with_key (n_type newtask0) (n_key newtask0) row0"
    by (simp add: active_with_key_def newtask0_def row0_def)
  then have ex: "\<exists>r \<in> set (tasks db0). active_with_key (n_type newtask0) (n_key newtask0) r"
    by (auto simp: db0_def)
  from enqueue_deduplicates [OF chk, of "\<lambda>_. id" db0 0 "\<lambda>_. env0" "\<lambda>_. 0" 0 30 False] db0_inv ex
  obtain d' i sent where
    d': "store_enqueue 1 (\<lambda>_. env0) (\<lambda>_. id) (\<lambda>_. 0) 0 30 False newtask0 db0 = Some (Inr (d', i, sent))"
    "tasks d' = tasks db0" "\<forall>r \<in> set (tasks db0). active_with_key (n_type newtask0) (n_key newtask0) r \<longrightarrow> t_id r = i"
    by auto
  have "i = 1" using d'(3) act by (auto simp: db0_def row0_def)
  with d' show ?thesis by auto
qed





section \<open>Processes and sandboxes\<close>

text \<open>C30: the scavenger signals a process only for an owner it judged dead on this host, and only if the
  process carried that owner's marker when it was checked, however pids are recycled in between;
  it never signals for the id it draws for itself.\<close>

theorem scavenger_kills_orphans:
  assumes "lawful w" "scavenge_orphans w hv si t self hex walk = Inr killed" "(u, owner) \<in> set killed"
  shows "(\<exists>t'. is_worker_alive (hv t') si owner = Inr (Some False))
    \<and> (\<exists>pid t'. carried w t' pid u (marker WORKER_ENV owner))
    \<and> worker_id (hv t) self hex \<noteq> Inr owner"
proof -
  from assms(2) obtain own where own: "worker_id (hv t) self hex = Inr own"
    "scavenge_loop w hv si t [] [own] (proc_environs walk) = Inr killed"
    by (auto simp: scavenge_orphans_def bind_result_Inr_iff)
  from scavenge_loop_only [OF own(2) assms(1) _ assms(3)] own(1) show ?thesis by auto
qed

theorem scavenger_kills_orphans_witness:
  "scavenge_orphans os0 (\<lambda>_. host0) si0 0 3 [98] (Some [(lit ''9'', Some environ0)]) = Inr [(9, lit ''h:7:5-a'')]
    \<and> is_worker_alive host0 si0 (lit ''h:7:5-a'') = Inr (Some False)"
proof -
  have owner: "owner_of environ0 = Some (lit ''h:7:5-a'')"
    by (simp add: owner_of_def environ0_def environ_bytes_def text_bytes_def utf8_bytes_def WORKER_ENV_def
        starts_with_def Let_def decode_head_def)
  have occ: "occurs (marker WORKER_ENV (lit ''h:7:5-a'')) environ0"
    by (simp add: marker_def WORKER_ENV_def environ0_def environ_bytes_def text_bytes_def utf8_bytes_def)
  have dead: "is_worker_alive host0 si0 (lit ''h:7:5-a'') = Inr (Some False)"
    by (simp add: is_worker_alive_def worker_parts_def rsplit_once_def host0_def si0_def digits_value_def
        starttime_def starts_with_def)
  have own: "worker_id host0 3 [98] = Inr (lit ''h:3:nonce-b'')"
    by (simp add: worker_id_def starttime_def host0_def dec_int_def dec_nat.simps)
  have run: "scavenge_orphans os0 (\<lambda>_. host0) si0 0 3 [98] (Some [(lit ''9'', Some environ0)]) = Inr [(9, lit ''h:7:5-a'')]"
    using owner occ dead own
    by (simp add: scavenge_orphans_def proc_environs_def is_digit_def digits_value_def kill_marked_def
        open_marked_def pidfd_open_def environ_has_def pidfd_send_def alive_as_def os0_def)
  from scavenger_kills_orphans [OF os0_lawful run, of 9 "lit ''h:7:5-a''"] run show ?thesis by simp
qed

text \<open>C31: an id made by a worker is recognised on its host as long as its process has the start time it
  was made with, and judged dead when the pid has another start time or is gone; host names may
  contain anything.\<close>

theorem worker_ids_recognised:
  assumes "worker_id v pid hex = Inr w" "0 < pid" "58 \<notin> set hex" "si (dec_int pid) = Inr pid"
    "starttime v pid = Inr (Some st)" "st \<noteq> []" "list_all is_digit st" "host_name v' = host_name v"
    "starttime v' pid = Inr found" "found = None \<longrightarrow> kill_zero v' pid = Inl ProcessLookupError"
  shows "is_worker_alive v' si w = Inr (Some (found = Some st))"
  using worker_identity [where v = v and pid = pid and hex = hex and w = w and si = si and st = st and v' = v', OF assms(1-8)]
    assms(9,10) by (cases found) auto

theorem worker_ids_recognised_witness:
  "is_worker_alive host1 si0 (lit ''h:7:5-a'') = Inr (Some True)
    \<and> is_worker_alive host0 si0 (lit ''h:7:5-a'') = Inr (Some False)"
proof -
  have st: "starttime host1 7 = Inr (Some (lit ''5''))"
  proof -
    have "starttime_of stat0 = Inr ((replicate 19 (lit ''0'') @ [lit ''5'']) ! 19)"
      unfolding stat0_def by (rule starttime_field) (auto simp: py_space_def)
    then show ?thesis by (simp add: starttime_def host1_def nth_append)
  qed
  have id: "worker_id host1 7 [97] = Inr (lit ''h:7:5-a'')"
    using st by (simp add: worker_id_def host1_def host0_def dec_int_def dec_nat.simps)
  have gone: "starttime host0 7 = Inr None" by (simp add: starttime_def host0_def)
  have si: "si0 (dec_int 7) = Inr 7" by (simp add: si0_def dec_int_def digits_value_dec_nat)
  show ?thesis
    using worker_ids_recognised [where v = host1 and v' = host1 and si = si0, OF id _ _ si st _ _ refl st]
      worker_ids_recognised [where v = host1 and v' = host0 and si = si0, OF id _ _ si st _ _ _ gone]
    by (simp add: is_digit_def host0_def host1_def)
qed

text \<open>C32: the hard kill of a launched sandbox reaches only processes that carried its marker, and when a
  kill, repeated as often as the worker likes, answers that the sandbox is dead, its init is gone
  for good.\<close>

theorem kill_verified:
  assumes "lawful w" "spawn w t loads si sid pid la = (Inr s, steps)" "sx_init s = Some u"
    "\<forall>(t', deadline) \<in> set calls. t + 3 \<le> t' \<and> t' \<le> deadline" "sx_kills w calls s = (s', True)"
  shows "(\<exists>(t', deadline) \<in> set calls. \<forall>later \<ge> deadline. \<not> alive_as w later (sx_init_pid s) u)
    \<and> (\<forall>(t', deadline) \<in> set calls. \<forall>x \<in> set (fst (snd (sx_kill w t' deadline s))).
         carried w (t + 1) pid x (marker SANDBOX_ENV sid) \<or> carried w (t + 3) (sx_init_pid s) x (marker SANDBOX_ENV sid))"
proof
  have "\<forall>(t', deadline) \<in> set calls. t + 2 \<le> deadline" using assms(4) by fastforce
  from sx_kills_final [OF assms(1-3,5) this]
  show "\<exists>(t', deadline) \<in> set calls. \<forall>later \<ge> deadline. \<not> alive_as w later (sx_init_pid s) u" .
  show "\<forall>(t', deadline) \<in> set calls. \<forall>x \<in> set (fst (snd (sx_kill w t' deadline s))).
      carried w (t + 1) pid x (marker SANDBOX_ENV sid) \<or> carried w (t + 3) (sx_init_pid s) x (marker SANDBOX_ENV sid)"
  proof (clarify)
    fix t' deadline x assume c: "(t', deadline) \<in> set calls" "x \<in> set (fst (snd (sx_kill w t' deadline s)))"
      and n: "\<not> carried w (t + 3) (sx_init_pid s) x (marker SANDBOX_ENV sid)"
    obtain s1 sent answer where k: "sx_kill w t' deadline s = (s1, sent, answer)" by (cases "sx_kill w t' deadline s") auto
    have "t + 3 \<le> t'" using assms(4) c(1) by auto
    moreover have "x \<in> set sent" using c(2) k by simp
    ultimately show "carried w (t + 1) pid x (marker SANDBOX_ENV sid)"
      using sx_kill_targets [OF assms(1,2) _ k] n by blast
  qed
qed

theorem kill_verified_witness:
  "sx_kills os0 [(10, 50), (60, 120)] sandbox0 = (sandbox0\<lparr>sx_dead := True, sx_init := None, sx_outer := None\<rparr>, True)
    \<and> carried os0 1 8 8 (marker SANDBOX_ENV (lit ''x''))"
proof -
  have run: "sx_kills os0 [(10, 50), (60, 120)] sandbox0
      = (sandbox0\<lparr>sx_dead := True, sx_init := None, sx_outer := None\<rparr>, True)"
    by (simp add: sx_kill_def sandbox0_def alive_os0 close_fds_def Let_def)
  have sent: "8 \<in> set (fst (snd (sx_kill os0 10 50 sandbox0)))"
    by (simp add: sx_kill_def sandbox0_def alive_os0 Let_def set_try_send) (simp add: os0_def)
  have i: "sx_init sandbox0 = Some 9" by (simp add: sandbox0_def)
  from kill_verified [OF os0_lawful spawn_os0 i _ run]
  have "\<forall>(t', deadline) \<in> set [(10, 50), (60, 120)]. \<forall>x \<in> set (fst (snd (sx_kill os0 t' deadline sandbox0))).
      carried os0 1 8 x (marker SANDBOX_ENV (lit ''x'')) \<or> carried os0 3 9 x (marker SANDBOX_ENV (lit ''x''))"
    by (simp add: sandbox0_def)
  with sent have "carried os0 1 8 8 (marker SANDBOX_ENV (lit ''x'')) \<or> carried os0 3 9 8 (marker SANDBOX_ENV (lit ''x''))"
    by fastforce
  moreover have "\<not> carried os0 3 9 8 (marker SANDBOX_ENV (lit ''x''))" by (simp add: carried_def os0_def)
  ultimately show ?thesis using run by simp
qed

text \<open>C33: a process that ran to its end always leaves a document that can be stored: the result if it
  fits the cap, the one final error if it does not, and for a non-zero exit error metadata under
  the error cap; the streams are the exact prefixes of the output, decoded.\<close>

theorem process_end_recorded:
  assumes "run_result loads si cap out err returncode status = Inr r" "0 \<le> cap" "\<forall>c \<in> set out \<union> set err. c \<noteq> []"
    "412 \<le> ecap"
  shows "p_stdout r = stream_text (take (nat cap) (concat out)) \<and> p_stderr r = stream_text (take (nat cap) (concat err))
    \<and> (p_truncated r \<longleftrightarrow> int (length (concat out)) > cap \<or> int (length (concat err)) > cap)
    \<and> (case process_outcome fr ps r rcap ecap of
        ProcessReturned doc \<Rightarrow> exit_code r = 0 \<and> encode_tree fr (result_json r) = Inr doc \<and> int (utf8_len doc) \<le> rcap
      | ProcessFailed md \<Rightarrow> exit_code r \<noteq> 0 \<and> (\<exists>doc. encode_tree fr (JObj md) = Inr doc \<and> int (utf8_len doc) \<le> ecap)
      | ProcessRaised e \<Rightarrow> exit_code r = 0 \<and> e = ResultSerializationError
          \<and> (\<exists>doc. encode_tree fr (result_json r) = Inr doc \<and> int (utf8_len doc) > rcap))"
proof -
  note r = run_result_ok [OF assms(1-3)]
  have "storable (p_stdout r)" "storable (p_stderr r)" unfolding r(1,2) by (rule stream_text_storable)+
  from process_outcome_total [OF this assms(4)] r(1-3) show ?thesis by blast
qed

theorem process_end_recorded_witness:
  "\<exists>r. run_result loads0 si0 2 [[104, 0], [255]] [] (Some 3) [] = Inr r \<and> p_stdout r = [104, REPLACEMENT] \<and> p_truncated r
    \<and> (\<exists>md. process_outcome plain_doc (\<lambda>_. []) r 100 412 = ProcessFailed md)"
proof -
  obtain r where r: "run_result loads0 si0 2 [[104, 0], [255]] [] (Some 3) [] = Inr r" "exit_code r = 3"
    by (simp add: run_result_def)
  from process_end_recorded [OF r(1), where ecap = 412 and fr = plain_doc and ps = "\<lambda>_. []" and rcap = 100] r show ?thesis
    by (auto simp: stream_text_def decode_head_def split: process_end.splits)
qed

section \<open>Recovery\<close>



section \<open>The server\<close>

text \<open>C35: REST and MCP are one service: for an authorized caller and arguments of the declared form, a REST
  route answers as the MCP tool of the same name does - the same value with status 200 or 201, a
  client error where MCP reports a tool error, 500 where the tool's exception escapes - and the
  tables, the hints and the validator cache end up the same.\<close>

theorem surfaces_agree:
  assumes "require_auth headers token = None" "call_valid (ae_settings ae) c" "parsers_ok ae d"
    "\<forall>q. c = EnqueueTask q \<longrightarrow> parse_run_at from_iso stamp = Inr (rq_run_at q)"
    "mcp_call ae from_iso stamp cache d c = Some (cache', d', m, hs)"
  shows "\<exists>status v. rest_call ae token headers cache d c = Some (cache', d', (status, v), hs)
    \<and> (case m of Inr x \<Rightarrow> status = success_status c \<and> v = Some x
       | Inl ToolError \<Rightarrow> status \<in> {404, 409, 413, 422} \<and> v = None \<and> hs = []
       | Inl (Escapes e) \<Rightarrow> status = 500 \<and> v = None \<and> hs = [])"
  by (rule rest_mcp_agree_aux [OF assms])

theorem surfaces_agree_witness:
  "\<exists>d' hs v. mcp_call api0 (\<lambda>_. Inl ValueError) None [] db0 (CancelTask 3) = Some ([], d', Inl ToolError, hs)
    \<and> (\<exists>status \<in> {404, 409, 413, 422}. rest_call api0 (Some token0) [(lit ''authorization'', lit ''Bearer s3'')] [] db0 (CancelTask 3)
         = Some ([], d', (status, v), hs))"
proof -
  have auth: "require_auth [(lit ''authorization'', lit ''Bearer s3'')] (Some token0) = None"
    by (simp add: require_auth_def bearer_ok_def partition_space_def lower_ascii_def strip_def py_space_def token0_def
        utf8_encode_def has_surrogate_def is_surrogate_def)
  have ok: "parsers_ok api0 db0" by (simp add: parsers_ok_def api0_def)
  obtain d' hs where mcp: "mcp_call api0 (\<lambda>_. Inl ValueError) None [] db0 (CancelTask 3) = Some ([], d', Inl ToolError, hs)"
    by (simp add: mcp_call_def mcp_errors_def tool_errors_def api0_def service_cancel_def store_request_cancel_def
        with_events_def update_where_def returning_def cancel_guard_def store_get_task_def Let_def sample_defs)
  from surfaces_agree [OF auth _ ok _ mcp] mcp show ?thesis by (fastforce simp: call_valid_def)
qed

text \<open>C36: a client that follows the service's \<open>next\<close> links until there is none gets the whole filtered
  listing, newest first, without gaps or repeats, whatever page size it asks for; it needs at most
  one page more than there are rows.\<close>

theorem service_pages:
  assumes "db_inv d" "1 \<le> list_page_max s" "length (listing f d) < fuel"
  shows "follow_pages fuel s f d = Some (map summary (listing f d))"
  by (rule follow_pages_listing [OF assms])

theorem service_pages_witness:
  "map_option (map ts_id) (follow_pages 4 default_settings \<lparr>f_type = None, f_state = None, f_key = None, f_before = None, f_limit = 1\<rparr> db0)
     = Some [3, 2, 1]"
proof -
  let ?f = "\<lparr>f_type = None, f_state = None, f_key = None, f_before = None, f_limit = 1\<rparr>"
  have l: "listing ?f db0 = [done0, running0, row0]"
    by (simp add: listing_def filter_matches_def db0_def done0_def running0_def row0_def)
  from service_pages [OF db0_inv, of default_settings ?f 4] l show ?thesis
    by (simp add: default_settings_def summary_def done0_def running0_def row0_def)
qed

text \<open>C37: the body limiter never hands the application more than the limit before it reports a
  disconnect; a request within the limit passes through it unchanged, message for message and error
  for error; any other request, declared or streamed, gets exactly one 413, after what the application
  had sent by then.\<close>

theorem body_limited:
  assumes "0 \<le> limit" "body_limiter limit declared calls raises = (called, st, e)"
  shows "body_bytes (takeWhile (\<lambda>m. m \<noteq> Disconnect) (lm_got st)) \<le> limit
    \<and> (called \<longleftrightarrow> \<not> declared_over limit declared)
    \<and> (if called \<and> body_bytes (received calls) \<le> limit then lm_out st = map Forwarded (sent_by calls) \<and> e = raises
       else e = None \<and> (\<exists>k. lm_out st = map Forwarded (take k (if called then sent_by calls else [])) @ [Reply 413]))"
  using body_limiter_ok [OF assms] by auto

theorem body_limited_witness:
  "body_limiter 5 None [Receive (Body 4), Send ''a'', Receive (Body 4), Send ''b''] (Some ValueError)
     = (True, \<lparr>lm_seen = 8, lm_rejected = True, lm_out = [Forwarded ''a'', Reply 413], lm_got = [Body 4, Disconnect]\<rparr>, None)
    \<and> body_bytes (takeWhile (\<lambda>m. m \<noteq> Disconnect) [Body 4, Disconnect]) \<le> 5"
proof -
  have run: "body_limiter 5 None [Receive (Body 4), Send ''a'', Receive (Body 4), Send ''b''] (Some ValueError)
     = (True, \<lparr>lm_seen = 8, lm_rejected = True, lm_out = [Forwarded ''a'', Reply 413], lm_got = [Body 4, Disconnect]\<rparr>, None)"
    by (simp add: body_limiter_def declared_over_def run_app_def new_limiter_def Let_def)
  with body_limited [OF _ run] show ?thesis by simp
qed



section \<open>Text, JSON and error documents\<close>

text \<open>C39: encoding a Python value either yields text PostgreSQL can store (no NUL, no lone
  surrogate) of a document at most 200 levels deep, or raises \<open>Unstorable\<close> or \<open>TypeError\<close>; cycles,
  excessive depth and non-finite numbers included, nothing else escapes.\<close>

theorem encoding_storable:
  assumes "\<And>r. storable (fr r)"
  shows "case encode fr h v of
      Inr s \<Rightarrow> storable s \<and> (\<exists>t. dump_tree MAX_DEPTH h v = Inr t \<and> render fr t = Inr s \<and> tree_depth t \<le> MAX_DEPTH)
    | Inl e \<Rightarrow> e = Unstorable \<or> e = TypeError"
proof (cases "encode fr h v")
  case (Inl e)
  then show ?thesis using encode_Inl_aux [OF Inl] by simp
next
  case (Inr s)
  then show ?thesis using encode_storable_aux [OF Inr assms] by (auto elim: encode_InrD)
qed

theorem encoding_storable_witness:
  "encode plain_doc (\<lambda>i. if i = 0 then Some (PyList [PyRef 0]) else None) (PyRef 0) = Inl Unstorable
     \<or> encode plain_doc (\<lambda>i. if i = 0 then Some (PyList [PyRef 0]) else None) (PyRef 0) = Inl TypeError"
proof -
  have ok: "storable (plain_doc r)" for r by (simp add: plain_doc_def is_surrogate_def)
  have "encode plain_doc (\<lambda>i. if i = 0 then Some (PyList [PyRef 0]) else None) (PyRef 0) = Inl Unstorable"
    by (simp add: encode_def check_value.simps MAX_DEPTH_def)
  with encoding_storable [of plain_doc "\<lambda>i. if i = 0 then Some (PyList [PyRef 0]) else None" "PyRef 0", OF ok]
  show ?thesis by simp
qed

text \<open>C40: the error document of an exception always exists and fits the cap, whatever its
  message and traceback hold and even if formatting them raises, as long as its class name is
  storable text.\<close>

theorem error_document_fits:
  assumes "raised_ok x" "412 \<le> cap"
  shows "\<exists>s. error_json fr ps cap x = Inr s \<and> int (utf8_len s) \<le> cap"
  by (rule error_json_total [OF assms])

theorem error_document_fits_witness:
  "\<exists>s. error_json plain_doc (\<lambda>_. []) 1024
      \<lparr>x_qualname = lit ''Boom'', x_str = Inl (lit ''ValueError''), x_traceback = Inr [0, 0xD800]\<rparr> = Inr s
    \<and> int (utf8_len s) \<le> 1024"
  by (rule error_document_fits)
    (simp_all add: raised_ok_def exc_message_def exc_traceback_def py_text_def is_surrogate_def)

section \<open>Supporting theorems\<close>

text \<open>An HTTP request passes the bearer gate exactly if its last \<open>Authorization\<close> header is the bearer
  scheme in any case, a space, and the configured token with any white space around it; every other
  request is answered 401 and reaches nothing behind the gate.\<close>

theorem bearer_exact:
  assumes "t \<noteq> []" "py_text t" "\<not> has_surrogate t" "\<forall>(name, v) \<in> set headers. \<forall>b \<in> set v. b < 256"
  shows "bearer_gate True headers (Some t) = (if \<exists>scheme v. map_of (rev headers) (lit ''authorization'') = Some (scheme @ 32 # v)
      \<and> lower_ascii scheme = lit ''bearer'' \<and> strip v = t then PassOn else Respond 401)"
proof (cases "map_of (rev headers) (lit ''authorization'')")
  case None
  then show ?thesis by (simp add: bearer_gate_def bearer_ok_def)
next
  case (Some a)
  then have "(lit ''authorization'', a) \<in> set headers" by (auto dest: map_of_SomeD)
  then have b: "\<forall>b \<in> set a. b < 256" using assms(4) by fastforce
  then have a: "py_text a" "\<not> has_surrogate a" by (auto simp: py_text_def has_surrogate_def is_surrogate_def)
  from bearer_ok_iff [OF assms(1-3) a] bearer_ok_raises [OF assms(3) a(2)] Some show ?thesis
    by (auto simp: bearer_gate_def)
qed

theorem bearer_exact_witness:
  "bearer_gate True [(lit ''authorization'', lit ''BEARER  s3'')] (Some token0) = PassOn
    \<and> bearer_gate True [(lit ''authorization'', lit ''Bearer s4'')] (Some token0) = Respond 401"
proof -
  have t: "token0 \<noteq> []" "py_text token0" "\<not> has_surrogate token0"
    by (simp_all add: token0_def py_text_def has_surrogate_def is_surrogate_def)
  let ?h = "[(lit ''authorization'', lit ''BEARER  s3'')]" and ?g = "[(lit ''authorization'', lit ''Bearer s4'')]"
  have yes: "map_of (rev ?h) (lit ''authorization'') = Some (lit ''BEARER'' @ 32 # lit '' s3'')
      \<and> lower_ascii (lit ''BEARER'') = lit ''bearer'' \<and> strip (lit '' s3'') = token0"
    by (simp add: lower_ascii_def strip_def py_space_def token0_def)
  have no: "strip v \<noteq> token0" if "lit ''Bearer s4'' = scheme @ 32 # v" for scheme v
    using that by (auto simp: append_eq_Cons_conv Cons_eq_append_conv strip_def py_space_def token0_def)
  from bearer_exact [OF t, of ?h] bearer_exact [OF t, of ?g] yes no show ?thesis by fastforce
qed

text \<open>A sweep with room for all expired leases leaves none: each such task lost its token and
  is cancelled if cancellation was requested, queued again if attempts remain, failed otherwise.\<close>

theorem reap_sweeps:
  assumes "db_inv d" "length (filter (lease_expired (tx_now env)) (tasks d)) \<le> limit" "\<forall>i. \<not> busy i"
  shows "(\<forall>x \<in> set (tasks (fst (store_reap env limit busy d))). \<not> lease_expired (tx_now env) x)
    \<and> (\<forall>r \<in> set (tasks d). lease_expired (tx_now env) r \<longrightarrow>
        (\<exists>x \<in> set (tasks (fst (store_reap env limit busy d))). t_id x = t_id r \<and> t_token x = None
           \<and> t_state x = (if t_cancel_at r \<noteq> None then Cancelled
                 else if t_failures r + 1 < t_max_attempts r then Queued else Failed)))"
proof (intro conjI ballI impI)
  fix x assume "x \<in> set (tasks (fst (store_reap env limit busy d)))"
  then show "\<not> lease_expired (tx_now env) x" by (rule reap_clears [OF assms])
next
  fix r assume r: "r \<in> set (tasks d)" "lease_expired (tx_now env) r"
  from reap_takes [OF assms r] reap_outcome(1) [OF assms(1) r]
  show "\<exists>x \<in> set (tasks (fst (store_reap env limit busy d))). t_id x = t_id r \<and> t_token x = None
     \<and> t_state x = (if t_cancel_at r \<noteq> None then Cancelled
           else if t_failures r + 1 < t_max_attempts r then Queued else Failed)"
    by (intro bexI [of _ "reap_upd env r"]) (simp_all add: reap_upd_def)
qed

theorem reap_sweeps_witness:
  "\<exists>x \<in> set (tasks (fst (store_reap env0 100 (\<lambda>_. False) db0))). t_id x = 2 \<and> t_token x = None \<and> t_state x = Queued"
  using reap_sweeps [OF db0_inv, of env0 100 "\<lambda>_. False"] by (simp add: lease_expired_def sample_defs)

text \<open>A claim never pushes the number of running tasks of a type over the type's
  concurrency limit (if the limit was lowered below the running count, it adds nothing).\<close>

theorem type_limit_kept:
  assumes "db_inv d" "find_type d name = Some ty" "ty_max_conc ty = Some m"
  shows "running_count (tasks (fst (store_claim env lk clk types w l dl n d))) name
    \<le> max m (running_count (tasks d) name)"
  by (rule claim_type_limit [OF assms])

theorem type_limit_kept_witness:
  "running_count (tasks (fst (store_claim env0 nolocks (\<lambda>_. 0) [mail] (lit ''w'') 60 5 10 db0))) mail \<le> 2"
proof -
  have "find_type db0 mail = Some type0" by (simp add: find_type_def sample_defs)
  moreover have "running_count (tasks db0) mail = 1" by (simp add: running_count_def sample_defs)
  ultimately show ?thesis
    using type_limit_kept [OF db0_inv, of mail type0 2] by (simp add: type0_def)
qed

text \<open>The same for the limit per concurrency key.\<close>

theorem key_limit_kept:
  assumes "db_inv d" "find_type d name = Some ty" "ty_max_conc_key ty = Some m"
  shows "running_key_count (tasks (fst (store_claim env lk clk types w l dl n d))) name key
    \<le> max m (running_key_count (tasks d) name key)"
  by (rule claim_key_limit [OF assms])

theorem key_limit_kept_witness:
  "running_key_count (tasks (fst (store_claim env0 nolocks (\<lambda>_. 0) [mail] (lit ''w'') 60 5 10 db0))) mail (lit ''c'') \<le> 1"
proof -
  have "find_type db0 mail = Some type0" by (simp add: find_type_def sample_defs)
  moreover have "running_key_count (tasks db0) mail (lit ''c'') = 0"
    by (simp add: running_key_count_def sample_defs)
  ultimately show ?thesis
    using key_limit_kept [OF db0_inv, of mail type0 1, where key = "lit ''c''" and lk = nolocks
        and env = env0 and clk = "\<lambda>_. 0" and types = "[mail]" and w = "lit ''w''" and l = 60 and dl = 5 and n = 10]
    by (simp add: type0_def)
qed

text \<open>Every policy the constructors accept survives its JSON column: reading back what
  \<open>to_json\<close> wrote gives the same policy, for any text-to-number conversion.\<close>

theorem policy_json_roundtrip:
  assumes "policy_ok p"
  shows "policy_from_json si sf (policy_to_json p) = Inr p"
  by (rule policy_json_roundtrip_aux [OF assms])

theorem policy_json_roundtrip_witness:
  "policy_from_json (\<lambda>_. Inl ValueError) (\<lambda>_. Inl ValueError) (policy_to_json policy0) = Inr policy0"
  by (rule policy_json_roundtrip [OF policy0_ok])

text \<open>An attempt starts safe: measured from before the claim statement, its deadline is not
  later than the lease the claim stored.\<close>

theorem claimed_attempts_covered:
  assumes "db_inv d" "n \<ge> 1" "claimed_at + off \<le> clock env"
    "r \<in> set (snd (store_claim env lk clk types w (lease_s s) dl n d))"
    "at_id a = t_id r" "at_renewed a = claimed_at"
  shows "covered s off (fst (store_claim env lk clk types w (lease_s s) dl n d)) a"
  by (rule claim_covers [OF assms])

theorem claimed_attempts_covered_witness:
  "\<exists>r. r \<in> set (snd (store_claim env0 nolocks (\<lambda>_. 0) [mail] (lit ''w'') (lease_s default_settings) 5 10 db0))
    \<and> covered default_settings 0 (fst (store_claim env0 nolocks (\<lambda>_. 0) [mail] (lit ''w'') (lease_s default_settings) 5 10 db0))
        (attempt0\<lparr>at_id := t_id r, at_renewed := 99\<rparr>)"
proof -
  have "\<exists>x xs. snd (store_claim env0 nolocks (\<lambda>_. 0) [mail] (lit ''w'') (lease_s default_settings) 5 10 db0) = x # xs
      \<and> claim_key x \<le> claim_key row0"
    by (rule claim_takes_head [OF db0_inv])
      (simp_all add: unlocked_def claimable_def find_type_def running_count_def sample_defs)
  then obtain r xs where "snd (store_claim env0 nolocks (\<lambda>_. 0) [mail] (lit ''w'') (lease_s default_settings) 5 10 db0) = r # xs"
    by blast
  then have r: "r \<in> set (snd (store_claim env0 nolocks (\<lambda>_. 0) [mail] (lit ''w'') (lease_s default_settings) 5 10 db0))"
    by (simp only: list.set_intros)
  from claimed_attempts_covered [OF db0_inv _ _ r, of 99 0 "attempt0\<lparr>at_id := t_id r, at_renewed := 99\<rparr>"] r
  show ?thesis by (intro exI [of _ r]) (simp add: env0_def)
qed

text \<open>A backfill ends, and appends exactly one event for every retained task that matches the
  subscription when it runs (right state, type and time, behind its marker), in marker order;
  it changes no task.\<close>

theorem backfill_projects_all:
  assumes "db_inv d" "find_sub d name = Some s" "s_generation s = g"
    "s_backfill s = Some mark" "distinct (map fst (bf_pending mark))" "limit \<ge> 1"
    "length (outstanding (s_types s) mark (tasks d)) + length (bf_pending mark) < fuel"
  shows "\<exists>d' evs rows. backfill_loop fuel env name g limit k d = Some (d', True) \<and> tasks d' = tasks d
    \<and> find_sub d' name = Some (s\<lparr>s_backfill := None\<rparr>) \<and> events d' = events d @ evs
    \<and> map event_content evs = map (projected name) rows \<and> distinct (map t_id rows)
    \<and> set rows = {r \<in> set (tasks d). \<exists>after. (t_state r, after) \<in> set (bf_pending mark)
         \<and> backfill_matches (s_types s) (state_since mark (t_state r)) (t_state r) after r}"
proof -
  obtain d' evs where "backfill_loop fuel env name g limit k d = Some (d', True)" "tasks d' = tasks d"
    "find_sub d' name = Some (s\<lparr>s_backfill := None\<rparr>)" "events d' = events d @ evs"
    "map event_content evs = map (projected name) (outstanding (s_types s) mark (tasks d))"
    using backfill_loop_all [OF db_inv_ids [OF assms(1)] assms(2-7), of env k] by blast
  moreover note distinct_outstanding [OF db_inv_ids [OF assms(1)] assms(5), of "s_types s"]
    set_outstanding [of "s_types s" mark "tasks d"]
  ultimately show ?thesis by blast
qed

theorem backfill_projects_all_witness:
  "\<exists>d' evs. backfill_loop 5 (\<lambda>_. env0) (lit ''audit'') 5 1 0 db2 = Some (d', True)
     \<and> tasks d' = tasks db2 \<and> events d' = events db2 @ evs"
proof -
  have inv: "db_inv db2" using db0_inv by (simp add: db_inv_def db2_def db0_def sub0_def)
  have sub: "find_sub db2 (lit ''audit'') = Some (sub0\<lparr>s_backfill := Some marker0\<rparr>)"
    by (simp add: find_sub_def db2_def sub0_def)
  have "length (outstanding (s_types sub0) marker0 (tasks db2)) \<le> 2"
    by (simp add: outstanding_def pending_rows_def marker0_def db2_def backfill_matches_def state_since_def
        type_selected_def sample_defs state_value.simps)
  then show ?thesis
    using backfill_projects_all [OF inv sub, of 5 marker0 1 5 "\<lambda>_. env0" 0]
    by (auto simp: sub0_def marker0_def)
qed

text \<open>Writing a batch of outcomes is writing its outcomes one by one: grouping them changes
  no task.\<close>

theorem batch_equals_singles:
  assumes "length cs \<le> 256" "distinct (map c_id cs)"
  shows "tasks (ok_db (store_complete env cs d) d) = tasks (complete_singly env cs d)"
  by (rule batch_is_singles [OF assms])

theorem batch_equals_singles_witness:
  "tasks (ok_db (store_complete env0 [\<lparr>c_id = 2, c_token = 9, c_kind = Release, c_data = None\<rparr>,
        \<lparr>c_id = 3, c_token = 9, c_kind = Succeed, c_data = None\<rparr>] db0) db0)
    = tasks (complete_singly env0 [\<lparr>c_id = 2, c_token = 9, c_kind = Release, c_data = None\<rparr>,
        \<lparr>c_id = 3, c_token = 9, c_kind = Succeed, c_data = None\<rparr>] db0)"
  by (rule batch_equals_singles) simp_all

text \<open>The worker's exit status is decided by what happened, in any order: 70 exactly if some attempt
  was fatal, otherwise 71 exactly if an essential loop died, otherwise 0; and it shuts down exactly
  if it was asked to or one of these happened.\<close>

theorem exit_status:
  "wc_exit (run_control es)
      = (if AttemptDone True \<in> set es then EXIT_FATAL else if LoopEnded LoopDied \<in> set es then EXIT_LOOP_FAILED else 0)
    \<and> (wc_stopping (run_control es) \<longleftrightarrow> (\<exists>e \<in> set es. stop_event e))"
  using run_control_exit run_control_stopping by (simp add: EXIT_FATAL_def EXIT_LOOP_FAILED_def)

text \<open>A purge removes only terminal tasks past the retention that nobody has locked, at most
  a batch of them, the longest finished first, and reports their exact number.\<close>

theorem purge_removes_oldest:
  assumes "db_inv d" "store_purge_tasks env ret n busy d = (d', k)"
  shows "(\<forall>r \<in> set (tasks d). r \<notin> set (tasks d') \<longrightarrow> purgeable env ret r \<and> \<not> busy (t_id r))
    \<and> k = int (length (tasks d) - length (tasks d')) \<and> k \<le> int n
    \<and> (\<forall>r \<in> set (tasks d) - set (tasks d'). \<forall>s \<in> set (tasks d').
           purgeable env ret s \<and> \<not> busy (t_id s) \<longrightarrow> finish_key r \<le> finish_key s)"
  using purge_tasks_removes [OF assms] by blast

theorem purge_removes_oldest_witness:
  "\<exists>d'. store_purge_tasks env0 20 10 (\<lambda>_. False) db0 = (d', 1) \<and> tasks d' = [row0, running0] \<and> (1::int) \<le> int 10"
proof -
  obtain d' where d': "store_purge_tasks env0 20 10 (\<lambda>_. False) db0 = (d', 1)" "tasks d' = [row0, running0]"
    by (simp add: store_purge_tasks_def purge_ids_def purgeable_def order_limit_def sample_defs Let_def)
  from purge_removes_oldest [OF db0_inv d'(1)] d' show ?thesis by auto
qed

text \<open>Without a pidfd on the init the kill is not verified: if opening pidfds failed when the sandbox
  was launched (descriptors exhausted, say), the first kill answers that the sandbox is dead
  without having signalled anybody.\<close>

theorem unopened_sandbox_reported_dead:
  assumes "spawn w t loads si sid pid la = (Inr s, steps)" "open_error w t pid" "open_error w (t + 2) (sx_init_pid s)"
  shows "sx_kill w t' deadline s = (s\<lparr>sx_dead := True\<rparr>, [], True)"
  by (rule unopened_kill [OF assms])

theorem unopened_sandbox_reported_dead_witness:
  "\<exists>s. fst (spawn (os0\<lparr>open_error := \<lambda>_ _. True\<rparr>) 0 loads0 si0 (lit ''x'') 8 launch0) = Inr s
    \<and> snd (snd (sx_kill (os0\<lparr>open_error := \<lambda>_ _. True\<rparr>) 10 20 s)) \<and> alive_as os0 20 (sx_init_pid s) 9"
proof -
  let ?w = "os0\<lparr>open_error := \<lambda>_ _. True\<rparr>"
  obtain s steps where s: "spawn ?w 0 loads0 si0 (lit ''x'') 8 launch0 = (Inr s, steps)" "sx_init_pid s = 9"
    by (simp add: spawn_def launch0_def loads0_def child_pid_def obj_item_def Let_def)
  from unopened_sandbox_reported_dead [OF s(1)] s(2) have "sx_kill ?w 10 20 s = (s\<lparr>sx_dead := True\<rparr>, [], True)" by simp
  then show ?thesis using s by (simp add: alive_os0)
qed

text \<open>Without that condition the document can be lost: the class name is the one text the
  codec does not sanitize, and the fallback document repeats it, so building it raises again.\<close>

theorem unsanitized_name_raises:
  "error_json fr ps 1024 \<lparr>x_qualname = [0], x_str = Inr [], x_traceback = Inr []\<rparr> = Inl Unstorable"
  by (rule unstorable_name_crashes)

text \<open>Accepted settings leave time to renew: after one heartbeat interval, two renewal
  attempts that each use up their timeout still end within the lease (when lease and heartbeat are
  at least a tenth of a second apart).\<close>

theorem renewals_fit_lease:
  assumes "settings_ok s" "lease_s s - heartbeat_s s \<ge> 1 / 10"
  shows "0 < renew_timeout_s s \<and> heartbeat_s s + 2 * renew_timeout_s s \<le> lease_s s"
  using renew_budget_fits [OF assms] by blast

theorem renewals_fit_lease_witness: "10 + 2 * renew_timeout_s default_settings \<le> 30"
  using renewals_fit_lease [OF default_settings_ok] by (simp add: default_settings_def)

text \<open>A failed attempt waits at least half the base delay (half the cap if the base exceeds
  it) and never longer than the cap, whatever the failure count and the jitter.\<close>

theorem backoff_bounded:
  assumes "backoff_ok (t_backoff r)" "0 \<le> rnd env (t_id r)" "rnd env (t_id r) \<le> 1"
  shows "tx_now env + min (b_cap (t_backoff r)) (b_base (t_backoff r)) / 2 \<le> backoff_until env r
    \<and> backoff_until env r \<le> tx_now env + b_cap (t_backoff r)"
  using backoff_until_bounds [OF assms] by blast

theorem backoff_bounded_witness:
  "backoff_until env0 running0 \<le> 100 + b_cap default_backoff"
  using backoff_bounded [of running0 env0] default_backoff_ok by (simp add: running0_def row0_def env0_def)

text \<open>Reading a listing page by page, each page starting behind the last id of the one before,
  yields the whole filtered listing, newest first, without gaps or repeats.\<close>

theorem pages_are_listing:
  assumes "db_inv d" "f_limit f \<ge> 1" "length (listing f d) \<le> pages"
  shows "list_pages pages f d = map summary (listing f d)"
  by (rule list_pages_all [OF assms])

theorem pages_are_listing_witness:
  "map ts_id (list_pages 3 \<lparr>f_type = None, f_state = None, f_key = None, f_before = None, f_limit = 1\<rparr> db0)
     = [3, 2, 1]"
proof -
  let ?f = "\<lparr>f_type = None, f_state = None, f_key = None, f_before = None, f_limit = 1\<rparr>"
  have l: "listing ?f db0 = [done0, running0, row0]"
    by (simp add: listing_def filter_matches_def db0_def done0_def running0_def row0_def)
  from pages_are_listing [OF db0_inv, of ?f 3] l show ?thesis
    by (simp add: summary_def done0_def running0_def row0_def)
qed

text \<open>Truncating flat error metadata always ends with metadata whose encoding fits the cap
  (for caps of at least 412 bytes, which the settings guarantee), and metadata that fits is kept.\<close>

theorem truncation_fits:
  assumes "flat_ok error" "storable (type_text ps error)" "412 \<le> cap"
  shows "\<exists>out s. truncate_error fr ps error cap keep = Inr out \<and> encode_tree fr (JObj out) = Inr s
    \<and> int (utf8_len s) \<le> cap
    \<and> (\<forall>t. encode_tree fr (JObj error) = Inr t \<and> int (utf8_len t) \<le> cap \<longrightarrow> out = error)"
  using truncate_error_ok [OF assms, of fr keep] by (auto simp: truncate_error_def)

theorem truncation_fits_witness:
  "\<exists>out s. truncate_error plain_doc (\<lambda>_. []) [(lit ''stdout'', JStr (replicate 600 65))] 412 [lit ''stdout''] = Inr out
     \<and> encode_tree plain_doc (JObj out) = Inr s \<and> int (utf8_len s) \<le> 412"
proof -
  have "flat_ok [(lit ''stdout'', JStr (replicate 600 65))]"
    "storable (type_text (\<lambda>_. []) [(lit ''stdout'', JStr (replicate 600 65))])"
    by (auto simp: flat_ok_def storable_iff is_surrogate_def type_text_def obj_get_def)
  from truncation_fits [OF this, of 412 plain_doc "[lit ''stdout'']"] show ?thesis by auto
qed

text \<open>UTF-8 encoding is injective: decoding the bytes of an encodable text gives it back, and
  the byte length the caps are checked against is the length of those bytes.\<close>

theorem utf8_roundtrip:
  assumes "py_text s" "utf8_encode s = Inr bs"
  shows "utf8_decode bs = Some s \<and> length bs = utf8_len s"
  using utf8_roundtrip_aux [OF assms] assms(2) by (auto simp: utf8_encode_def utf8_len_def split: if_splits)

theorem utf8_roundtrip_witness: "utf8_decode [0xE2, 0x82, 0xAC] = Some [0x20AC]"
  using utf8_roundtrip [of "[0x20AC]" "[0xE2, 0x82, 0xAC]"]
  by (simp add: py_text_def utf8_encode_def has_surrogate_def is_surrogate_def utf8_bytes_def)

text \<open>Sanitizing makes any text storable, replaces exactly the code points PostgreSQL rejects,
  one for one, and leaves storable text alone.\<close>

theorem sanitize_repairs:
  assumes "py_text s"
  shows "storable (sanitize s) \<and> length (sanitize s) = length s \<and> (storable s \<longrightarrow> sanitize s = s)
    \<and> (\<forall>i < length s. sanitize s ! i = (if s ! i = 0 \<or> is_surrogate (s ! i) then REPLACEMENT else s ! i))"
  using storable_sanitize [OF assms] sanitize_storable [OF assms] by (simp add: sanitize_eq [OF assms])

theorem sanitize_repairs_witness: "sanitize [0, 65, 0xD800] = [0xFFFD, 65, 0xFFFD]"
  using sanitize_repairs [of "[0, 65, 0xD800]"]
  by (simp add: py_text_def sanitize_eq is_surrogate_def REPLACEMENT_def)

text \<open>A fenced write returns once the database answers definitively or the worker aborts, and
  every delay it slept lies between one and ten seconds.\<close>

theorem fenced_write_ends:
  assumes "abort n \<or> op n \<noteq> ConnectionLost" "n < fuel"
  shows "\<exists>x ds. fenced_write fuel abort op = Some (x, ds) \<and> length ds \<le> n \<and> (\<forall>t \<in> set ds. 1 \<le> t \<and> t \<le> 10)"
proof -
  obtain x ds where run: "fenced_write fuel abort op = Some (x, ds)"
    using fenced_ends [of abort 0 n op fuel TRANSITION_RETRY_S] assms by (auto simp: fenced_write_def)
  have "length ds \<le> n"
    using fenced_tries [of fuel abort op 0 TRANSITION_RETRY_S x ds n] run assms(1) by (simp add: fenced_write_def)
  moreover have "\<forall>t \<in> set ds. 1 \<le> t \<and> t \<le> 10"
    using fenced_delays [of fuel abort op 0 TRANSITION_RETRY_S x ds] run
    by (simp add: fenced_write_def TRANSITION_RETRY_S_def TRANSITION_RETRY_MAX_S_def)
  ultimately show ?thesis using run by blast
qed

theorem fenced_write_ends_witness:
  "fenced_write 9 (\<lambda>_. False) (\<lambda>k. if k < 5 then ConnectionLost else Answer (7::nat)) = Some (Some 7, [1, 2, 4, 8, 10])"
proof -
  have run: "fenced_write 9 (\<lambda>_. False) (\<lambda>k. if k < 5 then ConnectionLost else Answer (7::nat)) = Some (Some 7, [1, 2, 4, 8, 10])"
    by (simp add: fenced_write_def TRANSITION_RETRY_S_def TRANSITION_RETRY_MAX_S_def eval_nat_numeral)
  with fenced_write_ends [of "\<lambda>_. False" 5 "\<lambda>k. if k < 5 then ConnectionLost else Answer (7::nat)" 9]
  show ?thesis by simp
qed

text \<open>The delay between claim attempts never leaves the range from the initial delay to the
  configured ceiling, through any sequence of claims, wake-ups and timeouts.\<close>

theorem poll_delay_in_range:
  assumes "settings_ok s"
  shows "initial_delay s \<le> foldl (poll_delay s) (initial_delay s) es
    \<and> foldl (poll_delay s) (initial_delay s) es \<le> poll_interval_s s"
  by (rule poll_delay_bounds [OF assms])

theorem poll_delay_in_range_witness:
  "foldl (poll_delay default_settings) (initial_delay default_settings) [TimedOut, TimedOut, Woken, TimedOut] \<le> 1"
proof -
  have "poll_interval_s default_settings = 1" by (simp add: default_settings_def)
  with conjunct2 [OF poll_delay_in_range [OF default_settings_ok, of "[TimedOut, TimedOut, Woken, TimedOut]"]]
  show ?thesis by metis
qed

end
